(* ===== verification/Prelude.thy ===== *)
theory Prelude
  imports Main "HOL-Library.Word"
begin

text \<open>
  Shared vocabulary of the development: machine types, the result type of C code that can
  stop (a failed \<^verbatim>\<open>assert\<close>, a read outside a buffer, a loop that does not end), checked
  buffer access, little endian byte codecs, and the generic list and arithmetic lemmas the
  components use.
\<close>

unbundle bit_operations_syntax

type_synonym byte = "8 word"
type_synonym u16 = "16 word"
type_synonym u32 = "32 word"
type_synonym u64 = "64 word"
type_synonym buffer = "byte list"

section \<open>Results of C code\<close>

text \<open>
  The ways a modelled C function stops without returning: an \<^verbatim>\<open>assert\<close> that fails
  (\<^verbatim>\<open>redisassert.h\<close> aborts the process), an access outside the object a pointer points into,
  and a loop that would not end.
\<close>

datatype c_error = AssertFailed | OutOfBounds | Diverges

type_synonym 'a result = "c_error + 'a"

definition res_bind :: "'a result \<Rightarrow> ('a \<Rightarrow> 'b result) \<Rightarrow> 'b result" where
  "res_bind m f = (case m of Inl e \<Rightarrow> Inl e | Inr x \<Rightarrow> f x)"

lemma res_bind_simps [simp]:
  "res_bind (Inl e) f = Inl e"
  "res_bind (Inr x) f = f x"
  by (simp_all add: res_bind_def)

lemma res_bind_cong [fundef_cong]:
  "m = m' \<Longrightarrow> (\<And>x. m' = Inr x \<Longrightarrow> f x = f' x) \<Longrightarrow> res_bind m f = res_bind m' f'"
  by (auto simp: res_bind_def split: sum.splits)

lemma res_bind_eq_Inr [simp]:
  "res_bind m f = Inr y \<longleftrightarrow> (\<exists>x. m = Inr x \<and> f x = Inr y)"
  by (auto simp: res_bind_def split: sum.splits)

lemma res_bind_assoc:
  "res_bind (res_bind m f) g = res_bind m (\<lambda>x. res_bind (f x) g)"
  by (auto simp: res_bind_def split: sum.splits)

definition res_assert :: "bool \<Rightarrow> unit result" where
  "res_assert b = (if b then Inr () else Inl AssertFailed)"

lemma res_assert_simps [simp]:
  "res_assert True = Inr ()"
  "res_assert False = Inl AssertFailed"
  by (simp_all add: res_assert_def)

lemma res_assert_eq_Inr [simp]: "res_assert b = Inr u \<longleftrightarrow> b"
  by (simp add: res_assert_def)

section \<open>Checked array access\<close>

definition rd :: "'a list \<Rightarrow> int \<Rightarrow> 'a result" where
  "rd xs i = (if 0 \<le> i \<and> i < int (length xs) then Inr (xs ! nat i) else Inl OutOfBounds)"

definition wr :: "'a list \<Rightarrow> int \<Rightarrow> 'a \<Rightarrow> 'a list result" where
  "wr xs i x =
     (if 0 \<le> i \<and> i < int (length xs) then Inr (xs[nat i := x]) else Inl OutOfBounds)"

lemma rd_nat [simp]: "i < length xs \<Longrightarrow> rd xs (int i) = Inr (xs ! i)"
  by (simp add: rd_def)

lemma rd_ok: "0 \<le> i \<Longrightarrow> i < int (length xs) \<Longrightarrow> rd xs i = Inr (xs ! nat i)"
  by (simp add: rd_def)

lemma wr_nat [simp]: "i < length xs \<Longrightarrow> wr xs (int i) x = Inr (xs[i := x])"
  by (simp add: wr_def)

lemma wr_ok: "0 \<le> i \<Longrightarrow> i < int (length xs) \<Longrightarrow> wr xs i x = Inr (xs[nat i := x])"
  by (simp add: wr_def)

section \<open>Prefix sums\<close>

definition psum :: "nat list \<Rightarrow> nat \<Rightarrow> nat" where
  "psum xs n = sum_list (take n xs)"

lemma psum_0 [simp]: "psum xs 0 = 0"
  by (simp add: psum_def)

lemma psum_Suc: "n < length xs \<Longrightarrow> psum xs (Suc n) = psum xs n + xs ! n"
  by (simp add: psum_def take_Suc_conv_app_nth)

lemma psum_all: "length xs \<le> n \<Longrightarrow> psum xs n = sum_list xs"
  by (simp add: psum_def)

lemma psum_split: "m \<le> n \<Longrightarrow> psum xs n = psum xs m + sum_list (take (n - m) (drop m xs))"
  by (metis append_take_drop_id diff_add_inverse2 drop_take min_def psum_def sum_list_append take_take)

lemma psum_mono: "m \<le> n \<Longrightarrow> psum xs m \<le> psum xs n"
  by (simp add: psum_split)

lemma psum_le_all: "psum xs n \<le> sum_list xs"
  by (metis append_take_drop_id le_add1 psum_def sum_list_append)

lemma psum_update:
  "i < length xs \<Longrightarrow>
   int (psum (xs[i := v]) n) = (if i < n then int (psum xs n) + int v - int (xs ! i) else int (psum xs n))"
proof (induction n)
  case 0
  then show ?case by simp
next
  case (Suc n)
  show ?case
  proof (cases "n < length xs")
    case True
    with Suc show ?thesis by (auto simp: psum_Suc nth_list_update less_Suc_eq)
  next
    case False
    with Suc show ?thesis by (auto simp: psum_def)
  qed
qed

section \<open>Blocks of bytes\<close>

text \<open>
  \<open>rdn buf off n\<close> reads the \<open>n\<close> bytes at \<open>off\<close>, \<open>wrn buf off bs\<close> overwrites the bytes at \<open>off\<close>
  (\<^verbatim>\<open>memcpy\<close>, \<^verbatim>\<open>memmove\<close>, a store through a typed pointer), both within the buffer or not at all.
\<close>

definition rdn :: "'a list \<Rightarrow> int \<Rightarrow> nat \<Rightarrow> 'a list result" where
  "rdn buf off n =
     (if 0 \<le> off \<and> off + int n \<le> int (length buf) then Inr (take n (drop (nat off) buf))
      else Inl OutOfBounds)"

definition wrn :: "'a list \<Rightarrow> int \<Rightarrow> 'a list \<Rightarrow> 'a list result" where
  "wrn buf off bs =
     (if 0 \<le> off \<and> off + int (length bs) \<le> int (length buf)
      then Inr (take (nat off) buf @ bs @ drop (nat off + length bs) buf)
      else Inl OutOfBounds)"

lemma rdn_nat: "off + n \<le> length buf \<Longrightarrow> rdn buf (int off) n = Inr (take n (drop off buf))"
  by (simp add: rdn_def flip: of_nat_add)

lemma wrn_nat:
  "off + length bs \<le> length buf \<Longrightarrow>
   wrn buf (int off) bs = Inr (take off buf @ bs @ drop (off + length bs) buf)"
  by (simp add: wrn_def flip: of_nat_add)

lemma wrn_length: "wrn buf off bs = Inr buf' \<Longrightarrow> length buf' = length buf"
  by (auto simp: wrn_def split: if_splits)

text \<open>
  \<^verbatim>\<open>realloc\<close> keeps the common prefix; what a grown block holds behind it is up to the allocator,
  here the function \<open>junk\<close>, on which nothing may depend.
\<close>

definition zrealloc :: "(nat \<Rightarrow> byte) \<Rightarrow> buffer \<Rightarrow> nat \<Rightarrow> buffer" where
  "zrealloc junk buf n = take n buf @ map junk [length buf..<n]"

lemma length_zrealloc [simp]: "length (zrealloc junk buf n) = n"
  by (simp add: zrealloc_def)

lemma zrealloc_grow: "length buf \<le> n \<Longrightarrow> zrealloc junk buf n = buf @ map junk [length buf..<n]"
  by (simp add: zrealloc_def)

lemma zrealloc_shrink: "n \<le> length buf \<Longrightarrow> zrealloc junk buf n = take n buf"
  by (simp add: zrealloc_def)

section \<open>Little endian codecs\<close>

fun le_bytes :: "nat \<Rightarrow> int \<Rightarrow> buffer" where
  "le_bytes 0 v = []"
| "le_bytes (Suc n) v = word_of_int v # le_bytes n (v div 256)"

fun le_val :: "buffer \<Rightarrow> int" where
  "le_val [] = 0"
| "le_val (b # bs) = uint b + 256 * le_val bs"

definition le_sval :: "buffer \<Rightarrow> int" where
  "le_sval bs =
     (if le_val bs < 2 ^ (8 * length bs - 1) then le_val bs
      else le_val bs - 2 ^ (8 * length bs))"

lemma length_le_bytes [simp]: "length (le_bytes n v) = n"
  by (induction n arbitrary: v) auto

lemma le_val_bounds: "0 \<le> le_val bs \<and> le_val bs < 256 ^ length bs"
proof (induction bs)
  case (Cons b bs)
  have "0 \<le> uint b" "uint b \<le> 255" using uint_bounded [of b] by simp_all
  with Cons show ?case by auto
qed simp

lemma le_val_le_bytes: "le_val (le_bytes n v) = v mod 256 ^ n"
proof (induction n arbitrary: v)
  case (Suc n)
  have "uint (word_of_int v :: byte) = v mod 256" by (simp add: uint_word_of_int)
  then have "le_val (le_bytes (Suc n) v) = v mod 256 + 256 * (v div 256 mod 256 ^ n)"
    by (simp add: Suc)
  also have "\<dots> = v mod (256 * 256 ^ n)" by (simp add: zmod_zmult2_eq)
  finally show ?case by simp
qed simp

lemma le_bytes_le_val: "le_bytes (length bs) (le_val bs) = bs"
proof (induction bs)
  case (Cons b bs)
  have b: "0 \<le> uint b" "uint b < 256" using uint_bounded [of b] by simp_all
  then have "(uint b + 256 * le_val bs) div 256 = le_val bs" by simp
  moreover have "word_of_int (uint b + 256 * le_val bs) = b"
  proof -
    have "(256 :: byte) = 0" by simp
    then show ?thesis by (simp only: of_int_add of_int_mult of_int_numeral word_of_int_uint) simp
  qed
  ultimately show ?case using Cons by simp
qed simp

lemma le_val_append: "le_val (xs @ ys) = le_val xs + 256 ^ length xs * le_val ys"
  by (induction xs) (auto simp: algebra_simps)

lemma pow_256: "(256::int) ^ n = 2 ^ (8 * n)"
  by (simp add: power_mult)

lemma le_sval_le_bytes:
  assumes "0 < n" "- (2 ^ (8 * n - 1)) \<le> v" "v < 2 ^ (8 * n - 1)"
  shows "le_sval (le_bytes n v) = v"
proof -
  let ?h = "2 ^ (8 * n - 1) :: int"
  have two: "2 ^ (8 * n) = 2 * ?h" using assms(1) by (simp flip: power_Suc)
  have m: "le_val (le_bytes n v) = v mod (2 * ?h)" by (simp add: le_val_le_bytes pow_256 two)
  show ?thesis
  proof (cases "0 \<le> v")
    case True
    with assms have "v mod (2 * ?h) = v" by simp
    with m assms show ?thesis by (simp add: le_sval_def)
  next
    case False
    have "v mod (2 * ?h) = (v + 2 * ?h) mod (2 * ?h)" by simp
    also have "\<dots> = v + 2 * ?h" using False assms by (intro mod_pos_pos_trivial) auto
    finally show ?thesis using m assms two by (simp add: le_sval_def)
  qed
qed

lemma le_bytes_mod: "le_bytes n (v mod 256 ^ n) = le_bytes n v"
  using le_bytes_le_val [of "le_bytes n v"] by (simp add: le_val_le_bytes)

lemma le_bytes_le_sval: "le_bytes (length bs) (le_sval bs) = bs"
proof -
  let ?n = "length bs"
  have "le_sval bs mod 256 ^ ?n = le_val bs"
    using le_val_bounds [of bs] by (auto simp: le_sval_def pow_256)
  then show ?thesis using le_bytes_mod [of ?n "le_sval bs"] by (simp add: le_bytes_le_val)
qed

lemma le_sval_bounds:
  assumes "bs \<noteq> []"
  shows "- (2 ^ (8 * length bs - 1)) \<le> le_sval bs \<and> le_sval bs < 2 ^ (8 * length bs - 1)"
proof -
  have "(2::int) ^ (8 * length bs) = 2 * 2 ^ (8 * length bs - 1)"
    using assms by (simp flip: power_Suc)
  then show ?thesis using le_val_bounds [of bs] by (auto simp: le_sval_def pow_256)
qed

section \<open>Fixed width records in a buffer\<close>

text \<open>\<open>records w xs\<close> is the array of \<open>w\<close> byte little endian integers \<open>xs\<close>.\<close>

definition records :: "nat \<Rightarrow> int list \<Rightarrow> buffer" where
  "records w xs = concat (map (le_bytes w) xs)"

lemma records_simps [simp]:
  "records w [] = []"
  "records w (x # xs) = le_bytes w x @ records w xs"
  "records w (xs @ ys) = records w xs @ records w ys"
  by (simp_all add: records_def)

lemma length_records [simp]: "length (records w xs) = w * length xs"
  by (induction xs) auto

lemma take_records: "take (w * n) (records w xs) = records w (take n xs)"
proof (induction xs arbitrary: n)
  case (Cons x xs)
  then show ?case by (cases n) auto
qed simp

lemma drop_records: "drop (w * n) (records w xs) = records w (drop n xs)"
proof (induction xs arbitrary: n)
  case (Cons x xs)
  then show ?case by (cases n) auto
qed simp

lemma nth_records: "i < length xs \<Longrightarrow> take w (drop (w * i) (records w xs)) = le_bytes w (xs ! i)"
  by (simp add: drop_records Cons_nth_drop_Suc [symmetric])

lemma records_of_chunks:
  assumes "length buf = w * n"
  shows "buf = records w (map (\<lambda>i. le_sval (take w (drop (w * i) buf))) [0..<n])"
  using assms
proof (induction n arbitrary: buf)
  case (Suc n)
  let ?f = "\<lambda>buf i. le_sval (take w (drop (w * i) buf))"
  have "[0..<Suc n] = 0 # map Suc [0..<n]" by (simp add: map_Suc_upt upt_conv_Cons del: upt_Suc)
  then have "map (?f buf) [0..<Suc n] = ?f buf 0 # map (?f (drop w buf)) [0..<n]"
    by (simp add: add.commute)
  moreover have "drop w buf = records w (map (?f (drop w buf)) [0..<n])"
    using Suc.prems by (intro Suc.IH) simp
  moreover have "le_bytes w (?f buf 0) = take w buf"
    using Suc.prems le_bytes_le_sval [of "take w buf"] by simp
  ultimately show ?case by (metis append_take_drop_id records_simps(2))
qed simp

lemma unat_u32_less: "unat (w :: u32) < 2 ^ 32"
  using unsigned_less [of w] by simp

lemma of_nat_u64_eq_iff: "a < 2 ^ 64 \<Longrightarrow> b < 2 ^ 64 \<Longrightarrow> (of_nat a :: u64) = of_nat b \<longleftrightarrow> a = b"
  by (simp add: word_unat_eq_iff unat_of_nat)

section \<open>Bits of naturals and bytes\<close>

lemma nat_or_push:
  assumes "(a :: nat) < 2 ^ n"
  shows "a OR push_bit n b = a + 2 ^ n * b"
proof -
  have "a AND push_bit n b = 0"
  proof (rule bit_eqI)
    fix k
    have "k < n \<or> \<not> bit a k" using assms by (metis bit_take_bit_iff take_bit_nat_eq_self_iff)
    then show "bit (a AND push_bit n b) k = bit (0 :: nat) k" by (auto simp: bit_simps)
  qed
  then show ?thesis using disjunctive_add_eq_or [of a "push_bit n b"] by (simp add: push_bit_eq_mult mult.commute)
qed

lemma int_or_push:
  assumes "0 \<le> a" "(a :: int) < 2 ^ n"
  shows "a OR push_bit n b = a + 2 ^ n * b"
proof -
  have "a AND push_bit n b = 0"
  proof (rule bit_eqI)
    fix k
    have "k < n \<or> \<not> bit a k" using assms by (metis bit_take_bit_iff take_bit_int_eq_self_iff)
    then show "bit (a AND push_bit n b) k = bit (0 :: int) k" by (auto simp: bit_simps)
  qed
  then show ?thesis using disjunctive_add_eq_or [of a "push_bit n b"] by (simp add: push_bit_eq_mult mult.commute)
qed

lemma nat_and_low: "(a :: nat) AND (2 ^ n - 1) = a mod 2 ^ n"
  unfolding mask_eq_exp_minus_1 [symmetric] take_bit_eq_mask [symmetric] by (rule take_bit_eq_mod)

lemma int_and_low: "(a :: int) AND (2 ^ n - 1) = a mod 2 ^ n"
  unfolding mask_eq_exp_minus_1 [symmetric] take_bit_eq_mask [symmetric] by (rule take_bit_eq_mod)

text \<open>A statement on bytes holds if it holds of the 256 bytes.\<close>

lemma byte_all: "list_all (\<lambda>n. P (of_nat n :: byte)) [0..<256] \<Longrightarrow> P b"
proof -
  assume l: "list_all (\<lambda>n. P (of_nat n :: byte)) [0..<256]"
  have "unat b \<in> set [0..<256]" using unsigned_less [of b] by simp
  then have "P (of_nat (unat b))" using l unfolding list_all_iff by blast
  then show ?thesis by simp
qed

lemma unat_byte_less: "unat (b :: byte) < 256"
  using unsigned_less [of b] by simp

lemma unat_byte_of_nat: "n < 256 \<Longrightarrow> unat (of_nat n :: byte) = n"
  by (simp add: unat_of_nat)

section \<open>Reading a block inside a buffer\<close>

lemma rd_append: "rd (pre @ x # post) (int (length pre)) = Inr x"
  by (simp add: rd_def)

lemma rd_append_nth: "i < length xs \<Longrightarrow> rd (pre @ xs @ post) (int (length pre) + int i) = Inr (xs ! i)"
  by (simp add: rd_def nth_append flip: of_nat_add)

lemma rdn_append: "rdn (pre @ xs @ post) (int (length pre)) (length xs) = Inr xs"
  by (simp add: rdn_def)

lemma rdn_append_sub:
  "i + n \<le> length xs \<Longrightarrow> rdn (pre @ xs @ post) (int (length pre) + int i) n = Inr (take n (drop i xs))"
  by (simp add: rdn_def flip: of_nat_add)

lemma wrn_append: "length ys = length xs \<Longrightarrow> wrn (pre @ xs @ post) (int (length pre)) ys = Inr (pre @ ys @ post)"
  by (simp add: wrn_def)

section \<open>The interface of a set of elements\<close>

text \<open>
  What a concrete set promises its clients. \<open>srep s A\<close> relates a concrete set to the set of its
  elements, \<open>ok\<close> are the admissible elements and \<open>cap\<close> bounds the size up to which an addition
  is promised to succeed.
\<close>

datatype 'e set_op = SAdd 'e | SRemove 'e | SFind 'e

text \<open>The client: a sequence of commands, with the reply (0 or 1) of each.\<close>

fun run_set_ops ::
  "('s \<Rightarrow> 'e \<Rightarrow> ('s \<times> bool) result) \<Rightarrow> ('s \<Rightarrow> 'e \<Rightarrow> ('s \<times> bool) result) \<Rightarrow>
   ('s \<Rightarrow> 'e \<Rightarrow> ('s \<times> bool) result) \<Rightarrow>
   's \<Rightarrow> 'e set_op list \<Rightarrow> ('s \<times> bool list) result" where
  "run_set_ops add rem fnd s [] = Inr (s, [])"
| "run_set_ops add rem fnd s (op # ops) =
     res_bind (case op of SAdd e \<Rightarrow> add s e | SRemove e \<Rightarrow> rem s e | SFind e \<Rightarrow> fnd s e) (\<lambda>(s', b).
     res_bind (run_set_ops add rem fnd s' ops) (\<lambda>(s'', bs). Inr (s'', b # bs)))"

fun spec_set_ops :: "'e set \<Rightarrow> 'e set_op list \<Rightarrow> 'e set \<times> bool list" where
  "spec_set_ops A [] = (A, [])"
| "spec_set_ops A (SAdd e # ops) = (let (B, bs) = spec_set_ops (insert e A) ops in (B, (e \<notin> A) # bs))"
| "spec_set_ops A (SRemove e # ops) = (let (B, bs) = spec_set_ops (A - {e}) ops in (B, (e \<in> A) # bs))"
| "spec_set_ops A (SFind e # ops) = (let (B, bs) = spec_set_ops A ops in (B, (e \<in> A) # bs))"

fun op_elem :: "'e set_op \<Rightarrow> 'e" where
  "op_elem (SAdd e) = e"
| "op_elem (SRemove e) = e"
| "op_elem (SFind e) = e"

locale element_set =
  fixes srep :: "'s \<Rightarrow> 'e set \<Rightarrow> bool"
    and add :: "'s \<Rightarrow> 'e \<Rightarrow> ('s \<times> bool) result"
    and rem :: "'s \<Rightarrow> 'e \<Rightarrow> ('s \<times> bool) result"
    and fnd :: "'s \<Rightarrow> 'e \<Rightarrow> ('s \<times> bool) result"
    and ok :: "'e \<Rightarrow> bool" and cap :: nat
  assumes srep_finite: "srep s A \<Longrightarrow> finite A"
    and add_srep: "srep s A \<Longrightarrow> ok e \<Longrightarrow> card A < cap \<Longrightarrow>
      \<exists>s'. add s e = Inr (s', e \<notin> A) \<and> srep s' (insert e A)"
    and rem_srep: "srep s A \<Longrightarrow> ok e \<Longrightarrow> \<exists>s'. rem s e = Inr (s', e \<in> A) \<and> srep s' (A - {e})"
    and fnd_srep: "srep s A \<Longrightarrow> ok e \<Longrightarrow> \<exists>s'. fnd s e = Inr (s', e \<in> A) \<and> srep s' A"
begin

lemma run_set_ops_spec:
  assumes "srep s A" "\<forall>op\<in>set ops. ok (op_elem op)" "card A + length ops \<le> cap"
  shows "\<exists>s'. run_set_ops add rem fnd s ops = Inr (s', snd (spec_set_ops A ops)) \<and>
    srep s' (fst (spec_set_ops A ops))"
  using assms
proof (induction ops arbitrary: s A)
  case (Cons op ops)
  have fin: "finite A" using Cons.prems(1) by (rule srep_finite)
  have ok: "ok (op_elem op)" "\<forall>op\<in>set ops. ok (op_elem op)" using Cons.prems by simp_all
  show ?case
  proof (cases op)
    case (SAdd e)
    then obtain s' where s': "add s e = Inr (s', e \<notin> A)" "srep s' (insert e A)"
      using add_srep [of s A e] Cons.prems ok by auto
    moreover have "card (insert e A) + length ops \<le> cap"
      using Cons.prems(3) card_insert_le_m1 [of "Suc (card A)" A e] by (simp add: card_insert_if fin)
    ultimately show ?thesis using SAdd Cons.IH [OF s'(2) ok(2)] by (auto simp: case_prod_beta Let_def)
  next
    case (SRemove e)
    then obtain s' where s': "rem s e = Inr (s', e \<in> A)" "srep s' (A - {e})"
      using rem_srep [of s A e] Cons.prems ok by auto
    moreover have "card (A - {e}) + length ops \<le> cap"
      using Cons.prems(3) card_Diff1_le [of A e] by simp
    ultimately show ?thesis using SRemove Cons.IH [OF s'(2) ok(2)] by (auto simp: case_prod_beta Let_def)
  next
    case (SFind e)
    then obtain s' where s': "fnd s e = Inr (s', e \<in> A)" "srep s' A"
      using fnd_srep [of s A e] Cons.prems ok by auto
    moreover have "card A + length ops \<le> cap" using Cons.prems(3) by simp
    ultimately show ?thesis using SFind Cons.IH [OF s'(2) ok(2)] by (auto simp: case_prod_beta Let_def)
  qed
qed simp

end

section \<open>The interface of a keyed map\<close>

text \<open>
  What a concrete map promises: \<open>rep\<close> relates it to a map from lookup keys to records, which does not
  tell keys apart that \<open>eqv\<close> relates. \<open>key\<close> is the lookup key of a stored key, \<open>mk\<close> the record a new
  key gets and \<open>upd\<close> the record after its value is replaced. \<open>mnt\<close> are commands that reorganise the
  concrete map and leave the abstract one as it is.
\<close>

datatype ('s, 'k, 'v, 'c) map_op = MAdd 's 'v | MReplace 's 'v | MDelete 'k | MFind 'k | MMaintain 'c

datatype 'r map_reply = RBool bool | RRecord "'r option" | RDone

definition map_set :: "('k \<Rightarrow> 'k \<Rightarrow> bool) \<Rightarrow> ('k \<rightharpoonup> 'r) \<Rightarrow> 'k \<Rightarrow> 'r option \<Rightarrow> ('k \<rightharpoonup> 'r)" where
  "map_set eqv m k r = (\<lambda>k'. if eqv k' k then r else m k')"

fun spec_map_op ::
  "('k \<Rightarrow> 'k \<Rightarrow> bool) \<Rightarrow> ('s \<Rightarrow> 'k) \<Rightarrow> ('s \<Rightarrow> 'v \<Rightarrow> 'r) \<Rightarrow> ('r \<Rightarrow> 'v \<Rightarrow> 'r) \<Rightarrow> ('k \<rightharpoonup> 'r) \<Rightarrow>
   ('s, 'k, 'v, 'c) map_op \<Rightarrow> ('k \<rightharpoonup> 'r) \<times> 'r map_reply" where
  "spec_map_op eqv key mk upd m (MAdd s v) =
     (if m (key s) = None then (map_set eqv m (key s) (Some (mk s v)), RBool True) else (m, RBool False))"
| "spec_map_op eqv key mk upd m (MReplace s v) =
     (map_set eqv m (key s) (Some (case m (key s) of None \<Rightarrow> mk s v | Some r \<Rightarrow> upd r v)),
      RBool (m (key s) = None))"
| "spec_map_op eqv key mk upd m (MDelete k) = (map_set eqv m k None, RRecord (m k))"
| "spec_map_op eqv key mk upd m (MFind k) = (m, RRecord (m k))"
| "spec_map_op eqv key mk upd m (MMaintain c) = (m, RDone)"

fun spec_map_ops ::
  "('k \<Rightarrow> 'k \<Rightarrow> bool) \<Rightarrow> ('s \<Rightarrow> 'k) \<Rightarrow> ('s \<Rightarrow> 'v \<Rightarrow> 'r) \<Rightarrow> ('r \<Rightarrow> 'v \<Rightarrow> 'r) \<Rightarrow> ('k \<rightharpoonup> 'r) \<Rightarrow>
   ('s, 'k, 'v, 'c) map_op list \<Rightarrow> ('k \<rightharpoonup> 'r) \<times> 'r map_reply list" where
  "spec_map_ops eqv key mk upd m [] = (m, [])"
| "spec_map_ops eqv key mk upd m (op # ops) =
     (let (m', r) = spec_map_op eqv key mk upd m op; (m'', rs) = spec_map_ops eqv key mk upd m' ops in (m'', r # rs))"

fun run_map_ops ::
  "('d \<Rightarrow> ('s, 'k, 'v, 'c) map_op \<Rightarrow> ('d \<times> 'r map_reply) result) \<Rightarrow> 'd \<Rightarrow> ('s, 'k, 'v, 'c) map_op list \<Rightarrow>
   ('d \<times> 'r map_reply list) result" where
  "run_map_ops step d [] = Inr (d, [])"
| "run_map_ops step d (op # ops) =
     res_bind (step d op) (\<lambda>(d', r).
     res_bind (run_map_ops step d' ops) (\<lambda>(d'', rs). Inr (d'', r # rs)))"

locale keyed_map =
  fixes rep :: "'d \<Rightarrow> ('k \<rightharpoonup> 'r) \<Rightarrow> bool" and eqv :: "'k \<Rightarrow> 'k \<Rightarrow> bool" and key :: "'s \<Rightarrow> 'k"
    and mk :: "'s \<Rightarrow> 'v \<Rightarrow> 'r" and upd :: "'r \<Rightarrow> 'v \<Rightarrow> 'r"
    and step :: "'d \<Rightarrow> ('s, 'k, 'v, 'c) map_op \<Rightarrow> ('d \<times> 'r map_reply) result"
  assumes step_rep: "rep d m \<Longrightarrow>
    \<exists>d'. step d op = Inr (d', snd (spec_map_op eqv key mk upd m op)) \<and> rep d' (fst (spec_map_op eqv key mk upd m op))"
begin

lemma run_map_ops_spec:
  "rep d m \<Longrightarrow>
   \<exists>d'. run_map_ops step d ops = Inr (d', snd (spec_map_ops eqv key mk upd m ops)) \<and>
     rep d' (fst (spec_map_ops eqv key mk upd m ops))"
proof (induction ops arbitrary: d m)
  case (Cons op ops)
  obtain d1 where d1: "step d op = Inr (d1, snd (spec_map_op eqv key mk upd m op))"
    "rep d1 (fst (spec_map_op eqv key mk upd m op))"
    using step_rep [OF Cons.prems] by blast
  show ?case using Cons.IH [OF d1(2)] d1(1) by (auto simp: case_prod_beta Let_def)
qed simp

text \<open>Keys that \<open>eqv\<close> does not relate to any key of the commands are not touched.\<close>

lemma spec_map_ops_frame:
  assumes "\<forall>op\<in>set ops. case op of MAdd s v \<Rightarrow> \<not> eqv k (key s) | MReplace s v \<Rightarrow> \<not> eqv k (key s)
    | MDelete k' \<Rightarrow> \<not> eqv k k' | _ \<Rightarrow> True"
  shows "fst (spec_map_ops eqv key mk upd m ops) k = m k"
  using assms
proof (induction ops arbitrary: m)
  case (Cons op ops)
  then show ?case by (cases op) (auto simp: case_prod_beta Let_def map_set_def)
qed simp

end

end
