(* ===== verification/Fwtree.thy ===== *)
theory Fwtree
  imports Prelude
begin

text \<open>
  The Fenwick tree of \<^verbatim>\<open>src/redis-stable/src/fwtree.c\<close>, with which \<^verbatim>\<open>kvstore.c\<close> keeps the
  cumulative number of keys over its dictionaries. Indexes are C \<^verbatim>\<open>int\<close>s, modelled as \<^typ>\<open>int\<close>
  (every index stays below twice the size, which is at most \<open>2^16\<close> for a kvstore); node
  values, deltas and the total keep their 64 bit width and wrap. A \<^verbatim>\<open>NULL\<close> tree is \<^term>\<open>None\<close>.
\<close>

section \<open>The lowest set bit\<close>

lemma lowbit_int_even: "(2 * j) AND (- (2 * j)) = 2 * (j AND - j)" for j :: int
  using and_rec [of "2 * j" "- (2 * j)"] by (simp flip: mult_minus_right)

lemma lowbit_int_odd: "(2 * j + 1) AND (- (2 * j + 1)) = 1" for j :: int
proof -
  have "- (2 * j + 1) div 2 = NOT j" by (simp add: not_int_def)
  then show ?thesis using and_rec [of "2 * j + 1" "- (2 * j + 1)"] by simp
qed

lemma lowbit_int_bounds: "0 < i \<Longrightarrow> 0 < i AND - i \<and> i AND - i \<le> i" for i :: int
proof (induction "nat i" arbitrary: i rule: less_induct)
  case less
  show ?case
  proof (cases "even i")
    case True
    then obtain j where j: "i = 2 * j" by auto
    with less.prems have "0 < j" "nat j < nat i" by auto
    then have "0 < j AND - j \<and> j AND - j \<le> j" by (intro less.hyps) auto
    then show ?thesis unfolding j lowbit_int_even by linarith
  next
    case False
    then obtain j where j: "i = 2 * j + 1" by (auto elim: oddE)
    with less.prems show ?thesis unfolding j lowbit_int_odd by linarith
  qed
qed

section \<open>The structure and its operations\<close>

record fenwickTree =
  ft_tree :: "u64 list"
  ft_size_bits :: nat
  ft_size :: int
  ft_total :: u64

definition fwTreeCreate :: "nat \<Rightarrow> fenwickTree" where
  "fwTreeCreate sizeBits =
     (let sz = push_bit sizeBits (1::int)
      in \<lparr> ft_tree = replicate (nat (sz + 1)) 0, ft_size_bits = sizeBits, ft_size = sz,
           ft_total = 0 \<rparr>)"

text \<open>The loop of \<^verbatim>\<open>fwTreePrefixSum\<close>: clear the lowest set bit until the index is 0.\<close>

function prefixSumLoop :: "u64 list \<Rightarrow> int \<Rightarrow> u64 \<Rightarrow> u64 result" where
  "prefixSumLoop t idx sm =
     (if 0 < idx
      then res_bind (rd t idx) (\<lambda>v. prefixSumLoop t (idx - (idx AND - idx)) (sm + v))
      else Inr sm)"
  by pat_completeness auto
termination
  by (relation "measure (\<lambda>(t, idx, sm). nat idx)") (auto dest: lowbit_int_bounds)

definition fwTreePrefixSum :: "fenwickTree option \<Rightarrow> int \<Rightarrow> u64 result" where
  "fwTreePrefixSum ftp idx =
     (case ftp of
        None \<Rightarrow> Inr 0
      | Some ft \<Rightarrow>
          if idx < 0 then Inr 0
          else (let idx = (if ft_size ft \<le> idx then ft_size ft - 1 else idx)
                in prefixSumLoop (ft_tree ft) (idx + 1) 0))"

text \<open>
  The loop of \<^verbatim>\<open>fwTreeUpdate\<close>: add the lowest set bit until the index passes the size. At an
  index that is not positive the C loop would not end; the only caller starts at 1 or above.
\<close>

function updateLoop :: "u64 list \<Rightarrow> int \<Rightarrow> int \<Rightarrow> u64 \<Rightarrow> u64 list result" where
  "updateLoop t sz idx delta =
     (if idx \<le> sz
      then if idx \<le> 0 then Inl Diverges
           else res_bind (rd t idx) (\<lambda>v.
             res_bind (if delta <s 0 then res_assert (- delta \<le> v) else Inr ()) (\<lambda>_.
             res_bind (wr t idx (v + delta)) (\<lambda>t'.
             updateLoop t' sz (idx + (idx AND - idx)) delta)))
      else Inr t)"
  by pat_completeness auto
termination
  by (relation "measure (\<lambda>(t, sz, idx, delta). nat (sz + 1 - idx))")
     (auto simp: not_le lowbit_int_bounds)

definition fwTreeUpdate ::
  "fenwickTree option \<Rightarrow> int \<Rightarrow> u64 \<Rightarrow> fenwickTree option result" where
  "fwTreeUpdate ftp idx delta =
     (case ftp of
        None \<Rightarrow> Inr None
      | Some ft \<Rightarrow>
          if idx < 0 \<or> ft_size ft \<le> idx then Inr (Some ft)
          else res_bind (updateLoop (ft_tree ft) (ft_size ft) (idx + 1) delta) (\<lambda>t.
                 Inr (Some (ft\<lparr>ft_total := ft_total ft + delta, ft_tree := t\<rparr>))))"

text \<open>The loop of \<^verbatim>\<open>fwTreeFindIndex\<close>: \<^verbatim>\<open>i\<close> runs over the powers of two down to 1.\<close>

function findIndexLoop :: "u64 list \<Rightarrow> int \<Rightarrow> int \<Rightarrow> u64 \<Rightarrow> int result" where
  "findIndexLoop t i res target =
     (if i = 0 then Inr res
      else if i < 0 then Inl Diverges
      else (let current = res + i
            in res_bind (rd t current) (\<lambda>v.
                 if target > v then findIndexLoop t (drop_bit 1 i) current (target - v)
                 else findIndexLoop t (drop_bit 1 i) res target)))"
  by pat_completeness auto
termination
  by (relation "measure (\<lambda>(t, i, res, target). nat i)")
     (auto simp: drop_bit_Suc)

definition fwTreeFindIndex :: "fenwickTree \<Rightarrow> u64 \<Rightarrow> int result" where
  "fwTreeFindIndex ft target =
     (if target \<le> 0 then Inr 0
      else findIndexLoop (ft_tree ft) (push_bit (ft_size_bits ft) 1) 0 target)"

definition fwTreeFindFirstNonEmpty :: "fenwickTree \<Rightarrow> int result" where
  "fwTreeFindFirstNonEmpty ft = fwTreeFindIndex ft 1"

definition fwTreeFindNextNonEmpty :: "fenwickTree option \<Rightarrow> int \<Rightarrow> int result" where
  "fwTreeFindNextNonEmpty ftp idx =
     (case ftp of
        None \<Rightarrow> Inr (- 1)
      | Some ft \<Rightarrow>
          if idx < 0 \<or> ft_size ft \<le> idx then Inr (- 1)
          else res_bind (fwTreePrefixSum (Some ft) idx) (\<lambda>s.
                 let next_sum = s + 1
                 in if next_sum \<le> ft_total ft then fwTreeFindIndex ft next_sum
                    else Inr (- 1)))"

definition fwTreeClear :: "fenwickTree \<Rightarrow> fenwickTree" where
  "fwTreeClear ft =
     ft\<lparr>ft_tree := replicate (nat (ft_size ft + 1)) 0 @ drop (nat (ft_size ft + 1)) (ft_tree ft),
        ft_total := 0\<rparr>"

section \<open>The lowest set bit of a natural number\<close>

definition lowbit :: "nat \<Rightarrow> nat" where
  "lowbit n = nat (int n AND - int n)"

lemma int_lowbit: "int (lowbit n) = int n AND - int n"
  using lowbit_int_bounds [of "int n"] by (cases "n = 0") (auto simp: lowbit_def)

lemma lowbit_even [simp]: "lowbit (2 * n) = 2 * lowbit n"
proof -
  have "int (lowbit (2 * n)) = int (2 * lowbit n)"
    using lowbit_int_even [of "int n"] by (simp add: int_lowbit)
  then show ?thesis by (simp only: of_nat_eq_iff)
qed

lemma lowbit_odd [simp]: "lowbit (Suc (2 * n)) = 1"
proof -
  have "int (lowbit (Suc (2 * n))) = int 1"
    using lowbit_int_odd [of "int n"] by (simp add: int_lowbit add.commute)
  then show ?thesis by (simp only: of_nat_eq_iff)
qed

lemma lowbit_pos: "0 < n \<Longrightarrow> 0 < lowbit n"
  using lowbit_int_bounds [of "int n"] by (simp add: lowbit_def)

lemma lowbit_le: "lowbit n \<le> n"
proof (cases "n = 0")
  case False
  then have "int n AND - int n \<le> int n" using lowbit_int_bounds [of "int n"] by simp
  then show ?thesis unfolding int_lowbit [symmetric] by simp
qed (simp add: lowbit_def)

lemma lowbit_pow_mult: "lowbit (2 ^ k * n) = 2 ^ k * lowbit n"
proof (induction k)
  case (Suc k)
  then show ?case using lowbit_even [of "2 ^ k * n"] by (simp add: mult.assoc)
qed simp

lemma lowbit_decomp:
  assumes "0 < n"
  obtains k m where "n = 2 ^ k * Suc (2 * m)" "lowbit n = 2 ^ k"
  using assms
proof (induction n arbitrary: thesis rule: less_induct)
  case (less n)
  show thesis
  proof (cases "even n")
    case True
    then obtain j where j: "n = 2 * j" by auto
    with less.prems(2) have "j < n" "0 < j" by auto
    then obtain k m where "j = 2 ^ k * Suc (2 * m)" "lowbit j = 2 ^ k"
      using less.IH by blast
    with j have "n = 2 ^ Suc k * Suc (2 * m)" "lowbit n = 2 ^ Suc k" by (auto simp only: lowbit_even power_Suc mult.assoc)
    then show thesis by (rule less.prems(1))
  next
    case False
    then obtain m where "n = Suc (2 * m)" by (auto elim: oddE)
    then show thesis by (intro less.prems(1) [of 0 m]) auto
  qed
qed

lemma lowbit_add_pow: "0 < r \<Longrightarrow> r < 2 ^ k \<Longrightarrow> lowbit (2 ^ k * q + r) = lowbit r"
proof (induction k arbitrary: r)
  case (Suc k)
  show ?case
  proof (cases "even r")
    case True
    then obtain j where j: "r = 2 * j" by auto
    with Suc.prems have "lowbit (2 ^ k * q + j) = lowbit j" by (intro Suc.IH) auto
    moreover have "2 ^ Suc k * q + r = 2 * (2 ^ k * q + j)" using j by simp
    ultimately show ?thesis using j by (simp only: lowbit_even)
  next
    case False
    then obtain j where j: "r = Suc (2 * j)" by (auto elim: oddE)
    then have "2 ^ Suc k * q + r = Suc (2 * (2 ^ k * q + j))" by simp
    then show ?thesis using j by (simp only: lowbit_odd)
  qed
qed simp

text \<open>
  Node \<open>i\<close> of the tree covers the indexes from \<open>i - lowbit i\<close> up to \<open>i - 1\<close>. The update loop
  visits exactly the nodes that cover the updated index: from one such node the next one is
  \<open>i + lowbit i\<close>, and no node in between covers the index.
\<close>

definition covers :: "nat \<Rightarrow> nat \<Rightarrow> bool" where
  "covers i p \<longleftrightarrow> i - lowbit i \<le> p \<and> p < i"

lemma covers_Suc: "covers (Suc p) p"
  using lowbit_pos [of "Suc p"] by (simp add: covers_def)

lemma covers_next:
  assumes "covers i p" shows "covers (i + lowbit i) p"
proof -
  from assms have "0 < i" by (auto simp: covers_def)
  then obtain k m where i: "i = 2 ^ k * Suc (2 * m)" and lb: "lowbit i = 2 ^ k"
    by (rule lowbit_decomp)
  then have nxt: "i + lowbit i = 2 ^ Suc k * Suc m" by simp
  have "2 ^ Suc k \<le> lowbit (i + lowbit i)"
    unfolding nxt lowbit_pow_mult using lowbit_pos [of "Suc m"] by simp
  moreover have "i + lowbit i - 2 ^ Suc k = i - lowbit i"
    using nxt lb i by simp
  ultimately show ?thesis using assms by (auto simp: covers_def)
qed

lemma not_covers_between:
  assumes "covers i p" "i < j" "j < i + lowbit i" shows "\<not> covers j p"
proof -
  from assms have "0 < i" by (auto simp: covers_def)
  then obtain k m where i: "i = 2 ^ k * Suc (2 * m)" and lb: "lowbit i = 2 ^ k"
    by (rule lowbit_decomp)
  define r where "r = j - i"
  with assms lb have r: "0 < r" "r < 2 ^ k" and j: "j = 2 ^ k * Suc (2 * m) + r"
    by (simp_all add: i)
  have "lowbit j \<le> r" using lowbit_le [of r] unfolding j by (simp only: lowbit_add_pow [OF r])
  with assms show ?thesis by (auto simp: covers_def r_def)
qed

lemma not_covers_before: "j \<le> p \<Longrightarrow> \<not> covers j p"
  by (simp add: covers_def)

declare prefixSumLoop.simps [simp del] updateLoop.simps [simp del] findIndexLoop.simps [simp del]

section \<open>What a tree represents\<close>

text \<open>
  \<open>fw_node as i\<close> is the value of node \<open>i\<close> for the counts \<open>as\<close>: the sum of the covered counts,
  as a 64 bit word. \<open>fw_rep ft as\<close> says that the tree represents the counts; their sum plus
  one fits 64 bits (\<^verbatim>\<open>fwTreeFindNextNonEmpty\<close> searches for the successor of a prefix sum).
\<close>

definition fw_node :: "nat list \<Rightarrow> nat \<Rightarrow> u64" where
  "fw_node as i = of_nat (psum as i) - of_nat (psum as (i - lowbit i))"

definition fw_rep :: "fenwickTree \<Rightarrow> nat list \<Rightarrow> bool" where
  "fw_rep ft as \<longleftrightarrow>
     ft_size ft = 2 ^ ft_size_bits ft \<and> length as = 2 ^ ft_size_bits ft \<and>
     length (ft_tree ft) = Suc (length as) \<and> Suc (sum_list as) < 2 ^ 64 \<and>
     ft_total ft = of_nat (sum_list as) \<and>
     (\<forall>i. 0 < i \<and> i \<le> length as \<longrightarrow> ft_tree ft ! i = fw_node as i)"

lemma fw_rep_node: "fw_rep ft as \<Longrightarrow> 0 < i \<Longrightarrow> i \<le> length as \<Longrightarrow> ft_tree ft ! i = fw_node as i"
  by (simp add: fw_rep_def)

lemma fw_rep_length:
  assumes "fw_rep ft as"
  shows "length (ft_tree ft) = Suc (length as)" "ft_size ft = int (length as)"
    "length as = 2 ^ ft_size_bits ft" "0 < length as" "ft_total ft = of_nat (sum_list as)"
    "sum_list as < 2 ^ 64" "Suc (sum_list as) < 2 ^ 64"
  using assms by (simp_all add: fw_rep_def)

lemma psum_replicate_0 [simp]: "psum (replicate n 0) k = 0"
  by (simp add: psum_def sum_list_replicate)

lemma fw_rep_create: "fw_rep (fwTreeCreate b) (replicate (2 ^ b) 0)"
  by (auto simp: fw_rep_def fwTreeCreate_def fw_node_def Let_def push_bit_eq_mult
      sum_list_replicate nat_add_distrib nat_power_eq intro!: nth_replicate)

lemma fw_rep_clear: "fw_rep ft as \<Longrightarrow> fw_rep (fwTreeClear ft) (replicate (length as) 0)"
  by (auto simp: fw_rep_def fwTreeClear_def fw_node_def sum_list_replicate nat_add_distrib
      nat_power_eq nth_append intro!: nth_replicate)

subsection \<open>Prefix sums\<close>

lemma prefixSumLoop_eq:
  assumes "length t = Suc (length as)" "\<And>j. 0 < j \<Longrightarrow> j \<le> length as \<Longrightarrow> t ! j = fw_node as j"
    "i \<le> length as"
  shows "prefixSumLoop t (int i) sm = Inr (sm + of_nat (psum as i))"
  using assms(3)
proof (induction i arbitrary: sm rule: less_induct)
  case (less i)
  show ?case
  proof (cases "i = 0")
    case True
    then show ?thesis by (simp add: prefixSumLoop.simps)
  next
    case False
    then have lb: "0 < lowbit i" "lowbit i \<le> i" by (simp_all add: lowbit_pos lowbit_le)
    then have nxt: "int i - (int i AND - int i) = int (i - lowbit i)"
      by (simp add: int_lowbit [symmetric] of_nat_diff)
    have "rd t (int i) = Inr (fw_node as i)"
      using False less.prems assms by simp
    then have "prefixSumLoop t (int i) sm = prefixSumLoop t (int (i - lowbit i)) (sm + fw_node as i)"
      using False by (simp add: prefixSumLoop.simps [of t "int i"] nxt)
    also have "\<dots> = Inr (sm + fw_node as i + of_nat (psum as (i - lowbit i)))"
      using lb less.prems by (intro less.IH) auto
    finally show ?thesis by (simp add: fw_node_def)
  qed
qed

lemma fwTreePrefixSum_eq:
  assumes "fw_rep ft as"
  shows "fwTreePrefixSum (Some ft) idx = Inr (of_nat (psum as (nat (idx + 1))))"
proof -
  note rep = fw_rep_length [OF assms]
  consider "idx < 0" | "0 \<le> idx" "idx < int (length as)" | "int (length as) \<le> idx" by linarith
  then show ?thesis
  proof cases
    case 1
    then show ?thesis by (simp add: fwTreePrefixSum_def)
  next
    case 2
    then have "fwTreePrefixSum (Some ft) idx = prefixSumLoop (ft_tree ft) (int (nat (idx + 1))) 0"
      using rep by (simp add: fwTreePrefixSum_def Let_def)
    also have "\<dots> = Inr (0 + of_nat (psum as (nat (idx + 1))))"
      using 2 rep fw_rep_node [OF assms] by (intro prefixSumLoop_eq) auto
    finally show ?thesis by simp
  next
    case 3
    then have "fwTreePrefixSum (Some ft) idx = prefixSumLoop (ft_tree ft) (int (length as)) 0"
      using rep(2,4) by (simp add: fwTreePrefixSum_def Let_def)
    also have "\<dots> = Inr (0 + of_nat (psum as (length as)))"
      using rep fw_rep_node [OF assms] by (intro prefixSumLoop_eq) auto
    finally show ?thesis using 3 by (simp add: psum_all)
  qed
qed

subsection \<open>Updates\<close>

lemma of_nat_psum_update:
  "p < length as \<Longrightarrow>
   (of_nat (psum (as[p := v]) n) :: u64) =
     of_nat (psum as n) + (if p < n then of_nat v - of_nat (as ! p) else 0)"
proof -
  assume "p < length as"
  then have "(of_int (int (psum (as[p := v]) n)) :: u64) =
    of_int (if p < n then int (psum as n) + int v - int (as ! p) else int (psum as n))"
    by (simp only: psum_update)
  then show ?thesis by (simp split: if_splits)
qed

lemma fw_node_update:
  assumes "p < length as"
  shows "fw_node (as[p := v]) i =
    fw_node as i + (if covers i p then of_nat v - of_nat (as ! p) else 0)"
  using assms lowbit_le [of i] by (auto simp: fw_node_def of_nat_psum_update covers_def)

lemma updateLoop_eq:
  assumes p: "p < length as"
    and guard: "\<And>j. delta <s 0 \<Longrightarrow> covers j p \<Longrightarrow> j \<le> length as \<Longrightarrow> - delta \<le> fw_node as j"
    and delta: "delta = of_nat v - of_nat (as ! p)"
    and "length t = Suc (length as)" "covers i p"
    and "\<forall>j. 0 < j \<and> j \<le> length as \<longrightarrow>
      t ! j = (if j < i then fw_node (as[p := v]) j else fw_node as j)"
  shows "\<exists>t'. updateLoop t (int (length as)) (int i) delta = Inr t' \<and> length t' = Suc (length as) \<and>
    (\<forall>j. 0 < j \<and> j \<le> length as \<longrightarrow> t' ! j = fw_node (as[p := v]) j)"
  using assms(4-)
proof (induction "Suc (length as) - i" arbitrary: i t rule: less_induct)
  case less
  show ?case
  proof (cases "i \<le> length as")
    case False
    with less.prems show ?thesis by (intro exI [of _ t]) (auto simp: updateLoop.simps)
  next
    case True
    let ?t' = "t[i := fw_node as i + delta]"
    from less.prems have "0 < i" by (simp add: covers_def)
    then have "0 < lowbit i" by (rule lowbit_pos)
    have nxt: "int i + (int i AND - int i) = int (i + lowbit i)" by (simp add: int_lowbit)
    have "rd t (int i) = Inr (fw_node as i)" using less.prems True \<open>0 < i\<close> by simp
    moreover have "delta <s 0 \<Longrightarrow> - delta \<le> fw_node as i" using guard less.prems True by blast
    moreover have "wr t (int i) (fw_node as i + delta) = Inr ?t'" using less.prems True by simp
    ultimately have step: "updateLoop t (int (length as)) (int i) delta =
      updateLoop ?t' (int (length as)) (int (i + lowbit i)) delta"
      using True \<open>0 < i\<close> by (simp add: updateLoop.simps [of t "int (length as)" "int i"] nxt)
    have "\<exists>t''. updateLoop ?t' (int (length as)) (int (i + lowbit i)) delta = Inr t'' \<and>
      length t'' = Suc (length as) \<and>
      (\<forall>j. 0 < j \<and> j \<le> length as \<longrightarrow> t'' ! j = fw_node (as[p := v]) j)"
    proof (rule less.hyps)
      show "Suc (length as) - (i + lowbit i) < Suc (length as) - i"
        using True \<open>0 < lowbit i\<close> by simp
      show "covers (i + lowbit i) p" using less.prems by (intro covers_next) simp
      show "\<forall>j. 0 < j \<and> j \<le> length as \<longrightarrow>
        ?t' ! j = (if j < i + lowbit i then fw_node (as[p := v]) j else fw_node as j)"
      proof (intro allI impI)
        fix j assume j: "0 < j \<and> j \<le> length as"
        consider "j < i" | "j = i" | "i < j" "j < i + lowbit i" | "i + lowbit i \<le> j" by linarith
        then show "?t' ! j = (if j < i + lowbit i then fw_node (as[p := v]) j else fw_node as j)"
          by cases (use j less.prems True \<open>0 < lowbit i\<close> not_covers_between [of i p j] in
            \<open>auto simp: fw_node_update [OF p] delta nth_list_update\<close>)
      qed
    qed (use less.prems in auto)
    with step show ?thesis by simp
  qed
qed

lemma psum_word_diff:
  "m \<le> n \<Longrightarrow> (of_nat (psum as n) - of_nat (psum as m) :: u64) = of_nat (psum as n - psum as m)"
  by (simp add: of_nat_diff psum_mono)

lemma unat_psum_diff:
  "sum_list as < 2 ^ 64 \<Longrightarrow> unat (of_nat (psum as n - psum as m) :: u64) = psum as n - psum as m"
  using psum_le_all [of as n] by (simp add: unat_of_nat)

lemma nth_le_node:
  assumes "sum_list as < 2 ^ 64" "covers j p" "j \<le> length as"
  shows "as ! p \<le> unat (fw_node as j)"
proof -
  from assms have c: "j - lowbit j \<le> p" "Suc p \<le> j" "p < length as" by (auto simp: covers_def)
  then have "psum as (j - lowbit j) + as ! p \<le> psum as j"
    using psum_mono [of "j - lowbit j" p as] psum_mono [of "Suc p" j as] by (simp add: psum_Suc)
  then show ?thesis
    unfolding fw_node_def psum_word_diff [OF diff_le_self] unat_psum_diff [OF assms(1)] by simp
qed

lemma unat_minus_neg: "delta <s 0 \<Longrightarrow> unat (- delta) = nat (- sint delta)" for delta :: u64
proof -
  assume neg: "delta <s 0"
  define d where "d = - sint delta"
  have "- delta = word_of_int d" by (simp add: d_def)
  moreover have "0 \<le> d" "d < 2 ^ 64"
    using neg sint_ge [of delta] by (simp_all add: d_def word_sless_alt)
  ultimately have "uint (- delta) = d" by (simp add: uint_word_of_int)
  then show ?thesis by (simp only: unat_eq_nat_uint d_def)
qed

lemma sum_list_update_int:
  "p < length as \<Longrightarrow> int (sum_list (as[p := v])) = int (sum_list as) + int v - int (as ! p)"
  using psum_update [of p as v "length as"] by (simp add: psum_all)

lemma fwTreeUpdate_rep:
  assumes rep: "fw_rep ft as" and p: "p < length as"
    and nonneg: "0 \<le> int (as ! p) + sint delta"
    and fits: "int (sum_list as) + sint delta + 1 < 2 ^ 64"
  shows "\<exists>ft'. fwTreeUpdate (Some ft) (int p) delta = Inr (Some ft') \<and>
    fw_rep ft' (as[p := nat (int (as ! p) + sint delta)]) \<and> ft_size_bits ft' = ft_size_bits ft"
proof -
  note len = fw_rep_length [OF rep]
  define v where "v = nat (int (as ! p) + sint delta)"
  with nonneg have v: "int v = int (as ! p) + sint delta" by simp
  have "(of_int (int v) :: u64) = of_int (int (as ! p) + sint delta)" by (simp only: v)
  then have delta: "delta = of_nat v - of_nat (as ! p)" by simp
  have guard: "- delta \<le> fw_node as j" if "delta <s 0" "covers j p" "j \<le> length as" for j
    using that nth_le_node [OF len(6) that(2,3)] nonneg
    by (simp add: word_le_nat_alt unat_minus_neg)
  have init: "\<forall>j. 0 < j \<and> j \<le> length as \<longrightarrow>
    ft_tree ft ! j = (if j < Suc p then fw_node (as[p := v]) j else fw_node as j)"
    using fw_rep_node [OF rep] by (auto simp: fw_node_update [OF p] not_covers_before)
  obtain t' where t': "updateLoop (ft_tree ft) (int (length as)) (int (Suc p)) delta = Inr t'"
    "length t' = Suc (length as)"
    "\<forall>j. 0 < j \<and> j \<le> length as \<longrightarrow> t' ! j = fw_node (as[p := v]) j"
    using updateLoop_eq [OF p guard delta len(1) covers_Suc] init by auto
  have tot: "int (sum_list (as[p := v])) = int (sum_list as) + sint delta"
    using sum_list_update_int [OF p, of v] v by simp
  then have "(of_int (int (sum_list (as[p := v]))) :: u64) = of_int (int (sum_list as) + sint delta)"
    by simp
  then have "ft_total ft + delta = of_nat (sum_list (as[p := v]))" using len(5) by simp
  moreover have "Suc (sum_list (as[p := v])) < 2 ^ 64" using tot fits by simp
  moreover have "fwTreeUpdate (Some ft) (int p) delta =
    Inr (Some (ft\<lparr>ft_total := ft_total ft + delta, ft_tree := t'\<rparr>))"
    using p t'(1) len(2) by (simp add: fwTreeUpdate_def add.commute)
  ultimately show ?thesis
    using t' len rep by (simp add: fw_rep_def v_def [symmetric])
qed

subsection \<open>Searching\<close>

lemma fw_node_block:
  assumes "2 ^ Suc k dvd r"
  shows "fw_node as (r + 2 ^ k) = of_nat (psum as (r + 2 ^ k) - psum as r)"
proof -
  from assms obtain q where "r = 2 ^ Suc k * q" by (rule dvdE)
  then have "r + 2 ^ k = 2 ^ k * Suc (2 * q)" by simp
  then have "lowbit (r + 2 ^ k) = 2 ^ k" by (simp only: lowbit_pow_mult lowbit_odd mult_1_right)
  then have "r + 2 ^ k - lowbit (r + 2 ^ k) = r" by simp
  then show ?thesis unfolding fw_node_def by (metis diff_le_self psum_word_diff)
qed

lemma of_nat_less_u64:
  "a < 2 ^ 64 \<Longrightarrow> b < 2 ^ 64 \<Longrightarrow> (of_nat a :: u64) < of_nat b \<longleftrightarrow> a < b"
  by (simp add: word_less_nat_alt unat_of_nat)

lemma findIndexLoop_step:
  "0 < i \<Longrightarrow> rd t (res + i) = Inr v \<Longrightarrow>
   findIndexLoop t i res target =
     (if v < target then findIndexLoop t (drop_bit 1 i) (res + i) (target - v)
      else findIndexLoop t (drop_bit 1 i) res target)"
  by (subst findIndexLoop.simps) (simp add: Let_def)

lemma findIndexLoop_0: "findIndexLoop t 0 res target = Inr res"
  by (simp add: findIndexLoop.simps)

text \<open>One step of the search, for a tree that represents \<open>as\<close>.\<close>

lemma findIndexLoop_block:
  assumes t: "length t = Suc (length as)" "\<And>j. 0 < j \<Longrightarrow> j \<le> length as \<Longrightarrow> t ! j = fw_node as j"
    and fits: "sum_list as < 2 ^ 64" and r: "2 ^ Suc k dvd r" "r + 2 ^ k \<le> length as"
    and T: "psum as r < T" "T \<le> sum_list as"
  shows "findIndexLoop t (2 ^ k) (int r) (of_nat (T - psum as r)) =
    (if psum as (r + 2 ^ k) < T
     then findIndexLoop t (drop_bit 1 (2 ^ k)) (int (r + 2 ^ k)) (of_nat (T - psum as (r + 2 ^ k)))
     else findIndexLoop t (drop_bit 1 (2 ^ k)) (int r) (of_nat (T - psum as r)))"
proof -
  let ?c = "r + 2 ^ k"
  have "rd t (int ?c) = Inr (fw_node as ?c)" using t r by (subst rd_nat) auto
  then have rdt: "rd t (int r + 2 ^ k) = Inr (of_nat (psum as ?c - psum as r))"
    using fw_node_block [OF r(1)] by simp
  have "(of_nat (psum as ?c - psum as r) :: u64) < of_nat (T - psum as r) \<longleftrightarrow>
    psum as ?c - psum as r < T - psum as r"
    using fits T psum_le_all [of as ?c] by (intro of_nat_less_u64) linarith+
  also have "\<dots> \<longleftrightarrow> psum as ?c < T" using T psum_mono [of r ?c as] by linarith
  finally have cmp: "(of_nat (psum as ?c - psum as r) :: u64) < of_nat (T - psum as r) \<longleftrightarrow> psum as ?c < T" .
  have "(of_nat (T - psum as r) - of_nat (psum as ?c - psum as r) :: u64) = of_nat (T - psum as ?c)"
    if "psum as ?c < T"
  proof -
    have "T - psum as r = (psum as ?c - psum as r) + (T - psum as ?c)"
      using that psum_mono [of r ?c as] by simp
    then show ?thesis by (metis add_diff_cancel_left' of_nat_add)
  qed
  then show ?thesis using findIndexLoop_step [OF _ rdt] cmp by simp
qed

lemma findIndexLoop_eq:
  assumes t: "length t = Suc (length as)" "\<And>j. 0 < j \<Longrightarrow> j \<le> length as \<Longrightarrow> t ! j = fw_node as j"
    and fits: "sum_list as < 2 ^ 64" and T: "T \<le> sum_list as"
  shows "2 ^ Suc k dvd r \<Longrightarrow> r + 2 ^ Suc k \<le> length as \<Longrightarrow> psum as r < T \<Longrightarrow>
    T \<le> psum as (r + 2 ^ Suc k) \<Longrightarrow>
    \<exists>q. findIndexLoop t (2 ^ k) (int r) (of_nat (T - psum as r)) = Inr (int q) \<and>
      q < length as \<and> psum as q < T \<and> T \<le> psum as (Suc q)"
proof (induction k arbitrary: r)
  case 0
  have "findIndexLoop t (2 ^ 0) (int r) (of_nat (T - psum as r)) =
    Inr (int (if psum as (Suc r) < T then Suc r else r))"
    using 0 T by (subst findIndexLoop_block [OF t fits]) (simp_all add: findIndexLoop_0)
  with 0 show ?case by (intro exI [of _ "if psum as (Suc r) < T then Suc r else r"]) auto
next
  case (Suc k)
  let ?c = "r + 2 ^ Suc k"
  have half: "drop_bit 1 (2 ^ Suc k :: int) = 2 ^ k" by (simp add: drop_bit_eq_div)
  have dvd: "2 ^ Suc k dvd r" "2 ^ Suc k dvd ?c"
    using Suc.prems(1) dvd_trans [OF le_imp_power_dvd [of "Suc k" "Suc (Suc k)" "2::nat"]] by auto
  have step: "findIndexLoop t (2 ^ Suc k) (int r) (of_nat (T - psum as r)) =
    (if psum as ?c < T then findIndexLoop t (2 ^ k) (int ?c) (of_nat (T - psum as ?c))
     else findIndexLoop t (2 ^ k) (int r) (of_nat (T - psum as r)))"
    unfolding half [symmetric] using Suc.prems T by (intro findIndexLoop_block [OF t fits]) auto
  show ?case
  proof (cases "psum as ?c < T")
    case True
    then show ?thesis unfolding step if_P [OF True]
      using Suc.prems dvd by (intro Suc.IH) (auto simp: add.assoc)
  next
    case False
    then show ?thesis unfolding step if_not_P [OF False]
      using Suc.prems dvd by (intro Suc.IH) auto
  qed
qed

lemma fwTreeFindIndex_eq:
  assumes rep: "fw_rep ft as" and T: "0 < T" "T \<le> sum_list as"
  shows "\<exists>q. fwTreeFindIndex ft (of_nat T) = Inr (int q) \<and>
    q < length as \<and> psum as q < T \<and> T \<le> psum as (Suc q)"
proof -
  note len = fw_rep_length [OF rep]
  let ?b = "ft_size_bits ft" and ?t = "ft_tree ft"
  have nz: "\<not> (of_nat T :: u64) \<le> 0"
    using T len(6) of_nat_less_u64 [of 0 T] by (simp add: not_le)
  have all: "psum as (2 ^ ?b) = sum_list as" using len(3) by (simp add: psum_all)
  have "fwTreeFindIndex ft (of_nat T) = findIndexLoop ?t (2 ^ ?b) (int 0) (of_nat (T - psum as 0))"
    using nz by (simp add: fwTreeFindIndex_def push_bit_eq_mult)
  also have "\<dots> = findIndexLoop ?t (drop_bit 1 (2 ^ ?b)) (int 0) (of_nat (T - psum as 0))"
    using T len all fw_rep_node [OF rep] by (subst findIndexLoop_block [of _ as]) auto
  finally have start: "fwTreeFindIndex ft (of_nat T) =
    findIndexLoop ?t (drop_bit 1 (2 ^ ?b)) (int 0) (of_nat (T - psum as 0))" .
  show ?thesis
  proof (cases ?b)
    case 0
    then show ?thesis
      using start T len(3) by (auto simp: findIndexLoop_0 psum_all intro!: exI [of _ 0])
  next
    case (Suc k)
    then have "drop_bit 1 (2 ^ ?b :: int) = 2 ^ k" by (simp add: drop_bit_eq_div)
    with start show ?thesis
      using findIndexLoop_eq [OF len(1) fw_rep_node [OF rep] len(6) T(2), of k 0] T len(3) all Suc
      by simp
  qed
qed

text \<open>The least index from \<open>p\<close> on with a count that is not 0, or -1.\<close>

definition next_nonempty :: "nat list \<Rightarrow> nat \<Rightarrow> int" where
  "next_nonempty as p =
     (case List.find (\<lambda>j. as ! j \<noteq> 0) [p..<length as] of None \<Rightarrow> - 1 | Some j \<Rightarrow> int j)"

lemma next_nonempty_unique:
  assumes "p \<le> q" "q < length as" "as ! q \<noteq> 0" "\<And>j. p \<le> j \<Longrightarrow> j < q \<Longrightarrow> as ! j = 0"
  shows "next_nonempty as p = int q"
proof -
  have "List.find (\<lambda>j. as ! j \<noteq> 0) [p..<length as] = Some q"
    unfolding find_Some_iff using assms by (intro exI [of _ "q - p"]) auto
  then show ?thesis by (simp add: next_nonempty_def)
qed

lemma next_nonempty_none:
  assumes "\<And>j. p \<le> j \<Longrightarrow> j < length as \<Longrightarrow> as ! j = 0"
  shows "next_nonempty as p = - 1"
proof -
  have "List.find (\<lambda>j. as ! j \<noteq> 0) [p..<length as] = None"
    unfolding find_None_iff using assms by auto
  then show ?thesis by (simp add: next_nonempty_def)
qed

lemma psum_eq_zeros:
  assumes "psum as m = psum as n" "m \<le> j" "j < n" "j < length as"
  shows "as ! j = 0"
  using assms psum_mono [of m j as] psum_mono [of "Suc j" n as] by (simp add: psum_Suc)

lemma find_is_next_nonempty:
  assumes "psum as q < psum as p + 1" "psum as p + 1 \<le> psum as (Suc q)" "q < length as"
  shows "next_nonempty as p = int q"
proof (rule next_nonempty_unique)
  show "p \<le> q" using assms psum_mono [of "Suc q" p as] by (cases "p \<le> q") auto
  then have eq: "psum as q = psum as p" using assms psum_mono [of p q as] by simp
  show "as ! q \<noteq> 0" using assms eq by (simp add: psum_Suc)
  show "as ! j = 0" if "p \<le> j" "j < q" for j
    using psum_eq_zeros [OF eq [symmetric] that] that assms by simp
qed (use assms in simp)

lemma fwTreeFindNextNonEmpty_eq:
  assumes rep: "fw_rep ft as" and p: "p < length as"
  shows "fwTreeFindNextNonEmpty (Some ft) (int p) = Inr (next_nonempty as (Suc p))"
proof -
  note len = fw_rep_length [OF rep]
  let ?s = "psum as (Suc p)"
  have nx: "nat (int p + 1) = Suc p" by simp
  have "(of_nat ?s + 1 :: u64) = of_nat (Suc ?s)" by simp
  moreover have "\<not> (of_nat (sum_list as) :: u64) < of_nat (Suc ?s) \<longleftrightarrow> Suc ?s \<le> sum_list as"
    using psum_le_all [of as "Suc p"] len(6,7) by (subst of_nat_less_u64) auto
  ultimately have unf: "fwTreeFindNextNonEmpty (Some ft) (int p) =
    (if Suc ?s \<le> sum_list as then fwTreeFindIndex ft (of_nat (Suc ?s)) else Inr (- 1))"
    using p len(2,5) by (simp add: fwTreeFindNextNonEmpty_def fwTreePrefixSum_eq [OF rep] nx not_less
        del: of_nat_Suc of_nat_less_iff)
  show ?thesis
  proof (cases "Suc ?s \<le> sum_list as")
    case True
    then obtain q where "fwTreeFindIndex ft (of_nat (Suc ?s)) = Inr (int q)" "q < length as"
      "psum as q < Suc ?s" "Suc ?s \<le> psum as (Suc q)"
      using fwTreeFindIndex_eq [OF rep, of "Suc ?s"] by auto
    with True unf show ?thesis by (simp add: find_is_next_nonempty)
  next
    case False
    then have "?s = psum as (length as)" using psum_le_all [of as "Suc p"] by (simp add: psum_all)
    then have "next_nonempty as (Suc p) = - 1"
      using psum_eq_zeros [of as "Suc p" "length as"] by (intro next_nonempty_none) auto
    with False unf show ?thesis by simp
  qed
qed

lemma fwTreeFindFirstNonEmpty_eq:
  assumes rep: "fw_rep ft as" and "0 < sum_list as"
  shows "fwTreeFindFirstNonEmpty ft = Inr (next_nonempty as 0)"
proof -
  obtain q where "fwTreeFindIndex ft (of_nat 1) = Inr (int q)" "q < length as"
    "psum as q < 1" "1 \<le> psum as (Suc q)"
    using fwTreeFindIndex_eq [OF rep, of 1] assms(2) by auto
  then show ?thesis by (simp add: fwTreeFindFirstNonEmpty_def find_is_next_nonempty)
qed

text \<open>
  On an empty tree the search for the first key leaves the node array: the root (node \<open>size\<close>) is
  0, so the search moves past it and reads node \<open>size + size / 2\<close>.
\<close>

lemma fwTreeFindIndex_empty:
  assumes rep: "fw_rep ft as" and "sum_list as = 0" and b: "0 < ft_size_bits ft"
  shows "fwTreeFindIndex ft 1 = Inl OutOfBounds"
proof -
  note len = fw_rep_length [OF rep]
  let ?n = "length as" and ?b = "ft_size_bits ft"
  obtain k where k: "?b = Suc k" using b by (cases ?b) auto
  have "psum as j = 0" for j using psum_le_all [of as j] assms(2) by simp
  then have "ft_tree ft ! ?n = 0" using fw_rep_node [OF rep, of ?n] len(4) by (simp add: fw_node_def)
  then have "rd (ft_tree ft) (0 + 2 ^ ?b) = Inr 0" using len(1,3) rd_nat [of ?n "ft_tree ft"] by simp
  then have "findIndexLoop (ft_tree ft) (2 ^ ?b) 0 1 =
    findIndexLoop (ft_tree ft) (2 ^ k) (2 ^ ?b) 1"
    using findIndexLoop_step [of "2 ^ ?b" "ft_tree ft" 0 0 1] k by (simp add: drop_bit_eq_div)
  moreover have "rd (ft_tree ft) (2 ^ ?b + 2 ^ k) = Inl OutOfBounds"
    using len(1,3) k by (simp add: rd_def not_less)
  ultimately show ?thesis
    by (simp add: fwTreeFindIndex_def push_bit_eq_mult findIndexLoop.simps [of _ "2 ^ k"] Let_def)
qed

section \<open>The interface the clients use\<close>

text \<open>
  What a store of cumulative counts promises: \<open>cnt_rep t as\<close> is its abstraction to the list of
  counts; an update changes one count, a search by key number finds the index that holds the
  key, and the first and next operations step over the indexes with a count.
\<close>

text \<open>The loop of a client that visits indexes from \<open>i\<close> on until \<open>nxt\<close> answers -1.\<close>

fun walk_from :: "(int \<Rightarrow> int result) \<Rightarrow> nat \<Rightarrow> int \<Rightarrow> int list result" where
  "walk_from nxt 0 i = Inl Diverges"
| "walk_from nxt (Suc n) i =
     (if i = - 1 then Inr []
      else res_bind (nxt i) (\<lambda>j. res_bind (walk_from nxt n j) (\<lambda>l. Inr (i # l))))"

locale cumulative_counts =
  fixes cnt_rep :: "'t \<Rightarrow> nat list \<Rightarrow> bool"
    and upd :: "'t \<Rightarrow> int \<Rightarrow> u64 \<Rightarrow> 't result"
    and find_key :: "'t \<Rightarrow> u64 \<Rightarrow> int result"
    and first_ne :: "'t \<Rightarrow> int result"
    and next_ne :: "'t \<Rightarrow> int \<Rightarrow> int result"
  assumes upd_rep: "cnt_rep t as \<Longrightarrow> p < length as \<Longrightarrow> 0 \<le> int (as ! p) + sint d \<Longrightarrow>
      int (sum_list as) + sint d + 1 < 2 ^ 64 \<Longrightarrow>
      \<exists>t'. upd t (int p) d = Inr t' \<and> cnt_rep t' (as[p := nat (int (as ! p) + sint d)])"
    and find_rep: "cnt_rep t as \<Longrightarrow> 0 < T \<Longrightarrow> T \<le> sum_list as \<Longrightarrow>
      \<exists>q. find_key t (of_nat T) = Inr (int q) \<and> q < length as \<and> psum as q < T \<and> T \<le> psum as (Suc q)"
    and first_rep: "cnt_rep t as \<Longrightarrow> 0 < sum_list as \<Longrightarrow> first_ne t = Inr (next_nonempty as 0)"
    and next_rep: "cnt_rep t as \<Longrightarrow> p < length as \<Longrightarrow>
      next_ne t (int p) = Inr (next_nonempty as (Suc p))"
begin

lemma walk_from_next:
  assumes "cnt_rep t as" "p \<le> length as" "length as - p < n"
  shows "walk_from (next_ne t) n (next_nonempty as p) =
    Inr (map int (filter (\<lambda>j. as ! j \<noteq> 0) [p..<length as]))"
  using assms(2,3)
proof (induction n arbitrary: p)
  case 0
  then show ?case by simp
next
  case (Suc n)
  show ?case
  proof (cases "List.find (\<lambda>j. as ! j \<noteq> 0) [p..<length as]")
    case None
    then have "next_nonempty as p = - 1" by (simp add: next_nonempty_def)
    moreover have "filter (\<lambda>j. as ! j \<noteq> 0) [p..<length as] = []"
      using None by (auto simp: find_None_iff filter_empty_conv)
    ultimately show ?thesis by simp
  next
    case (Some q)
    then obtain i where i: "i < length as - p" "q = p + i" "as ! q \<noteq> 0"
      "\<forall>j<i. as ! (p + j) = 0"
      by (auto simp: find_Some_iff)
    then have q: "q < length as" "next_nonempty as p = int q"
      using Some by (auto simp: next_nonempty_def)
    have "[p..<length as] = [p..<q] @ q # [Suc q..<length as]"
      using i q(1) upt_add_eq_append [of p q "length as - q"] by (simp add: upt_conv_Cons)
    moreover have "filter (\<lambda>j. as ! j \<noteq> 0) [p..<q] = []"
      using i by (auto simp: filter_empty_conv) (metis le_iff_add nat_add_left_cancel_less)
    moreover have "walk_from (next_ne t) n (next_nonempty as (Suc q)) =
      Inr (map int (filter (\<lambda>j. as ! j \<noteq> 0) [Suc q..<length as]))"
      using Suc.prems i by (intro Suc.IH) auto
    ultimately show ?thesis
      using q i next_rep [OF assms(1) q(1)] by simp
  qed
qed

lemma walk_all:
  assumes "cnt_rep t as" "0 < sum_list as"
  shows "res_bind (first_ne t) (walk_from (next_ne t) (Suc (length as))) =
    Inr (map int (filter (\<lambda>j. as ! j \<noteq> 0) [0..<length as]))"
  using walk_from_next [OF assms(1), of 0 "Suc (length as)"] first_rep [OF assms] by simp

end

interpretation fwc: cumulative_counts
  "\<lambda>ftp as. \<exists>ft. ftp = Some ft \<and> fw_rep ft as" fwTreeUpdate
  "\<lambda>ftp T. fwTreeFindIndex (the ftp) T" "\<lambda>ftp. fwTreeFindFirstNonEmpty (the ftp)"
  fwTreeFindNextNonEmpty
proof (unfold_locales, goal_cases)
  case (1 t as p d)
  then show ?case using fwTreeUpdate_rep by fastforce
next
  case (2 t as T)
  then show ?case using fwTreeFindIndex_eq by fastforce
next
  case (3 t as)
  then show ?case using fwTreeFindFirstNonEmpty_eq by fastforce
next
  case (4 t as p)
  then show ?case using fwTreeFindNextNonEmpty_eq by fastforce
qed

section \<open>Properties\<close>

text \<open>
  C8: Updating the tree at an index keeps it a Fenwick tree of the updated counts, without
  tripping its assertion or leaving the node array, and afterwards every prefix sum query
  (also below 0 and past the end, which clamp) answers the sum of the updated counts.
\<close>

theorem fenwick_update_prefix_sums:
  assumes "fw_rep ft as" "p < length as" "0 \<le> int (as ! p) + sint delta"
    "int (sum_list as) + sint delta + 1 < 2 ^ 64"
  shows "\<exists>ft'. fwTreeUpdate (Some ft) (int p) delta = Inr (Some ft') \<and>
    fw_rep ft' (as[p := nat (int (as ! p) + sint delta)]) \<and>
    (\<forall>idx. fwTreePrefixSum (Some ft') idx =
       Inr (of_nat (psum (as[p := nat (int (as ! p) + sint delta)]) (nat (idx + 1)))))"
  using fwTreeUpdate_rep [OF assms] fwTreePrefixSum_eq by blast

theorem fenwick_update_prefix_sums_witness:
  "\<exists>ft'. fwTreeUpdate (Some (fwTreeCreate 3)) (int 2) 5 = Inr (Some ft') \<and>
    fw_rep ft' [0, 0, 5, 0, 0, 0, 0, 0] \<and> fwTreePrefixSum (Some ft') 1 = Inr 0 \<and>
    fwTreePrefixSum (Some ft') 2 = Inr 5 \<and> fwTreePrefixSum (Some ft') 100 = Inr 5"
  using fenwick_update_prefix_sums [OF fw_rep_create [of 3], of 2 5]
  by (auto simp: psum_def eval_nat_numeral)

text \<open>
  C2: Searching for the key number \<open>T\<close> (from 1 to the total) finds the one index whose keys
  contain it: the counts before the index sum to less than \<open>T\<close>, the counts up to and including
  it reach \<open>T\<close>.
\<close>

theorem fenwick_find_index:
  assumes "fw_rep ft as" "0 < T" "T \<le> sum_list as"
  shows "\<exists>q. fwTreeFindIndex ft (of_nat T) = Inr (int q) \<and> q < length as \<and>
    psum as q < T \<and> T \<le> psum as q + as ! q"
  using fwTreeFindIndex_eq [OF assms] by (auto simp: psum_Suc)

theorem fenwick_find_index_witness:
  "\<exists>ft q. fw_rep ft [0, 2] \<and> fwTreeFindIndex ft 2 = Inr (int q) \<and> q = 1"
proof -
  obtain ft where ft: "fw_rep ft [0, 2]"
    using fwTreeUpdate_rep [OF fw_rep_create [of 1], of 1 2] by (auto simp: eval_nat_numeral)
  then obtain q where "fwTreeFindIndex ft (of_nat 2) = Inr (int q)" "q < 2"
    "psum [0, 2] q < 2" "2 \<le> psum [0, 2] q + [0, 2] ! q"
    using fenwick_find_index [OF ft, of 2] by (auto simp: eval_nat_numeral)
  moreover from this have "q = 1" by (cases q) auto
  ultimately show ?thesis using ft by auto
qed

text \<open>
  C3: Visiting the indexes from \<open>fwTreeFindFirstNonEmpty\<close> on by \<open>fwTreeFindNextNonEmpty\<close> until
  it answers -1 ends after at most \<open>size + 1\<close> calls, and visits exactly the indexes with a
  count, in increasing order.
\<close>

theorem fenwick_walk_nonempty:
  assumes "fw_rep ft as" "0 < sum_list as"
  shows "res_bind (fwTreeFindFirstNonEmpty ft)
      (walk_from (fwTreeFindNextNonEmpty (Some ft)) (Suc (length as))) =
    Inr (map int (filter (\<lambda>j. as ! j \<noteq> 0) [0..<length as]))"
  using fwc.walk_all [of "Some ft" as] assms by simp

theorem fenwick_walk_nonempty_witness:
  "\<exists>ft. fw_rep ft [0, 2] \<and> res_bind (fwTreeFindFirstNonEmpty ft)
     (walk_from (fwTreeFindNextNonEmpty (Some ft)) 3) = Inr [1]"
proof -
  obtain ft where ft: "fw_rep ft [0, 2]"
    using fwTreeUpdate_rep [OF fw_rep_create [of 1], of 1 2] by (auto simp: eval_nat_numeral)
  have "filter (\<lambda>j. [0, 2 :: nat] ! j \<noteq> 0) [0..<length [0, 2 :: nat]] = [1]"
    by (simp add: eval_nat_numeral)
  then have "res_bind (fwTreeFindFirstNonEmpty ft)
     (walk_from (fwTreeFindNextNonEmpty (Some ft)) 3) = Inr (map int [1])"
    using fenwick_walk_nonempty [OF ft] by (simp only:) (simp add: eval_nat_numeral)
  with ft show ?thesis by auto
qed

text \<open>
  C4: On a tree whose counts are all 0 a search for key 1 reads outside the node array, although
  the comment of \<open>fwTreeFindIndex\<close> says that it returns 0 when the tree is empty.
\<close>

theorem fenwick_find_index_empty:
  assumes "fw_rep ft as" "sum_list as = 0" "0 < ft_size_bits ft"
  shows "fwTreeFindIndex ft 1 = Inl OutOfBounds"
  using assms by (rule fwTreeFindIndex_empty)

theorem fenwick_find_index_empty_witness: "fwTreeFindIndex (fwTreeCreate 4) 1 = Inl OutOfBounds"
  using fenwick_find_index_empty [OF fw_rep_create [of 4]]
  by (simp add: sum_list_replicate fwTreeCreate_def Let_def)

end
