(* ===== verification/Intset.thy ===== *)
theory Intset
  imports Prelude
begin

text \<open>
  The sorted integer arrays of \<^verbatim>\<open>src/redis-stable/src/intset.c\<close>, at the level of bytes. The header
  words and the elements are kept little endian whatever the host (\<^verbatim>\<open>intrev32ifbe\<close>,
  \<^verbatim>\<open>memrev64ifbe\<close>), so a stored element is its little endian byte string. An \<^verbatim>\<open>int64_t\<close> is an
  \<^typ>\<open>int\<close>; stores truncate to the width of the encoding. The 32 bit arithmetic of positions and
  of the byte count in \<^verbatim>\<open>intsetMoveTail\<close> is kept at its width.
\<close>

section \<open>The structure and its operations\<close>

record intset =
  is_encoding :: u32
  is_length :: u32
  is_contents :: buffer

abbreviation INTSET_ENC_INT16 :: u32 where "INTSET_ENC_INT16 \<equiv> 2"
abbreviation INTSET_ENC_INT32 :: u32 where "INTSET_ENC_INT32 \<equiv> 4"
abbreviation INTSET_ENC_INT64 :: u32 where "INTSET_ENC_INT64 \<equiv> 8"

definition intsetValueEncoding :: "int \<Rightarrow> u32" where
  "intsetValueEncoding v =
     (if v < - (2 ^ 31) \<or> 2 ^ 31 - 1 < v then INTSET_ENC_INT64
      else if v < - (2 ^ 15) \<or> 2 ^ 15 - 1 < v then INTSET_ENC_INT32
      else INTSET_ENC_INT16)"

definition intsetGetEncoded :: "intset \<Rightarrow> int \<Rightarrow> u32 \<Rightarrow> int result" where
  "intsetGetEncoded is pos enc =
     (if enc = INTSET_ENC_INT64 then res_bind (rdn (is_contents is) (8 * pos) 8) (\<lambda>b. Inr (le_sval b))
      else if enc = INTSET_ENC_INT32 then res_bind (rdn (is_contents is) (4 * pos) 4) (\<lambda>b. Inr (le_sval b))
      else res_bind (rdn (is_contents is) (2 * pos) 2) (\<lambda>b. Inr (le_sval b)))"

definition intsetGetAt :: "intset \<Rightarrow> int \<Rightarrow> int result" where
  "intsetGetAt is pos = intsetGetEncoded is pos (is_encoding is)"

definition intsetSet :: "intset \<Rightarrow> int \<Rightarrow> int \<Rightarrow> intset result" where
  "intsetSet is pos value =
     res_bind
       (if is_encoding is = INTSET_ENC_INT64 then wrn (is_contents is) (8 * pos) (le_bytes 8 value)
        else if is_encoding is = INTSET_ENC_INT32 then wrn (is_contents is) (4 * pos) (le_bytes 4 value)
        else wrn (is_contents is) (2 * pos) (le_bytes 2 value))
       (\<lambda>c. Inr (is\<lparr>is_contents := c\<rparr>))"

definition intsetNew :: intset where
  "intsetNew = \<lparr>is_encoding = INTSET_ENC_INT16, is_length = 0, is_contents = []\<rparr>"

text \<open>\<^verbatim>\<open>sizeof(intset)\<close> is 8, \<^verbatim>\<open>SIZE_MAX\<close> is \<open>2^64 - 1\<close>.\<close>

definition intsetAllocSize :: "intset \<Rightarrow> u64 result" where
  "intsetAllocSize is =
     (let size = ucast (is_length is) * ucast (is_encoding is) :: u64
      in res_bind (res_assert (size \<le> (- 1) - 8)) (\<lambda>_. Inr (8 + size)))"

definition intsetResize :: "(nat \<Rightarrow> byte) \<Rightarrow> intset \<Rightarrow> u32 \<Rightarrow> intset result" where
  "intsetResize junk is len =
     (let size = ucast len * ucast (is_encoding is) :: u64
      in res_bind (res_assert (size \<le> (- 1) - 8)) (\<lambda>_.
           Inr (is\<lparr>is_contents := zrealloc junk (is_contents is) (unat size)\<rparr>)))"

text \<open>
  The binary search loop. \<^verbatim>\<open>min\<close> and \<^verbatim>\<open>max\<close> are added as unsigned 32 bit integers. A midpoint
  outside the interval would keep the loop from ending; it is shown not to occur.
\<close>

function searchLoop :: "intset \<Rightarrow> int \<Rightarrow> int \<Rightarrow> int \<Rightarrow> int \<Rightarrow> int \<Rightarrow> (int \<times> int \<times> int) result" where
  "searchLoop is value mn mx mid cur =
     (if mn \<le> mx
      then (let mid' = sint (drop_bit 1 (word_of_int mn + word_of_int mx :: u32))
            in if mid' < mn \<or> mx < mid' then Inl Diverges
               else res_bind (intsetGetAt is mid') (\<lambda>cur'.
                 if cur' < value then searchLoop is value (mid' + 1) mx mid' cur'
                 else if value < cur' then searchLoop is value mn (mid' - 1) mid' cur'
                 else Inr (mn, mid', cur')))
      else Inr (mn, mid, cur))"
  by pat_completeness auto
termination
  by (relation "measure (\<lambda>(is, value, mn, mx, mid, cur). nat (mx - mn + 1))") (auto simp: Let_def)

definition intsetSearch :: "intset \<Rightarrow> int \<Rightarrow> (bool \<times> u32) result" where
  "intsetSearch is value =
     (let mx = sint (is_length is - 1)
      in if is_length is = 0 then Inr (False, 0)
         else res_bind (intsetGetAt is mx) (\<lambda>hi.
           if hi < value then Inr (False, is_length is)
           else res_bind (intsetGetAt is 0) (\<lambda>lo.
             if value < lo then Inr (False, 0)
             else res_bind (searchLoop is value 0 mx (- 1) (- 1)) (\<lambda>(mn, mid, cur).
               if value = cur then Inr (True, word_of_int mid)
               else Inr (False, word_of_int mn)))))"

text \<open>
  The loop \<^verbatim>\<open>while(length--)\<close> of the upgrade, from the last element to the first. The counter is
  an \<^verbatim>\<open>int\<close>: a length from \<open>2^31\<close> on is negative there and the first access is out of bounds.
\<close>

fun upgradeLoop :: "intset \<Rightarrow> u32 \<Rightarrow> int \<Rightarrow> nat \<Rightarrow> intset result" where
  "upgradeLoop is curenc prepend 0 = Inr is"
| "upgradeLoop is curenc prepend (Suc n) =
     res_bind (intsetGetEncoded is (int n) curenc) (\<lambda>v.
     res_bind (intsetSet is (int n + prepend) v) (\<lambda>is'. upgradeLoop is' curenc prepend n))"

definition intsetUpgradeAndAdd :: "(nat \<Rightarrow> byte) \<Rightarrow> intset \<Rightarrow> int \<Rightarrow> intset result" where
  "intsetUpgradeAndAdd junk is value =
     (let curenc = is_encoding is;
          newenc = intsetValueEncoding value;
          len = unat (is_length is);
          prepend = (if value < 0 then 1 else 0)
      in res_bind (intsetResize junk (is\<lparr>is_encoding := newenc\<rparr>) (is_length is + 1)) (\<lambda>is.
         res_bind (if sint (is_length is) < 0 then Inl OutOfBounds
                   else upgradeLoop is curenc prepend len) (\<lambda>is.
         res_bind (if prepend \<noteq> 0 then intsetSet is 0 value
                   else intsetSet is (sint (is_length is)) value) (\<lambda>is.
         Inr (is\<lparr>is_length := is_length is + 1\<rparr>)))))"

text \<open>The byte count of \<^verbatim>\<open>intsetMoveTail\<close> is a 32 bit unsigned product.\<close>

definition intsetMoveTail :: "intset \<Rightarrow> u32 \<Rightarrow> u32 \<Rightarrow> intset result" where
  "intsetMoveTail is from to =
     (let bytes = is_length is - from;
          w = (if is_encoding is = INTSET_ENC_INT64 then 8
               else if is_encoding is = INTSET_ENC_INT32 then 4 else 2);
          n = unat (bytes * of_nat w)
      in res_bind (rdn (is_contents is) (int w * uint from) n) (\<lambda>b.
         res_bind (wrn (is_contents is) (int w * uint to) b) (\<lambda>c.
         Inr (is\<lparr>is_contents := c\<rparr>))))"

definition intsetAdd :: "(nat \<Rightarrow> byte) \<Rightarrow> intset \<Rightarrow> int \<Rightarrow> (intset \<times> bool) result" where
  "intsetAdd junk is value =
     (let valenc = intsetValueEncoding value
      in if valenc > is_encoding is
         then res_bind (intsetUpgradeAndAdd junk is value) (\<lambda>is. Inr (is, True))
         else res_bind (intsetSearch is value) (\<lambda>(found, pos).
           if found then Inr (is, False)
           else res_bind (intsetResize junk is (is_length is + 1)) (\<lambda>is.
                res_bind (if pos < is_length is then intsetMoveTail is pos (pos + 1) else Inr is) (\<lambda>is.
                res_bind (intsetSet is (sint pos) value) (\<lambda>is.
                Inr (is\<lparr>is_length := is_length is + 1\<rparr>, True))))))"

definition intsetRemove :: "(nat \<Rightarrow> byte) \<Rightarrow> intset \<Rightarrow> int \<Rightarrow> (intset \<times> bool) result" where
  "intsetRemove junk is value =
     (let valenc = intsetValueEncoding value
      in if valenc \<le> is_encoding is
         then res_bind (intsetSearch is value) (\<lambda>(found, pos).
           if found
           then (let len = is_length is
                 in res_bind (if pos < len - 1 then intsetMoveTail is (pos + 1) pos else Inr is) (\<lambda>is.
                    res_bind (intsetResize junk is (len - 1)) (\<lambda>is.
                    Inr (is\<lparr>is_length := len - 1\<rparr>, True))))
           else Inr (is, False))
         else Inr (is, False))"

definition intsetFind :: "intset \<Rightarrow> int \<Rightarrow> bool result" where
  "intsetFind is value =
     (if intsetValueEncoding value \<le> is_encoding is
      then res_bind (intsetSearch is value) (\<lambda>(found, pos). Inr found)
      else Inr False)"

text \<open>The random number is an argument.\<close>

definition intsetRandom :: "nat \<Rightarrow> intset \<Rightarrow> int result" where
  "intsetRandom rnd is =
     res_bind (res_assert (is_length is \<noteq> 0)) (\<lambda>_.
       intsetGetAt is (int (rnd mod unat (is_length is))))"

definition intsetMax :: "intset \<Rightarrow> int result" where
  "intsetMax is = intsetGetAt is (sint (is_length is - 1))"

definition intsetMin :: "intset \<Rightarrow> int result" where
  "intsetMin is = intsetGetAt is 0"

definition intsetGet :: "intset \<Rightarrow> u32 \<Rightarrow> int option result" where
  "intsetGet is pos =
     (if pos < is_length is then res_bind (intsetGetAt is (sint pos)) (\<lambda>v. Inr (Some v)) else Inr None)"

definition intsetLen :: "intset \<Rightarrow> u32" where
  "intsetLen is = is_length is"

definition intsetBlobLen :: "intset \<Rightarrow> u64" where
  "intsetBlobLen is = 8 + ucast (is_length is) * ucast (is_encoding is)"

text \<open>The loop of the deep check over the records from \<open>i\<close> on.\<close>

fun validateLoop :: "intset \<Rightarrow> nat \<Rightarrow> nat \<Rightarrow> int \<Rightarrow> bool result" where
  "validateLoop is 0 i prev = Inr True"
| "validateLoop is (Suc k) i prev =
     res_bind (intsetGetAt is (int i)) (\<lambda>cur.
       if cur \<le> prev then Inr False else validateLoop is k (Suc i) cur)"

text \<open>The blob \<open>p\<close> is read as an \<^verbatim>\<open>intset\<close>: two little endian header words and the contents.\<close>

definition intset_of_blob :: "buffer \<Rightarrow> intset" where
  "intset_of_blob p =
     \<lparr>is_encoding = word_of_int (le_val (take 4 p)), is_length = word_of_int (le_val (take 4 (drop 4 p))),
      is_contents = drop 8 p\<rparr>"

definition intsetValidateIntegrity :: "buffer \<Rightarrow> bool \<Rightarrow> bool result" where
  "intsetValidateIntegrity p deep =
     (let size = of_nat (length p) :: u64 in
      if size < 8 then Inr False
      else (let is = intset_of_blob p;
                encoding = is_encoding is
            in if encoding \<noteq> INTSET_ENC_INT64 \<and> encoding \<noteq> INTSET_ENC_INT32 \<and> encoding \<noteq> INTSET_ENC_INT16
               then Inr False
               else (let record_size = ucast encoding :: u64; count = is_length is
                     in if 8 + ucast count * record_size \<noteq> size then Inr False
                        else if count = 0 then Inr False
                        else if \<not> deep then Inr True
                        else res_bind (intsetGetAt is 0) (\<lambda>prev.
                               validateLoop is (unat count - 1) 1 prev))))"

declare searchLoop.simps [simp del]


section \<open>What an intset represents\<close>

text \<open>The width in bytes that the accessors use for an encoding.\<close>

definition enc_width :: "u32 \<Rightarrow> nat" where
  "enc_width e = (if e = INTSET_ENC_INT64 then 8 else if e = INTSET_ENC_INT32 then 4 else 2)"

definition in_width :: "nat \<Rightarrow> int \<Rightarrow> bool" where
  "in_width w v \<longleftrightarrow> - (2 ^ (8 * w - 1)) \<le> v \<and> v < 2 ^ (8 * w - 1)"

definition intset_enc :: "u32 \<Rightarrow> bool" where
  "intset_enc e \<longleftrightarrow> e = INTSET_ENC_INT16 \<or> e = INTSET_ENC_INT32 \<or> e = INTSET_ENC_INT64"

text \<open>
  The elements are in strictly increasing order and fit the encoding; the length is below
  \<open>2^29\<close>, so that the byte count of a move fits 32 bits at the widest encoding.
\<close>

definition intset_rep :: "intset \<Rightarrow> int list \<Rightarrow> bool" where
  "intset_rep is xs \<longleftrightarrow>
     intset_enc (is_encoding is) \<and> is_length is = of_nat (length xs) \<and> length xs < 2 ^ 29 \<and>
     is_contents is = records (enc_width (is_encoding is)) xs \<and>
     (\<forall>x\<in>set xs. in_width (enc_width (is_encoding is)) x) \<and> sorted_wrt (<) xs"

lemma intset_rep_new: "intset_rep intsetNew []"
  by (simp add: intset_rep_def intsetNew_def intset_enc_def)

lemma enc_width_cases: "enc_width e = 2 \<or> enc_width e = 4 \<or> enc_width e = 8"
  by (auto simp: enc_width_def)

lemma unat_enc: "intset_enc e \<Longrightarrow> unat e = enc_width e"
  by (auto simp: intset_enc_def enc_width_def)

lemma intset_enc_cases:
  "intset_enc e \<Longrightarrow> (e = INTSET_ENC_INT16 \<Longrightarrow> P) \<Longrightarrow> (e = INTSET_ENC_INT32 \<Longrightarrow> P) \<Longrightarrow>
   (e = INTSET_ENC_INT64 \<Longrightarrow> P) \<Longrightarrow> P"
  by (auto simp: intset_enc_def)

lemma intsetGetEncoded_enc:
  "intset_enc e \<Longrightarrow> intsetGetEncoded is pos e =
     res_bind (rdn (is_contents is) (int (enc_width e) * pos) (enc_width e)) (\<lambda>b. Inr (le_sval b))"
  by (erule intset_enc_cases) (simp_all add: intsetGetEncoded_def enc_width_def)

lemma intsetSet_enc:
  "intset_enc (is_encoding is) \<Longrightarrow> intsetSet is pos v =
     res_bind (wrn (is_contents is) (int (enc_width (is_encoding is)) * pos)
       (le_bytes (enc_width (is_encoding is)) v)) (\<lambda>c. Inr (is\<lparr>is_contents := c\<rparr>))"
  by (erule intset_enc_cases) (simp_all add: intsetSet_def enc_width_def)

lemma le_sval_in_width: "intset_enc e \<Longrightarrow> in_width (enc_width e) v \<Longrightarrow> le_sval (le_bytes (enc_width e) v) = v"
  using enc_width_cases [of e] by (intro le_sval_le_bytes) (auto simp: in_width_def)

lemma intsetGetEncoded_records:
  assumes e: "intset_enc e" and c: "take (enc_width e * Suc i) (is_contents is) = records (enc_width e) xs"
    and "i < length xs" "enc_width e * Suc i \<le> length (is_contents is)" "in_width (enc_width e) (xs ! i)"
  shows "intsetGetEncoded is (int i) e = Inr (xs ! i)"
proof -
  let ?w = "enc_width e"
  have "length (records ?w xs) \<le> ?w * Suc i" unfolding c [symmetric] by simp
  then have len: "length xs = Suc i" using assms(3) enc_width_cases [of e] by auto
  have "take ?w (drop (?w * i) (is_contents is)) = take ?w (drop (?w * i) (take (?w * Suc i) (is_contents is)))"
    by (simp add: drop_take add.commute)
  also have "\<dots> = le_bytes ?w (xs ! i)" unfolding c using nth_records assms(3) by blast
  finally have "rdn (is_contents is) (int (?w * i)) ?w = Inr (le_bytes ?w (xs ! i))"
    using assms(4) by (subst rdn_nat) (auto simp: add.commute)
  then show ?thesis using le_sval_in_width [OF e assms(5)] by (simp add: intsetGetEncoded_enc [OF e])
qed

lemma intsetGetAt_rep:
  assumes "intset_rep is xs" "i < length xs"
  shows "intsetGetAt is (int i) = Inr (xs ! i)"
proof -
  let ?w = "enc_width (is_encoding is)"
  have rep: "intset_enc (is_encoding is)" "is_contents is = records ?w xs"
    "\<forall>x\<in>set xs. in_width ?w x"
    using assms by (simp_all add: intset_rep_def)
  have "intsetGetEncoded is (int i) (is_encoding is) = Inr (take (Suc i) xs ! i)"
    using assms(2) rep by (intro intsetGetEncoded_records) (auto simp: take_records simp del: mult_Suc_right)
  then show ?thesis by (simp add: intsetGetAt_def)
qed

lemma sint_small: "n < 2 ^ 31 \<Longrightarrow> sint (of_nat n :: u32) = int n"
  by (simp add: signed_of_nat signed_take_bit_int_eq_self)

lemma sint_pred_small: "0 < n \<Longrightarrow> n < 2 ^ 31 \<Longrightarrow> sint (of_nat n - 1 :: u32) = int (n - 1)"
  using sint_small [of "n - 1"] by (simp add: of_nat_diff)

lemma half_of_nat: "m < 2 ^ 32 \<Longrightarrow> drop_bit 1 (of_nat m :: u32) = of_nat (m div 2)"
  by (rule word_unat_eq_iff [THEN iffD2])
     (simp only: unat_drop_bit_eq, simp add: unat_of_nat drop_bit_eq_div)

lemma midpoint_small:
  assumes "m < 2 ^ 31" "n < 2 ^ 31"
  shows "sint (drop_bit 1 (word_of_int (int m) + word_of_int (int n) :: u32)) = int ((m + n) div 2)"
  using assms half_of_nat [of "m + n"] sint_small [of "(m + n) div 2"] by simp

subsection \<open>Searching\<close>

text \<open>The position of a value in a sorted list: the number of smaller elements.\<close>

definition ins_pos :: "int \<Rightarrow> int list \<Rightarrow> nat" where
  "ins_pos v xs = length (takeWhile (\<lambda>x. x < v) xs)"

lemma ins_pos_unique:
  assumes "n \<le> length xs" "\<And>i. i < n \<Longrightarrow> xs ! i < v" "n < length xs \<Longrightarrow> v \<le> xs ! n"
  shows "ins_pos v xs = n"
proof -
  have "takeWhile (\<lambda>x. x < v) xs = take n xs"
    using assms by (intro takeWhile_eq_take_P_nth) (auto simp: not_less)
  then show ?thesis using assms(1) by (simp add: ins_pos_def)
qed

lemma sorted_wrt_less_nth:
  "sorted_wrt (<) xs \<Longrightarrow> i < length xs \<Longrightarrow> j < length xs \<Longrightarrow> xs ! i < xs ! j \<longleftrightarrow> i < j" for xs :: "int list"
  by (metis linorder_neqE_nat order_less_asym sorted_wrt_nth_less)

text \<open>
  The loop keeps the value's position between \<open>mn\<close> and \<open>mx + 1\<close>. It ends at the value, or at its
  insertion position.
\<close>

lemma searchLoop_eq:
  assumes rep: "intset_rep is xs"
  shows "mx < length xs \<Longrightarrow> mn \<le> Suc mx \<Longrightarrow> (\<And>i. i < mn \<Longrightarrow> xs ! i < v) \<Longrightarrow>
    (\<And>i. mx < i \<Longrightarrow> i < length xs \<Longrightarrow> v < xs ! i) \<Longrightarrow> cur \<noteq> v \<or> mn \<le> mx \<Longrightarrow>
    \<exists>mn' mid' cur'. searchLoop is v (int mn) (int mx) mid cur = Inr (mn', mid', cur') \<and>
      (if v \<in> set xs then cur' = v \<and> mid' = int (ins_pos v xs)
       else cur' \<noteq> v \<and> mn' = int (ins_pos v xs))"
proof (induction "Suc mx - mn" arbitrary: mn mx mid cur rule: less_induct)
  case less
  have small: "length xs < 2 ^ 29" and sorted: "sorted_wrt (<) xs"
    using rep by (simp_all add: intset_rep_def)
  show ?case
  proof (cases "mn \<le> mx")
    case False
    then have eq: "mn = Suc mx" using less.prems by simp
    then have "ins_pos v xs = mn" using less.prems by (intro ins_pos_unique) (auto intro: less_imp_le)
    moreover have "v \<notin> set xs"
      using less.prems eq unfolding in_set_conv_nth by (metis less_irrefl not_less_eq)
    ultimately show ?thesis using False less.prems by (simp add: searchLoop.simps [of _ _ "int mn"])
  next
    case True
    define c where "c = (mn + mx) div 2"
    have c: "mn \<le> c" "c \<le> mx" "c < length xs" using True less.prems by (auto simp: c_def)
    have mid: "sint (drop_bit 1 (word_of_int (int mn) + word_of_int (int mx) :: u32)) = int c"
      unfolding c_def using less.prems small True by (intro midpoint_small) auto
    have step: "searchLoop is v (int mn) (int mx) mid cur =
      (if xs ! c < v then searchLoop is v (int c + 1) (int mx) (int c) (xs ! c)
       else if v < xs ! c then searchLoop is v (int mn) (int c - 1) (int c) (xs ! c)
       else Inr (int mn, int c, xs ! c))"
      using True c by (subst searchLoop.simps) (simp only: mid Let_def intsetGetAt_rep [OF rep c(3)], simp)
    consider "xs ! c < v" | "v < xs ! c" | "xs ! c = v" by linarith
    then show ?thesis
    proof cases
      case 1
      have "\<And>i. i < Suc c \<Longrightarrow> xs ! i < v"
        using 1 c sorted sorted_wrt_less_nth [of xs _ c] by (metis less_Suc_eq less_trans)
      then have "\<exists>mn' mid' cur'. searchLoop is v (int (Suc c)) (int mx) (int c) (xs ! c) = Inr (mn', mid', cur') \<and>
        (if v \<in> set xs then cur' = v \<and> mid' = int (ins_pos v xs)
         else cur' \<noteq> v \<and> mn' = int (ins_pos v xs))"
        using c less.prems 1 by (intro less.hyps) auto
      then show ?thesis using step 1 by (simp add: add.commute)
    next
      case 2
      have above: "\<And>i. c \<le> i \<Longrightarrow> i < length xs \<Longrightarrow> v < xs ! i"
        using 2 c sorted sorted_wrt_less_nth [of xs c] by (metis le_neq_implies_less less_trans)
      show ?thesis
      proof (cases c)
        case 0
        then have "ins_pos v xs = 0" "mn = 0" using c above by (auto intro!: ins_pos_unique less_imp_le)
        moreover have "v \<notin> set xs" using above 0 unfolding in_set_conv_nth by (metis le0 less_irrefl)
        ultimately show ?thesis using step 2 0 by (simp add: searchLoop.simps [of _ _ 0 "- 1"])
      next
        case (Suc d)
        have "\<exists>mn' mid' cur'. searchLoop is v (int mn) (int d) (int c) (xs ! c) = Inr (mn', mid', cur') \<and>
          (if v \<in> set xs then cur' = v \<and> mid' = int (ins_pos v xs)
           else cur' \<noteq> v \<and> mn' = int (ins_pos v xs))"
        proof (rule less.hyps)
          show "xs ! c \<noteq> v \<or> mn \<le> d" using 2 by simp
        qed (use c less.prems above Suc in auto)
        then show ?thesis using step 2 Suc by simp
      qed
    next
      case 3
      then have "ins_pos v xs = c"
        using c sorted sorted_wrt_less_nth [of xs _ c] by (intro ins_pos_unique) auto
      moreover have "v \<in> set xs" using 3 c by auto
      ultimately show ?thesis using step 3 by simp
    qed
  qed
qed

lemma intsetSearch_rep:
  assumes rep: "intset_rep is xs"
  shows "intsetSearch is v = Inr (v \<in> set xs, of_nat (ins_pos v xs))"
proof (cases "xs = []")
  case True
  then show ?thesis using rep by (simp add: intsetSearch_def intset_rep_def ins_pos_def)
next
  case False
  let ?n = "length xs"
  have n: "0 < ?n" "?n < 2 ^ 31" and len: "is_length is = of_nat ?n" and sorted: "sorted_wrt (<) xs"
    using rep False by (auto simp: intset_rep_def)
  have nz: "is_length is \<noteq> 0" using n len by (simp add: of_nat_eq_0_iff word_of_nat_eq_0_iff nat_dvd_not_less)
  have mx: "sint (is_length is - 1) = int (?n - Suc 0)" unfolding len using n by (simp add: sint_pred_small del: of_nat_diff)
  have hi: "intsetGetAt is (int (?n - Suc 0)) = Inr (xs ! (?n - Suc 0))"
    and lo: "intsetGetAt is 0 = Inr (xs ! 0)"
    using intsetGetAt_rep [OF rep, of "?n - Suc 0"] intsetGetAt_rep [OF rep, of 0] n
    by (simp_all del: of_nat_diff)
  consider "xs ! (?n - Suc 0) < v" | "v < xs ! 0" "v \<le> xs ! (?n - Suc 0)" | "xs ! 0 \<le> v" "v \<le> xs ! (?n - Suc 0)"
    by linarith
  then show ?thesis
  proof cases
    case 1
    have all: "\<And>i. i < ?n \<Longrightarrow> xs ! i < v"
      using 1 sorted sorted_wrt_less_nth [of xs _ "?n - Suc 0"] n
      by (metis Suc_pred less_Suc_eq less_trans diff_Suc_less)
    then have "ins_pos v xs = ?n" by (intro ins_pos_unique) auto
    moreover have "v \<notin> set xs" using all by (metis in_set_conv_nth less_irrefl)
    ultimately show ?thesis using 1 nz by (simp add: intsetSearch_def Let_def mx hi len [symmetric] del: of_nat_diff)
  next
    case 2
    have all: "\<And>i. i < ?n \<Longrightarrow> v < xs ! i"
      using 2 sorted sorted_wrt_less_nth [of xs 0] n by (metis less_trans neq0_conv)
    then have "ins_pos v xs = 0" by (intro ins_pos_unique) (auto intro: less_imp_le)
    moreover have "v \<notin> set xs" using all by (metis in_set_conv_nth less_irrefl)
    ultimately show ?thesis using 2 nz by (simp add: intsetSearch_def Let_def mx hi lo del: of_nat_diff)
  next
    case 3
    have last: "\<And>i. ?n - Suc 0 < i \<Longrightarrow> i < ?n \<Longrightarrow> v < xs ! i" by simp
    obtain mn' mid' cur' where "searchLoop is v (int 0) (int (?n - Suc 0)) (- 1) (- 1) = Inr (mn', mid', cur')"
      and r: "if v \<in> set xs then cur' = v \<and> mid' = int (ins_pos v xs)
       else cur' \<noteq> v \<and> mn' = int (ins_pos v xs)"
      using searchLoop_eq [OF rep, of "?n - Suc 0" 0 v "- 1" "- 1"] n last by (auto simp del: of_nat_diff)
    then show ?thesis
      using 3 nz by (auto simp: intsetSearch_def Let_def mx hi lo split: if_splits simp del: of_nat_diff)
  qed
qed

subsection \<open>Encodings, resizing, moving\<close>

definition int64 :: "int \<Rightarrow> bool" where
  "int64 v \<longleftrightarrow> - (2 ^ 63) \<le> v \<and> v < 2 ^ 63"

lemma intset_enc_value: "intset_enc (intsetValueEncoding v)"
  by (simp add: intset_enc_def intsetValueEncoding_def)

lemma in_width_value: "int64 v \<Longrightarrow> in_width (enc_width (intsetValueEncoding v)) v"
  by (auto simp: in_width_def int64_def intsetValueEncoding_def enc_width_def)

lemma enc_width_mono: "intset_enc e \<Longrightarrow> intset_enc e' \<Longrightarrow> e \<le> e' \<longleftrightarrow> enc_width e \<le> enc_width e'"
  by (auto simp: intset_enc_def enc_width_def)

lemma in_width_mono: "in_width w v \<Longrightarrow> w \<le> w' \<Longrightarrow> in_width w' v"
proof -
  assume a: "in_width w v" "w \<le> w'"
  then have "(2::int) ^ (8 * w - 1) \<le> 2 ^ (8 * w' - 1)" by (intro power_increasing) auto
  with a(1) show ?thesis unfolding in_width_def by linarith
qed

lemma value_fits:
  "intset_enc e \<Longrightarrow> int64 v \<Longrightarrow> intsetValueEncoding v \<le> e \<Longrightarrow> in_width (enc_width e) v"
  using in_width_mono [OF in_width_value] enc_width_mono [OF intset_enc_value] by blast

lemma value_outside:
  "intset_enc e \<Longrightarrow> e < intsetValueEncoding v \<Longrightarrow>
   (if v < 0 then v < - (2 ^ (8 * enc_width e - 1)) else 2 ^ (8 * enc_width e - 1) \<le> v)"
  by (erule intset_enc_cases) (auto simp: intsetValueEncoding_def enc_width_def split: if_splits)

lemma not_found_wider:
  assumes "intset_rep is xs" "is_encoding is < intsetValueEncoding v" "x \<in> set xs"
  shows "if v < 0 then v < x else x < v"
  using assms value_outside [of "is_encoding is" v] by (fastforce simp: intset_rep_def in_width_def)

lemma mult_width_less: "n < 2 ^ 29 \<Longrightarrow> enc_width e * n < 2 ^ 32"
  using enc_width_cases [of e] by auto

lemma intsetResize_eq:
  assumes e: "intset_enc (is_encoding is)" and n: "n < 2 ^ 29"
  shows "intsetResize junk is (of_nat n) =
    Inr (is\<lparr>is_contents := zrealloc junk (is_contents is) (enc_width (is_encoding is) * n)\<rparr>)"
proof -
  let ?e = "is_encoding is"
  let ?size = "ucast (of_nat n :: u32) * ucast ?e :: u64"
  have "(ucast (of_nat n :: u32) :: u64) = of_nat n"
    using n by (simp add: unsigned_of_nat take_bit_nat_eq_self)
  moreover have "(ucast ?e :: u64) = of_nat (enc_width ?e)"
    using e by (auto simp: intset_enc_def enc_width_def)
  ultimately have size: "?size = of_nat (enc_width ?e * n)" by simp
  have "unat ?size = enc_width ?e * n"
    unfolding size using mult_width_less [OF n, of ?e] by (simp only: unat_of_nat) simp
  moreover from this have "?size \<le> - 1 - 8"
    using mult_width_less [OF n, of ?e] by (simp add: word_le_nat_alt)
  ultimately show ?thesis by (simp add: intsetResize_def Let_def)
qed

lemma intsetMoveTail_eq:
  assumes e: "intset_enc (is_encoding is)" and len: "is_length is = of_nat n" and n: "n < 2 ^ 29"
    and "from \<le> n" "to < 2 ^ 32"
  shows "intsetMoveTail is (of_nat from) (of_nat to) =
    (let w = enc_width (is_encoding is)
     in res_bind (rdn (is_contents is) (int (w * from)) (w * (n - from))) (\<lambda>b.
        res_bind (wrn (is_contents is) (int (w * to)) b) (\<lambda>c. Inr (is\<lparr>is_contents := c\<rparr>))))"
proof -
  let ?w = "enc_width (is_encoding is)"
  have cnt: "unat ((is_length is - of_nat from) * of_nat ?w) = ?w * (n - from)"
  proof -
    have "(is_length is - of_nat from) * of_nat ?w = (of_nat (?w * (n - from)) :: u32)"
      using assms by (simp add: of_nat_diff)
    moreover have "?w * (n - from) < 2 ^ 32" using mult_width_less [of "n - from" "is_encoding is"] n by simp
    ultimately show ?thesis by (simp only: unat_of_nat) simp
  qed
  have "uint (of_nat from :: u32) = int from" "uint (of_nat to :: u32) = int to"
    using assms by (simp_all add: uint_nat unat_of_nat del: of_nat_unat)
  moreover have "(if is_encoding is = INTSET_ENC_INT64 then 8
     else if is_encoding is = INTSET_ENC_INT32 then 4 else 2) = ?w"
    by (simp add: enc_width_def)
  ultimately show ?thesis unfolding intsetMoveTail_def Let_def using cnt by (simp only: of_nat_mult)
qed

text \<open>Storing one record between a block of records and another.\<close>

lemma wrn_record:
  assumes "take (w * n) buf = records w ys" "length ys = n" "drop (w * Suc n) buf = records w zs"
    "w * Suc n \<le> length buf"
  shows "wrn buf (int (w * n)) (le_bytes w v) = Inr (records w (ys @ v # zs))"
proof -
  have "wrn buf (int (w * n)) (le_bytes w v) =
    Inr (take (w * n) buf @ le_bytes w v @ drop (w * n + length (le_bytes w v)) buf)"
    using assms(4) by (intro wrn_nat) simp
  moreover have "w * n + length (le_bytes w v) = w * Suc n" by simp
  ultimately show ?thesis using assms by (simp only:) simp
qed

subsection \<open>Adding\<close>

lemma sorted_insert_at:
  assumes "sorted_wrt (<) xs" "v \<notin> set xs"
  shows "sorted_wrt (<) (take (ins_pos v xs) xs @ v # drop (ins_pos v xs) xs)"
proof -
  have t: "take (ins_pos v xs) xs = takeWhile (\<lambda>x. x < v) xs"
    by (simp add: ins_pos_def takeWhile_eq_take [symmetric])
  have d: "drop (ins_pos v xs) xs = dropWhile (\<lambda>x. x < v) xs"
    by (simp add: ins_pos_def dropWhile_eq_drop [symmetric])
  have "\<forall>y\<in>set (dropWhile (\<lambda>x. x < v) xs). v < y" if "sorted_wrt (<) xs" "v \<notin> set xs"
    using that
  proof (induction xs)
    case (Cons x xs)
    then show ?case by (cases "x < v") force+
  qed simp
  with assms have "\<forall>y\<in>set (drop (ins_pos v xs) xs). v < y" by (simp add: d)
  moreover have "\<forall>x\<in>set (take (ins_pos v xs) xs). x < v" unfolding t by (auto dest: set_takeWhileD)
  moreover have "sorted_wrt (<) (take (ins_pos v xs) xs @ drop (ins_pos v xs) xs)" using assms by simp
  ultimately show ?thesis unfolding sorted_wrt_append by auto
qed

lemma ins_pos_le: "ins_pos v xs \<le> length xs"
  by (simp add: ins_pos_def length_takeWhile_le)

text \<open>The move and the store of \<^verbatim>\<open>intsetAdd\<close> open a gap and fill it.\<close>

lemma intsetAdd_place:
  assumes rep: "intset_rep is xs" and p: "p \<le> length xs" and len: "Suc (length xs) < 2 ^ 29"
  shows "res_bind (intsetResize junk is (is_length is + 1)) (\<lambda>is.
      res_bind (if of_nat p < is_length is then intsetMoveTail is (of_nat p) (of_nat p + 1) else Inr is) (\<lambda>is.
      intsetSet is (sint (of_nat p :: u32)) v)) =
    Inr (is\<lparr>is_contents := records (enc_width (is_encoding is)) (take p xs @ v # drop p xs)\<rparr>)"
proof -
  let ?w = "enc_width (is_encoding is)" and ?n = "length xs"
  have e: "intset_enc (is_encoding is)" and il: "is_length is = of_nat ?n"
    and c: "is_contents is = records ?w xs"
    using rep by (simp_all add: intset_rep_def)
  define J where "J = map junk [?w * ?n..<?w * Suc ?n]"
  define is1 where "is1 = is\<lparr>is_contents := records ?w xs @ J\<rparr>"
  have lJ: "length J = ?w" by (simp add: J_def)
  have "intsetResize junk is (of_nat (Suc ?n)) = Inr (is\<lparr>is_contents := zrealloc junk (is_contents is) (?w * Suc ?n)\<rparr>)"
    using e len by (rule intsetResize_eq)
  moreover have "zrealloc junk (is_contents is) (?w * Suc ?n) = records ?w xs @ J"
    unfolding c by (subst zrealloc_grow) (simp_all add: J_def)
  ultimately have r: "intsetResize junk is (is_length is + 1) = Inr is1"
    by (simp add: il is1_def add.commute)
  have sp: "sint (of_nat p :: u32) = int p" using p len by (intro sint_small) simp
  have lt: "(of_nat p :: u32) < is_length is1 \<longleftrightarrow> p < ?n"
    using p len by (simp add: is1_def il word_less_nat_alt unat_of_nat)
  have e1: "intset_enc (is_encoding is1)" and w1: "enc_width (is_encoding is1) = ?w"
    and i1: "is_length is1 = of_nat ?n" and c1: "is_contents is1 = records ?w xs @ J"
    using e by (simp_all add: is1_def il)
  have fin: "intsetSet (is\<lparr>is_contents := buf\<rparr>) (int p) v =
      Inr (is\<lparr>is_contents := records ?w (take p xs @ v # drop p xs)\<rparr>)"
    if "take (?w * p) buf = records ?w (take p xs)" "drop (?w * Suc p) buf = records ?w (drop p xs)"
      "?w * Suc p \<le> length buf" for buf
  proof -
    have "wrn buf (int (?w * p)) (le_bytes ?w v) = Inr (records ?w (take p xs @ v # drop p xs))"
      using that p by (intro wrn_record) auto
    then show ?thesis using e by (simp add: intsetSet_enc)
  qed
  show ?thesis
  proof (cases "p < ?n")
    case True
    let ?buf = "records ?w (take (Suc p) xs) @ records ?w (drop p xs)"
    have "rdn (is_contents is1) (int (?w * p)) (?w * (?n - p)) = Inr (records ?w (drop p xs))"
    proof -
      have "rdn (is_contents is1) (int (?w * p)) (?w * (?n - p)) =
        Inr (take (?w * (?n - p)) (drop (?w * p) (is_contents is1)))"
        using p by (intro rdn_nat) (simp add: c1 add_mult_distrib2 [symmetric])
      also have "drop (?w * p) (is_contents is1) = records ?w (drop p xs) @ J"
        using p by (simp add: c1 drop_records)
      finally show ?thesis by simp
    qed
    moreover have "wrn (is_contents is1) (int (?w * Suc p)) (records ?w (drop p xs)) = Inr ?buf"
    proof -
      have fit: "?w * Suc p + length (records ?w (drop p xs)) = length (is_contents is1)"
        using p by (simp add: c1 lJ diff_mult_distrib2)
      have "wrn (is_contents is1) (int (?w * Suc p)) (records ?w (drop p xs)) =
        Inr (take (?w * Suc p) (is_contents is1) @ records ?w (drop p xs) @ [])"
        using wrn_nat [of "?w * Suc p" "records ?w (drop p xs)" "is_contents is1"] fit by simp
      moreover have "take (?w * Suc p) (is_contents is1) = records ?w (take (Suc p) xs)"
        using True by (simp add: c1 take_records mult_le_mono2 del: mult_Suc_right)
      ultimately show ?thesis by simp
    qed
    moreover have "intsetMoveTail is1 (of_nat p) (of_nat (Suc p)) =
      (let w = enc_width (is_encoding is1)
       in res_bind (rdn (is_contents is1) (int (w * p)) (w * (?n - p))) (\<lambda>b.
          res_bind (wrn (is_contents is1) (int (w * Suc p)) b) (\<lambda>c. Inr (is1\<lparr>is_contents := c\<rparr>))))"
      using p len by (intro intsetMoveTail_eq [OF e1 i1]) auto
    ultimately have mv: "intsetMoveTail is1 (of_nat p) (of_nat p + 1) = Inr (is\<lparr>is_contents := ?buf\<rparr>)"
      by (simp add: w1 Let_def is1_def add.commute del: of_nat_mult mult_Suc_right)
    have "intsetSet (is\<lparr>is_contents := ?buf\<rparr>) (int p) v =
      Inr (is\<lparr>is_contents := records ?w (take p xs @ v # drop p xs)\<rparr>)"
      using True by (intro fin)
        (simp_all add: take_records mult_le_mono2 add_mult_distrib2 take_Suc_conv_app_nth)
    then show ?thesis using r lt True sp mv by simp
  next
    case False
    then have pn: "p = ?n" using p by simp
    have "intsetSet (is\<lparr>is_contents := records ?w xs @ J\<rparr>) (int p) v =
      Inr (is\<lparr>is_contents := records ?w (take p xs @ v # drop p xs)\<rparr>)"
      using pn lJ by (intro fin) simp_all
    then show ?thesis using r lt False sp by (simp add: is1_def)
  qed
qed

text \<open>
  The upgrade loop works in place and back to front: below byte \<open>w * i\<close> the records still have the
  old width \<open>w\<close>, from byte \<open>w' * (i + p)\<close> on they have the new width \<open>w'\<close>, and the two regions
  do not meet.
\<close>

lemma upgradeLoop_eq:
  assumes old: "intset_enc curenc" and new: "intset_enc (is_encoding is)"
    and w: "enc_width curenc \<le> enc_width (is_encoding is)"
    and fits: "\<forall>x\<in>set xs. in_width (enc_width curenc) x"
    and "i \<le> length xs" "length (is_contents is) = enc_width (is_encoding is) * Suc (length xs)"
    "take (enc_width curenc * i) (is_contents is) = records (enc_width curenc) (take i xs)"
    "drop (enc_width (is_encoding is) * (i + p)) (is_contents is) =
       records (enc_width (is_encoding is)) (drop i xs) @ R"
    "p \<le> 1"
  shows "\<exists>c. upgradeLoop is curenc (int p) i = Inr (is\<lparr>is_contents := c\<rparr>) \<and>
    length c = enc_width (is_encoding is) * Suc (length xs) \<and>
    drop (enc_width (is_encoding is) * p) c = records (enc_width (is_encoding is)) xs @ R"
  using assms(2-)
proof (induction i arbitrary: "is")
  case 0
  then show ?case by (intro exI [of _ "is_contents is"]) simp
next
  case (Suc i)
  let ?w = "enc_width curenc" and ?w' = "enc_width (is_encoding is)" and ?c = "is_contents is"
  let ?c' = "take (?w' * (i + p)) ?c @ le_bytes ?w' (xs ! i) @ drop (?w' * (Suc i + p)) ?c"
  have i: "i < length xs" using Suc.prems by simp
  have "?w * Suc i \<le> length ?c"
    unfolding Suc.prems(5) using Suc.prems(2) i by (intro mult_le_mono) auto
  then have get: "intsetGetEncoded is (int i) curenc = Inr (xs ! i)"
    using intsetGetEncoded_records [OF old Suc.prems(6)] Suc.prems(3) i by simp
  have fit: "?w' * (Suc i + p) \<le> length ?c"
    unfolding Suc.prems(5) using i Suc.prems(8) by (intro mult_le_mono2) simp
  then have "wrn ?c (int (?w' * (i + p))) (le_bytes ?w' (xs ! i)) = Inr ?c'"
    using wrn_nat [of "?w' * (i + p)" "le_bytes ?w' (xs ! i)" ?c] by (simp add: add.commute add.left_commute)
  then have set: "intsetSet is (int i + int p) (xs ! i) = Inr (is\<lparr>is_contents := ?c'\<rparr>)"
    by (simp add: intsetSet_enc [OF Suc.prems(1)])
  have le: "?w * i \<le> ?w' * (i + p)" using Suc.prems(2) by (intro mult_le_mono) auto
  have lpre: "length (take (?w' * (i + p)) ?c) = ?w' * (i + p)" using fit by simp
  have "\<exists>c. upgradeLoop (is\<lparr>is_contents := ?c'\<rparr>) curenc (int p) i =
      Inr ((is\<lparr>is_contents := ?c'\<rparr>)\<lparr>is_contents := c\<rparr>) \<and>
    length c = enc_width (is_encoding (is\<lparr>is_contents := ?c'\<rparr>)) * Suc (length xs) \<and>
    drop (enc_width (is_encoding (is\<lparr>is_contents := ?c'\<rparr>)) * p) c =
      records (enc_width (is_encoding (is\<lparr>is_contents := ?c'\<rparr>))) xs @ R"
  proof (rule Suc.IH)
    show "length (is_contents (is\<lparr>is_contents := ?c'\<rparr>)) =
      enc_width (is_encoding (is\<lparr>is_contents := ?c'\<rparr>)) * Suc (length xs)"
      using fit Suc.prems(5) by simp
    have "take (?w * i) ?c = take (?w * i) (take (?w * Suc i) ?c)" by (simp add: min_def)
    also have "\<dots> = records ?w (take i xs)"
      unfolding Suc.prems(6) take_records by (simp add: min_def)
    finally show "take (?w * i) (is_contents (is\<lparr>is_contents := ?c'\<rparr>)) = records ?w (take i xs)"
      using le fit by (simp add: min_def)
    have "drop (?w' * (i + p)) ?c' = le_bytes ?w' (xs ! i) @ drop (?w' * (Suc i + p)) ?c"
      using lpre by simp
    also have "\<dots> = records ?w' (drop i xs) @ R"
      unfolding Suc.prems(7) using i by (simp add: Cons_nth_drop_Suc [symmetric])
    finally show "drop (enc_width (is_encoding (is\<lparr>is_contents := ?c'\<rparr>)) * (i + p))
        (is_contents (is\<lparr>is_contents := ?c'\<rparr>)) =
      records (enc_width (is_encoding (is\<lparr>is_contents := ?c'\<rparr>))) (drop i xs) @ R" by simp
  qed (use Suc.prems in auto)
  then show ?case by (simp add: get set)
qed

lemma intsetUpgradeAndAdd_rep:
  assumes rep: "intset_rep is xs" and v: "int64 v" and wider: "is_encoding is < intsetValueEncoding v"
    and len: "Suc (length xs) < 2 ^ 29"
  shows "\<exists>is'. intsetUpgradeAndAdd junk is v = Inr is' \<and> is_encoding is' = intsetValueEncoding v \<and>
    intset_rep is' (if v < 0 then v # xs else xs @ [v])"
proof -
  let ?e = "intsetValueEncoding v" and ?n = "length xs"
  let ?w = "enc_width (is_encoding is)" and ?w' = "enc_width ?e"
  define p :: nat where "p = (if v < 0 then 1 else 0)"
  have e: "intset_enc (is_encoding is)" and il: "is_length is = of_nat ?n"
    and c: "is_contents is = records ?w xs" and fits: "\<forall>x\<in>set xs. in_width ?w x"
    and sorted: "sorted_wrt (<) xs"
    using rep by (simp_all add: intset_rep_def)
  have w: "?w \<le> ?w'" using less_imp_le [OF wider] enc_width_mono [OF e intset_enc_value [of v]] by simp
  define is1 where "is1 = is\<lparr>is_encoding := ?e, is_contents := zrealloc junk (is_contents is) (?w' * Suc ?n)\<rparr>"
  have "intsetResize junk (is\<lparr>is_encoding := ?e\<rparr>) (of_nat (Suc ?n)) = Inr is1"
    using intsetResize_eq [of "is\<lparr>is_encoding := ?e\<rparr>" "Suc ?n"] intset_enc_value len
    by (simp add: is1_def del: of_nat_Suc)
  then have is1: "is_encoding is1 = ?e" "length (is_contents is1) = ?w' * Suc ?n" "p \<le> 1"
    by (simp_all add: is1_def p_def)
  have r: "intsetResize junk (is\<lparr>is_encoding := ?e\<rparr>) (is_length is + 1) = Inr is1"
    using \<open>intsetResize junk (is\<lparr>is_encoding := ?e\<rparr>) (of_nat (Suc ?n)) = Inr is1\<close> by (simp add: il add.commute)
  have lc: "?w * ?n \<le> ?w' * Suc ?n" using w by (intro mult_le_mono) auto
  have "take (?w * ?n) (is_contents is1) = records ?w (take ?n xs)"
    using lc by (simp add: is1_def c zrealloc_grow)
  moreover define R where "R = drop (?w' * (?n + p)) (is_contents is1)"
  ultimately obtain b where loop: "upgradeLoop is1 (is_encoding is) (int p) ?n = Inr (is1\<lparr>is_contents := b\<rparr>)"
    and lb: "length b = ?w' * Suc ?n" and db: "drop (?w' * p) b = records ?w' xs @ R"
    using upgradeLoop_eq [OF e, of is1 xs ?n p R] w fits intset_enc_value [of v] is1 by auto
  have lR: "length R = ?w' * (1 - p)" by (simp add: R_def is1_def p_def)
  have sn: "sint (is_length is1) = int ?n" using len by (simp add: is1_def il sint_small)
  define xs' where "xs' = (if v < 0 then v # xs else xs @ [v])"
  have "wrn b (int (?w' * (if v < 0 then 0 else ?n))) (le_bytes ?w' v) = Inr (records ?w' xs')"
  proof (cases "v < 0")
    case True
    then have "drop (?w' * Suc 0) b = records ?w' xs" using db lR by (simp add: p_def)
    then show ?thesis using True lb wrn_record [of ?w' 0 b "[]" xs v] by (simp add: xs'_def)
  next
    case False
    then have "b = records ?w' xs @ R" using db by (simp add: p_def)
    then show ?thesis using False lb lR wrn_record [of ?w' ?n b xs "[]" v] by (simp add: xs'_def p_def)
  qed
  then have set: "(if v < 0 then intsetSet (is1\<lparr>is_contents := b\<rparr>) 0 v
      else intsetSet (is1\<lparr>is_contents := b\<rparr>) (int ?n) v) =
    Inr (is1\<lparr>is_contents := records ?w' xs'\<rparr>)"
    using intset_enc_value [of v] by (auto simp: intsetSet_enc is1_def)
  have "intsetUpgradeAndAdd junk is v =
    Inr (is1\<lparr>is_contents := records ?w' xs', is_length := is_length is1 + 1\<rparr>)"
    using r loop set sn len by (auto simp: intsetUpgradeAndAdd_def Let_def p_def il unat_of_nat is1_def)
  moreover have "intset_rep (is1\<lparr>is_contents := records ?w' xs', is_length := is_length is1 + 1\<rparr>) xs'"
    using len fits w in_width_mono in_width_value [OF v] intset_enc_value [of v] sorted
      not_found_wider [OF rep wider]
    by (auto simp: intset_rep_def is1_def il xs'_def sorted_wrt_append split: if_splits)
  ultimately show ?thesis by (auto simp: xs'_def is1_def)
qed

lemma intsetAdd_rep:
  assumes rep: "intset_rep is xs" and v: "int64 v" and len: "Suc (length xs) < 2 ^ 29"
  shows "\<exists>is' ys. intsetAdd junk is v = Inr (is', v \<notin> set xs) \<and> intset_rep is' ys \<and>
    set ys = insert v (set xs) \<and> is_encoding is' = max (is_encoding is) (intsetValueEncoding v)"
proof (cases "is_encoding is < intsetValueEncoding v")
  case True
  obtain is' where "intsetUpgradeAndAdd junk is v = Inr is'" "is_encoding is' = intsetValueEncoding v"
    "intset_rep is' (if v < 0 then v # xs else xs @ [v])"
    using intsetUpgradeAndAdd_rep [OF rep v True len] by blast
  moreover have "v \<notin> set xs" using not_found_wider [OF rep True, of v] by (auto split: if_splits)
  ultimately show ?thesis using True
    by (intro exI [of _ is'] exI [of _ "if v < 0 then v # xs else xs @ [v]"])
       (auto simp: intsetAdd_def Let_def max_def)
next
  case False
  let ?p = "ins_pos v xs"
  let ?ys = "take ?p xs @ v # drop ?p xs"
  have max: "max (is_encoding is) (intsetValueEncoding v) = is_encoding is"
    using False by (simp add: max_def)
  have unf: "intsetAdd junk is v = (if v \<in> set xs then Inr (is, False) else
    res_bind (res_bind (intsetResize junk is (is_length is + 1)) (\<lambda>is.
      res_bind (if of_nat ?p < is_length is then intsetMoveTail is (of_nat ?p) (of_nat ?p + 1) else Inr is) (\<lambda>is.
      intsetSet is (sint (of_nat ?p :: u32)) v))) (\<lambda>is. Inr (is\<lparr>is_length := is_length is + 1\<rparr>, True)))"
    using False by (simp add: intsetAdd_def Let_def intsetSearch_rep [OF rep] res_bind_assoc)
  show ?thesis
  proof (cases "v \<in> set xs")
    case True
    then show ?thesis using rep unf max by (intro exI [of _ "is"] exI [of _ xs]) auto
  next
    case notin: False
    have e: "intset_enc (is_encoding is)" "sorted_wrt (<) xs" "is_length is = of_nat (length xs)"
      "\<forall>x\<in>set xs. in_width (enc_width (is_encoding is)) x"
      using rep by (simp_all add: intset_rep_def)
    have set: "set ?ys = insert v (set xs)"
      by (metis Un_insert_right append_take_drop_id list.simps(15) set_append)
    have "length ?ys = Suc (length xs)" using ins_pos_le [of v xs] by simp
    moreover have "in_width (enc_width (is_encoding is)) v" using value_fits [OF e(1) v] False by simp
    ultimately have "intset_rep (is\<lparr>is_contents := records (enc_width (is_encoding is)) ?ys,
        is_length := is_length is + 1\<rparr>) ?ys"
      using e len set sorted_insert_at [OF e(2) notin] unfolding intset_rep_def by simp
    with set notin show ?thesis unfolding unf intsetAdd_place [OF rep ins_pos_le len] max
      by (intro exI [of _ "is\<lparr>is_contents := records (enc_width (is_encoding is)) ?ys,
        is_length := is_length is + 1\<rparr>"] exI [of _ ?ys]) simp
  qed
qed

subsection \<open>Finding and removing\<close>

lemma intsetFind_rep:
  assumes rep: "intset_rep is xs"
  shows "intsetFind is v = Inr (v \<in> set xs)"
proof (cases "is_encoding is < intsetValueEncoding v")
  case True
  then have "v \<notin> set xs" using not_found_wider [OF rep True, of v] by (auto split: if_splits)
  moreover have "\<not> intsetValueEncoding v \<le> is_encoding is" using True by simp
  ultimately show ?thesis by (simp only: intsetFind_def if_False)
next
  case False
  then show ?thesis by (simp add: intsetFind_def intsetSearch_rep [OF rep] not_less)
qed

text \<open>The move and the truncation of \<^verbatim>\<open>intsetRemove\<close> close the gap.\<close>

lemma intsetRemove_place:
  assumes rep: "intset_rep is xs" and p: "p < length xs"
  shows "res_bind (if of_nat p < is_length is - 1 then intsetMoveTail is (of_nat p + 1) (of_nat p) else Inr is)
      (\<lambda>is'. intsetResize junk is' (is_length is - 1)) =
    Inr (is\<lparr>is_contents := records (enc_width (is_encoding is)) (take p xs @ drop (Suc p) xs)\<rparr>)"
proof -
  let ?w = "enc_width (is_encoding is)" and ?n = "length xs"
  have e: "intset_enc (is_encoding is)" and il: "is_length is = of_nat ?n"
    and c: "is_contents is = records ?w xs" and len: "?n < 2 ^ 29"
    using rep by (simp_all add: intset_rep_def)
  have pred: "is_length is - 1 = of_nat (?n - 1)" using p by (simp add: il of_nat_diff)
  have lt: "(of_nat p :: u32) < is_length is - 1 \<longleftrightarrow> p < ?n - 1"
    unfolding pred using p len by (simp only: word_less_nat_alt unat_of_nat) simp
  have rs: "intsetResize junk (is\<lparr>is_contents := buf\<rparr>) (is_length is - 1) =
      Inr (is\<lparr>is_contents := take (?w * (?n - 1)) buf\<rparr>)" if "length buf = ?w * ?n" for buf
    unfolding pred using that len e
    by (subst intsetResize_eq) (simp_all add: zrealloc_shrink diff_mult_distrib2)
  show ?thesis
  proof (cases "p < ?n - 1")
    case True
    let ?tail = "records ?w (drop (Suc p) xs)"
    have "rdn (is_contents is) (int (?w * Suc p)) (?w * (?n - Suc p)) = Inr ?tail"
    proof -
      have "?w * Suc p + ?w * (?n - Suc p) = ?w * ?n"
        using p by (metis Suc_leI add_mult_distrib2 le_add_diff_inverse)
      then show ?thesis by (subst rdn_nat) (simp_all add: c drop_records del: mult_Suc_right)
    qed
    moreover have wr: "wrn (is_contents is) (int (?w * p)) ?tail =
      Inr (records ?w (take p xs) @ ?tail @ drop (?w * p + length ?tail) (is_contents is))"
      using p wrn_nat [of "?w * p" ?tail "is_contents is"]
      by (simp add: c take_records add_mult_distrib2 [symmetric] del: of_nat_mult)
    moreover have "intsetMoveTail is (of_nat (Suc p)) (of_nat p) =
      (let w = enc_width (is_encoding is)
       in res_bind (rdn (is_contents is) (int (w * Suc p)) (w * (?n - Suc p))) (\<lambda>b.
          res_bind (wrn (is_contents is) (int (w * p)) b) (\<lambda>c. Inr (is\<lparr>is_contents := c\<rparr>))))"
      using p len by (intro intsetMoveTail_eq [OF e il]) auto
    ultimately have mv: "intsetMoveTail is (of_nat p + 1) (of_nat p) =
      Inr (is\<lparr>is_contents := records ?w (take p xs) @ ?tail @ drop (?w * p + length ?tail) (is_contents is)\<rparr>)"
      by (simp add: Let_def add.commute del: of_nat_mult mult_Suc_right length_records)
    have "take (?w * (?n - 1)) (records ?w (take p xs) @ ?tail @ drop (?w * p + length ?tail) (is_contents is)) =
      records ?w (take p xs @ drop (Suc p) xs)"
    proof -
      have "length (take p xs @ drop (Suc p) xs) = ?n - 1" using p by simp
      then have "?w * (?n - 1) = length (records ?w (take p xs @ drop (Suc p) xs))"
        by (simp only: length_records)
      then show ?thesis by (metis append.assoc append_eq_conv_conj records_simps(3))
    qed
    moreover have "length (records ?w (take p xs) @ ?tail @ drop (?w * p + length ?tail) (is_contents is)) = ?w * ?n"
      using wrn_length [OF wr] by (simp add: c)
    ultimately show ?thesis using lt True mv rs by simp
  next
    case False
    then have "Suc p = ?n" "?n - 1 = p" using p by simp_all
    then have "take (?w * (?n - 1)) (is_contents is) = records ?w (take p xs @ drop (Suc p) xs)"
      using take_records [of ?w p xs] by (simp add: c)
    moreover have "length (is_contents is) = ?w * ?n" by (simp add: c)
    ultimately show ?thesis using lt False rs [of "is_contents is"] by simp
  qed
qed

lemma sorted_remove_at:
  assumes "sorted_wrt (<) xs" "v \<in> set xs"
  shows "sorted_wrt (<) (take (ins_pos v xs) xs @ drop (Suc (ins_pos v xs)) xs)"
    "set (take (ins_pos v xs) xs @ drop (Suc (ins_pos v xs)) xs) = set xs - {v}"
    "ins_pos v xs < length xs"
proof -
  obtain i where i: "i < length xs" "xs ! i = v" using assms(2) by (auto simp: in_set_conv_nth)
  have pos: "ins_pos v xs = i"
    using i assms(1) sorted_wrt_less_nth [of xs _ i] by (intro ins_pos_unique) auto
  show "ins_pos v xs < length xs" using i pos by simp
  have split: "xs = take i xs @ v # drop (Suc i) xs" using i by (metis id_take_nth_drop)
  have s: "sorted_wrt (<) (take i xs @ v # drop (Suc i) xs)" using assms(1) split by simp
  then show "sorted_wrt (<) (take (ins_pos v xs) xs @ drop (Suc (ins_pos v xs)) xs)"
    unfolding pos sorted_wrt_append by auto
  have "v \<notin> set (take i xs @ drop (Suc i) xs)" using s unfolding sorted_wrt_append by auto
  then show "set (take (ins_pos v xs) xs @ drop (Suc (ins_pos v xs)) xs) = set xs - {v}"
    unfolding pos using arg_cong [OF split, of set] by auto
qed

lemma intsetRemove_rep:
  assumes rep: "intset_rep is xs"
  shows "\<exists>is' ys. intsetRemove junk is v = Inr (is', v \<in> set xs) \<and> intset_rep is' ys \<and>
    set ys = set xs - {v} \<and> is_encoding is' = is_encoding is"
proof (cases "v \<in> set xs")
  case False
  then have "intsetRemove junk is v = Inr (is, False)"
    by (simp add: intsetRemove_def Let_def intsetSearch_rep [OF rep])
  with rep False show ?thesis by (intro exI [of _ "is"] exI [of _ xs]) auto
next
  case True
  let ?p = "ins_pos v xs"
  let ?ys = "take ?p xs @ drop (Suc ?p) xs"
  let ?is = "is\<lparr>is_contents := records (enc_width (is_encoding is)) ?ys, is_length := is_length is - 1\<rparr>"
  have e: "intset_enc (is_encoding is)" "sorted_wrt (<) xs" "is_length is = of_nat (length xs)"
    "\<forall>x\<in>set xs. in_width (enc_width (is_encoding is)) x" "length xs < 2 ^ 29"
    using rep by (simp_all add: intset_rep_def)
  note rm = sorted_remove_at [OF e(2) True]
  have "intsetValueEncoding v \<le> is_encoding is"
    using not_found_wider [OF rep, of v v] True by (cases "is_encoding is < intsetValueEncoding v") auto
  then have "intsetRemove junk is v =
    res_bind (res_bind (if of_nat ?p < is_length is - 1 then intsetMoveTail is (of_nat ?p + 1) (of_nat ?p) else Inr is)
      (\<lambda>is'. intsetResize junk is' (is_length is - 1))) (\<lambda>is'. Inr (is'\<lparr>is_length := is_length is - 1\<rparr>, True))"
    using True by (simp add: intsetRemove_def Let_def intsetSearch_rep [OF rep] res_bind_assoc)
  also have "\<dots> = Inr (?is, True)" by (simp add: intsetRemove_place [OF rep rm(3)])
  finally have "intsetRemove junk is v = Inr (?is, v \<in> set xs)" using True by simp
  moreover have "length ?ys = length xs - 1" using rm(3) by simp
  then have "intset_rep ?is ?ys"
    using e rm by (auto simp: intset_rep_def of_nat_diff)
  ultimately show ?thesis using rm(2) by (intro exI [of _ ?is] exI [of _ ?ys]) simp
qed

subsection \<open>Validation\<close>

lemma validateLoop_rep:
  assumes rep: "intset_enc (is_encoding is)"
    and get: "\<And>j. j < n \<Longrightarrow> intsetGetAt is (int j) = Inr (xs ! j)"
  shows "0 < i \<Longrightarrow> i + k = n \<Longrightarrow> prev = xs ! (i - 1) \<Longrightarrow>
    validateLoop is k i prev = Inr (\<forall>j. i \<le> j \<and> j < n \<longrightarrow> xs ! (j - 1) < xs ! j)"
proof (induction k arbitrary: i prev)
  case 0
  then show ?case by auto
next
  case (Suc k)
  have "validateLoop is (Suc k) i prev =
    (if xs ! i \<le> xs ! (i - 1) then Inr False else validateLoop is k (Suc i) (xs ! i))"
    using get [of i] Suc.prems by simp
  also have "\<dots> = Inr (xs ! (i - 1) < xs ! i \<and> (\<forall>j. Suc i \<le> j \<and> j < n \<longrightarrow> xs ! (j - 1) < xs ! j))"
    using Suc.IH [of "Suc i" "xs ! i"] Suc.prems by (auto simp: not_le)
  also have "(xs ! (i - 1) < xs ! i \<and> (\<forall>j. Suc i \<le> j \<and> j < n \<longrightarrow> xs ! (j - 1) < xs ! j)) \<longleftrightarrow>
    (\<forall>j. i \<le> j \<and> j < n \<longrightarrow> xs ! (j - 1) < xs ! j)"
    using Suc.prems by (metis Suc_leD Suc_leI add_Suc_right le_add1 le_neq_implies_less less_add_Suc1 not_less_eq_eq)
  finally show ?case .
qed

text \<open>The records of any contents whose length is a multiple of the width.\<close>

lemma intsetGetAt_chunk:
  assumes "intset_enc (is_encoding is)" "length (is_contents is) = enc_width (is_encoding is) * n" "j < n"
  shows "intsetGetAt is (int j) =
    Inr (le_sval (take (enc_width (is_encoding is)) (drop (enc_width (is_encoding is) * j) (is_contents is))))"
proof -
  let ?w = "enc_width (is_encoding is)"
  have "?w * Suc j \<le> ?w * n" using assms(3) by (intro mult_le_mono2) simp
  then have "rdn (is_contents is) (int (?w * j)) ?w = Inr (take ?w (drop (?w * j) (is_contents is)))"
    using assms(2) by (intro rdn_nat) simp
  then show ?thesis by (simp add: intsetGetAt_def intsetGetEncoded_enc [OF assms(1)])
qed

lemma sorted_wrt_less_iff_adjacent:
  "sorted_wrt (<) xs \<longleftrightarrow> (\<forall>j. 1 \<le> j \<and> j < length xs \<longrightarrow> xs ! (j - 1) < xs ! j)" for xs :: "int list"
proof -
  have "(\<forall>i. Suc i < length xs \<longrightarrow> xs ! i < xs ! Suc i) \<longleftrightarrow>
    (\<forall>j. 1 \<le> j \<and> j < length xs \<longrightarrow> xs ! (j - 1) < xs ! j)" (is "?l \<longleftrightarrow> ?r")
  proof
    assume ?l
    then show ?r by (metis One_nat_def Suc_le_D diff_Suc_1)
  next
    assume r: ?r
    show ?l using r [rule_format, of "Suc i" for i] by simp
  qed
  then show ?thesis by (simp add: sorted_wrt_iff_nth_Suc_transp)
qed

lemma intset_rep_iff_chunks:
  assumes e: "intset_enc (is_encoding is)" and n: "is_length is = of_nat n" "n < 2 ^ 29"
    and len: "length (is_contents is) = enc_width (is_encoding is) * n"
    and xs: "xs = map (\<lambda>i. le_sval (take (enc_width (is_encoding is))
      (drop (enc_width (is_encoding is) * i) (is_contents is)))) [0..<n]"
  shows "(\<exists>ys. intset_rep is ys) \<longleftrightarrow> sorted_wrt (<) xs"
proof -
  let ?w = "enc_width (is_encoding is)"
  have c: "is_contents is = records ?w xs" unfolding xs using len by (rule records_of_chunks)
  have "in_width ?w (xs ! i)" if "i < n" for i
  proof -
    have "?w * Suc i \<le> ?w * n" using that by (intro mult_le_mono2) simp
    then have "length (take ?w (drop (?w * i) (is_contents is))) = ?w" using len by simp
    then show ?thesis
      using le_sval_bounds [of "take ?w (drop (?w * i) (is_contents is))"] enc_width_cases [of "is_encoding is"] that
      by (auto simp: xs in_width_def)
  qed
  then have fits: "\<forall>x\<in>set xs. in_width ?w x" by (auto simp: xs)
  have lx: "length xs = n" by (simp add: xs)
  have rx: "intset_rep is xs \<longleftrightarrow> sorted_wrt (<) xs"
    unfolding intset_rep_def using e n fits lx c by blast
  have "ys = xs" if rep: "intset_rep is ys" for ys
  proof (rule nth_equalityI)
    show l: "length ys = length xs"
      using rep n by (auto simp: intset_rep_def xs word_unat_eq_iff unat_of_nat)
    show "ys ! i = xs ! i" if "i < length ys" for i
      using intsetGetAt_rep [OF rep that] intsetGetAt_chunk [OF e len, of i] that l by (simp add: xs)
  qed
  then show ?thesis using rx by blast
qed

lemma intsetValidateIntegrity_deep:
  assumes "length p < 2 ^ 30"
  shows "intsetValidateIntegrity p True =
    Inr (8 \<le> length p \<and> (\<exists>xs. xs \<noteq> [] \<and> intset_rep (intset_of_blob p) xs))"
proof -
  let ?is = "intset_of_blob p"
  let ?w = "enc_width (is_encoding ?is)" and ?n = "unat (is_length ?is)"
  have size: "(of_nat (length p) :: u64) < 8 \<longleftrightarrow> length p < 8"
    using assms by (simp add: word_less_nat_alt unat_of_nat)
  have contents: "length (is_contents ?is) = length p - 8" by (simp add: intset_of_blob_def)
  show ?thesis
  proof (cases "length p < 8 \<or> \<not> intset_enc (is_encoding ?is)")
    case True
    then show ?thesis using size
      by (auto simp: intsetValidateIntegrity_def Let_def intset_rep_def intset_enc_def)
  next
    case False
    then have p8: "8 \<le> length p" and e: "intset_enc (is_encoding ?is)" by auto
    have sum: "8 + ucast (is_length ?is) * ucast (is_encoding ?is) = (of_nat (8 + ?n * ?w) :: u64)"
    proof -
      have "(of_nat ?w :: u64) = ucast (is_encoding ?is)" using unat_enc [OF e] by (metis of_nat_unat)
      moreover have "(of_nat ?n :: u64) = ucast (is_length ?is)" by simp
      ultimately show ?thesis by (simp only: of_nat_add of_nat_mult of_nat_numeral)
    qed
    have "?n * ?w < 2 ^ 32 * 9"
      using unat_u32_less [of "is_length ?is"] enc_width_cases [of "is_encoding ?is"] by auto
    then have "8 + ucast (is_length ?is) * ucast (is_encoding ?is) = (of_nat (length p) :: u64) \<longleftrightarrow>
      8 + ?n * ?w = length p"
      unfolding sum using assms by (intro of_nat_u64_eq_iff) simp_all
    then have sz: "8 + ucast (is_length ?is) * ucast (is_encoding ?is) = (of_nat (length p) :: u64) \<longleftrightarrow>
      length (is_contents ?is) = ?w * ?n"
      using p8 contents by (auto simp: mult.commute)
    have n0: "is_length ?is = 0 \<longleftrightarrow> ?n = 0" by (simp add: unat_eq_0)
    have unf: "intsetValidateIntegrity p True =
      (if length (is_contents ?is) \<noteq> ?w * ?n then Inr False else if ?n = 0 then Inr False
       else res_bind (intsetGetAt ?is 0) (\<lambda>prev. validateLoop ?is (?n - 1) 1 prev))"
      using p8 e size sz n0 by (auto simp: intsetValidateIntegrity_def Let_def intset_enc_def)
    show ?thesis
    proof (cases "length (is_contents ?is) = ?w * ?n \<and> ?n \<noteq> 0")
      case True
      define xs where "xs = map (\<lambda>i. le_sval (take ?w (drop (?w * i) (is_contents ?is)))) [0..<?n]"
      have get: "\<And>j. j < ?n \<Longrightarrow> intsetGetAt ?is (int j) = Inr (xs ! j)"
        using intsetGetAt_chunk [OF e True [THEN conjunct1]] by (simp add: xs_def)
      have lx: "length xs = ?n" by (simp add: xs_def)
      have n29: "?n < 2 ^ 29" using True contents assms enc_width_cases [of "is_encoding ?is"] by auto
      have "intsetValidateIntegrity p True = Inr (\<forall>j. 1 \<le> j \<and> j < ?n \<longrightarrow> xs ! (j - 1) < xs ! j)"
        using unf True get [of 0] validateLoop_rep [OF e get, where i = 1 and k = "?n - 1" and prev = "xs ! 0"] by simp
      also have "(\<forall>j. 1 \<le> j \<and> j < ?n \<longrightarrow> xs ! (j - 1) < xs ! j) \<longleftrightarrow> (\<exists>ys. intset_rep ?is ys)"
        using intset_rep_iff_chunks [OF e, of ?n xs] True n29 lx
        by (simp add: xs_def [symmetric] sorted_wrt_less_iff_adjacent)
      also have "\<dots> \<longleftrightarrow> (\<exists>ys. ys \<noteq> [] \<and> intset_rep ?is ys)"
      proof -
        have "ys \<noteq> []" if "intset_rep ?is ys" for ys using that True by (auto simp: intset_rep_def)
        then show ?thesis by blast
      qed
      finally show ?thesis using p8 by simp
    next
      case False
      then have "\<not> (\<exists>ys. ys \<noteq> [] \<and> intset_rep ?is ys)"
        by (auto simp: intset_rep_def unat_of_nat)
      then show ?thesis using unf False by auto
    qed
  qed
qed

section \<open>The set an intset implements\<close>

definition intset_srep :: "intset \<Rightarrow> int set \<Rightarrow> bool" where
  "intset_srep is A \<longleftrightarrow> (\<exists>xs. intset_rep is xs \<and> set xs = A)"

lemma intset_rep_card: "intset_rep is xs \<Longrightarrow> card (set xs) = length xs"
  unfolding intset_rep_def using distinct_card sorted_wrt_less_sum_mono_lowerbound
  by (metis strict_sorted_iff)

definition intsetFindS :: "intset \<Rightarrow> int \<Rightarrow> (intset \<times> bool) result" where
  "intsetFindS is v = res_bind (intsetFind is v) (\<lambda>b. Inr (is, b))"

interpretation ints: element_set intset_srep "intsetAdd junk" "intsetRemove junk" intsetFindS int64 "2 ^ 29 - 2"
proof (unfold_locales, goal_cases)
  case (1 s A)
  then show ?case by (auto simp: intset_srep_def)
next
  case (2 s A e)
  then obtain xs where xs: "intset_rep s xs" "set xs = A" by (auto simp: intset_srep_def)
  then have "Suc (length xs) < 2 ^ 29" using 2 intset_rep_card [OF xs(1)] by simp
  then show ?case using intsetAdd_rep [OF xs(1) 2(2)] xs(2) by (fastforce simp: intset_srep_def)
next
  case (3 s A e)
  then show ?case using intsetRemove_rep by (fastforce simp: intset_srep_def)
next
  case (4 s A e)
  then show ?case using intsetFind_rep by (auto simp: intset_srep_def intsetFindS_def)
qed

section \<open>Properties\<close>

text \<open>
  C5: An intset behaves as a set of 64 bit integers: a sequence of additions, removals and
  membership tests on a new intset runs without leaving its buffer or tripping an assertion,
  whatever the allocator leaves in grown blocks, and gives the replies and the final set of the
  mathematical set. This covers the upgrades of the encoding in between.
\<close>

theorem intset_implements_set:
  assumes "\<forall>op\<in>set ops. int64 (op_elem op)" "length ops \<le> 2 ^ 29 - 2"
  shows "\<exists>is xs. run_set_ops (intsetAdd junk) (intsetRemove junk) intsetFindS intsetNew ops =
      Inr (is, snd (spec_set_ops {} ops)) \<and>
    intset_rep is xs \<and> set xs = fst (spec_set_ops {} ops)"
proof -
  have "intset_srep intsetNew {}" using intset_rep_new by (auto simp: intset_srep_def)
  then show ?thesis using ints.run_set_ops_spec [of intsetNew "{}" ops junk] assms
    by (auto simp: intset_srep_def)
qed

theorem intset_implements_set_witness:
  "\<exists>is xs. run_set_ops (intsetAdd (\<lambda>_. 7)) (intsetRemove (\<lambda>_. 7)) intsetFindS intsetNew
      [SAdd 5, SAdd (- 70000), SAdd 5, SRemove 9, SFind (2 ^ 40)] = Inr (is, [True, True, False, False, False]) \<and>
    intset_rep is xs \<and> set xs = {5, - 70000}"
  using intset_implements_set [of "[SAdd 5, SAdd (- 70000), SAdd 5, SRemove 9, SFind (2 ^ 40)]" "\<lambda>_. 7"]
  by (simp add: int64_def Let_def insert_commute)

text \<open>
  C22: Adding to an intset keeps its invariant (the elements in strictly increasing order, each
  within the width of the encoding, the buffer exactly their records) and leaves the encoding
  at the wider of the old one and the one the value needs.
\<close>

theorem intset_add_invariant:
  assumes "intset_rep is xs" "int64 v" "Suc (length xs) < 2 ^ 29"
  shows "\<exists>is' ys. intsetAdd junk is v = Inr (is', v \<notin> set xs) \<and> intset_rep is' ys \<and>
    set ys = insert v (set xs) \<and> is_encoding is' = max (is_encoding is) (intsetValueEncoding v)"
  using assms by (rule intsetAdd_rep)

theorem intset_add_invariant_witness:
  "\<exists>is' ys. intsetAdd (\<lambda>_. 0) intsetNew 70000 = Inr (is', True) \<and> intset_rep is' ys \<and>
    set ys = {70000} \<and> is_encoding is' = 4"
  using intset_add_invariant [OF intset_rep_new, of 70000 "\<lambda>_. 0"]
  by (simp add: int64_def intsetNew_def intsetValueEncoding_def max_def)





end
