(* ===== verification/Dict.thy ===== *)
theory Dict
  imports Prelude "HOL-Library.Multiset"
begin

text \<open>
  The chained hash table of \<^verbatim>\<open>dict.c\<close> and \<^verbatim>\<open>dict.h\<close>: two tables of power of two size, the
  incremental rehashing between them, resizing, insertion, lookup, deletion, two phase deletion
  and emptying.

  A bucket is the list of the entries of its chain, from the bucket on. A \<^verbatim>\<open>dictEntry\<close> pointer
  is tagged in its low bits: it points to an entry with a value, to an entry without one, or is
  the key itself, which then has no \<^verbatim>\<open>next\<close> field. The three forms are the constructors of
  \<open>dictEntry\<close>. A NULL table is the empty list. A \<^verbatim>\<open>dictEntryLink\<close>, the address of a pointer to an
  entry, is the triple of its table, bucket and position in the chain.

  The callbacks of a \<^verbatim>\<open>dictType\<close> that compute are fields of \<open>dictType\<close>; a NULL duplicator or key
  extractor is the identity. The callbacks that notify
  (\<^verbatim>\<open>rehashingStarted\<close>, \<^verbatim>\<open>rehashingCompleted\<close>, \<^verbatim>\<open>bucketChanged\<close>) append to the trace of the
  dict. The destructors and \<^verbatim>\<open>zfree\<close> only release memory and are left out. The numbers of entries
  are unbounded: an entry takes memory, so an \<^verbatim>\<open>unsigned long\<close> cannot overflow by counting them.
\<close>

section \<open>Data\<close>

datatype ('s, 'v) dictEntry = NormalEntry 's 'v | NoValueEntry 's | KeyEntry 's

datatype dictResizeEnable = DICT_RESIZE_ENABLE | DICT_RESIZE_AVOID | DICT_RESIZE_FORBID

text \<open>\<open>resizeAllowed\<close> gets the double \<^verbatim>\<open>used / size\<close> as the pair of the two numbers.\<close>

record ('s, 'k, 'v) dictType =
  hashFunction :: "'k \<Rightarrow> u64"
  keyCompare :: "'k \<Rightarrow> 'k \<Rightarrow> bool"
  keyFromStoredKey :: "'s \<Rightarrow> 'k"
  keyDup :: "'s \<Rightarrow> 's"
  valDup :: "'v \<Rightarrow> 'v"
  resizeAllowed :: "nat \<Rightarrow> nat \<times> nat \<Rightarrow> bool"
  no_value :: bool
  force_full_rehash :: bool

datatype dict_event = RehashingStarted nat nat | RehashingCompleted nat nat | BucketChanged int

record ('s, 'v) dictht =
  ht_table :: "('s, 'v) dictEntry list list"
  ht_used :: nat
  ht_size_exp :: int

record ('s, 'v) dict =
  ht0 :: "('s, 'v) dictht"
  ht1 :: "('s, 'v) dictht"
  rehashidx :: int
  pauserehash :: nat
  pauseAutoResize :: int
  d_trace :: "dict_event list"

type_synonym dictEntryLink = "nat \<times> nat \<times> nat"

definition DICTHT_SIZE :: "int \<Rightarrow> nat" where
  "DICTHT_SIZE exp = (if exp = -1 then 0 else 2 ^ nat exp)"

definition DICTHT_SIZE_MASK :: "int \<Rightarrow> u64" where
  "DICTHT_SIZE_MASK exp = (if exp = -1 then 0 else push_bit (nat exp) 1 - 1)"

definition dict_ht :: "('s, 'v) dict \<Rightarrow> nat \<Rightarrow> ('s, 'v) dictht" where
  "dict_ht d t = (if t = 0 then ht0 d else ht1 d)"

definition set_ht :: "('s, 'v) dict \<Rightarrow> nat \<Rightarrow> ('s, 'v) dictht \<Rightarrow> ('s, 'v) dict" where
  "set_ht d t h = (if t = 0 then d\<lparr>ht0 := h\<rparr> else d\<lparr>ht1 := h\<rparr>)"

definition dictSize :: "('s, 'v) dict \<Rightarrow> nat" where
  "dictSize d = ht_used (ht0 d) + ht_used (ht1 d)"

definition dictBuckets :: "('s, 'v) dict \<Rightarrow> nat" where
  "dictBuckets d = DICTHT_SIZE (ht_size_exp (ht0 d)) + DICTHT_SIZE (ht_size_exp (ht1 d))"

definition dictIsRehashing :: "('s, 'v) dict \<Rightarrow> bool" where
  "dictIsRehashing d \<longleftrightarrow> rehashidx d \<noteq> -1"

text \<open>An \<^verbatim>\<open>unsigned long\<close> decrement.\<close>

definition ul_dec :: "nat \<Rightarrow> nat" where
  "ul_dec n = (if n = 0 then 2 ^ 64 - 1 else n - 1)"

section \<open>Entries\<close>

fun entryIsKey :: "('s, 'v) dictEntry \<Rightarrow> bool" where
  "entryIsKey (KeyEntry _) = True"
| "entryIsKey _ = False"

fun entryHasValue :: "('s, 'v) dictEntry \<Rightarrow> bool" where
  "entryHasValue (NormalEntry _ _) = True"
| "entryHasValue _ = False"

fun dictGetKey :: "('s, 'v) dictEntry \<Rightarrow> 's" where
  "dictGetKey (NormalEntry k _) = k"
| "dictGetKey (NoValueEntry k) = k"
| "dictGetKey (KeyEntry k) = k"

fun dictGetVal :: "('s, 'v) dictEntry \<Rightarrow> 'v result" where
  "dictGetVal (NormalEntry _ v) = Inr v"
| "dictGetVal _ = Inl AssertFailed"

text \<open>\<open>dictGetNext de rest\<close> is the \<^verbatim>\<open>next\<close> chain of the entry \<open>de\<close> that \<open>rest\<close> follows.\<close>

definition dictGetNext :: "('s, 'v) dictEntry \<Rightarrow> ('s, 'v) dictEntry list \<Rightarrow> ('s, 'v) dictEntry list" where
  "dictGetNext de rest = (if entryIsKey de then [] else rest)"

definition dictSetNext :: "('s, 'v) dictEntry \<Rightarrow> ('s, 'v) dictEntry list \<Rightarrow> ('s, 'v) dictEntry list result" where
  "dictSetNext de nxt = res_bind (res_assert (\<not> entryIsKey de)) (\<lambda>_. Inr (de # nxt))"

definition dictSetVal :: "('s, 'k, 'v) dictType \<Rightarrow> ('s, 'v) dictEntry \<Rightarrow> 'v \<Rightarrow> ('s, 'v) dictEntry result" where
  "dictSetVal ty de val =
     res_bind (res_assert (entryHasValue de)) (\<lambda>_. Inr (NormalEntry (dictGetKey de) (valDup ty val)))"

definition key_eq :: "('s, 'k, 'v) dictType \<Rightarrow> 'k \<Rightarrow> 'k \<Rightarrow> bool" where
  "key_eq ty k k' \<longleftrightarrow> k = k' \<or> keyCompare ty k k'"

definition entry_key :: "('s, 'k, 'v) dictType \<Rightarrow> ('s, 'v) dictEntry \<Rightarrow> 'k" where
  "entry_key ty de = keyFromStoredKey ty (dictGetKey de)"

definition dictBucket :: "u64 \<Rightarrow> int \<Rightarrow> nat" where
  "dictBucket hash exp = unat (hash AND DICTHT_SIZE_MASK exp)"

section \<open>Creation\<close>

definition dictht_null :: "('s, 'v) dictht" where
  "dictht_null = \<lparr>ht_table = [], ht_used = 0, ht_size_exp = -1\<rparr>"

definition dictReset :: "('s, 'v) dict \<Rightarrow> nat \<Rightarrow> ('s, 'v) dict" where
  "dictReset d htidx = set_ht d htidx dictht_null"

definition dictCreate :: "('s, 'v) dict" where
  "dictCreate =
     \<lparr>ht0 = dictht_null, ht1 = dictht_null, rehashidx = -1, pauserehash = 0, pauseAutoResize = 0,
      d_trace = []\<rparr>"

definition trace_event :: "dict_event \<Rightarrow> ('s, 'v) dict \<Rightarrow> ('s, 'v) dict" where
  "trace_event e d = d\<lparr>d_trace := d_trace d @ [e]\<rparr>"

section \<open>Rehashing\<close>

definition rehash_target ::
  "('s, 'k, 'v) dictType \<Rightarrow> ('s, 'v) dict \<Rightarrow> nat \<Rightarrow> ('s, 'v) dictEntry \<Rightarrow> nat" where
  "rehash_target ty d idx de =
     (if ht_size_exp (ht1 d) > ht_size_exp (ht0 d)
      then dictBucket (hashFunction ty (entry_key ty de)) (ht_size_exp (ht1 d))
      else dictBucket (of_nat idx) (ht_size_exp (ht1 d)))"

fun rehashEntriesLoop ::
  "('s, 'k, 'v) dictType \<Rightarrow> nat \<Rightarrow> ('s, 'v) dictEntry list \<Rightarrow> ('s, 'v) dict \<Rightarrow> ('s, 'v) dict result" where
  "rehashEntriesLoop ty idx [] d = Inr d"
| "rehashEntriesLoop ty idx (de # rest) d =
     (let h = rehash_target ty d idx de in
      res_bind (rd (ht_table (ht1 d)) (int h)) (\<lambda>bucket.
      res_bind (if no_value ty then
                  if bucket = [] then Inr [KeyEntry (dictGetKey de)]
                  else if entryIsKey de then Inr (NoValueEntry (dictGetKey de) # bucket)
                  else dictSetNext de bucket
                else dictSetNext de bucket) (\<lambda>chain.
      res_bind (wr (ht_table (ht1 d)) (int h) chain) (\<lambda>tbl.
      rehashEntriesLoop ty idx (if entryIsKey de then [] else rest)
        (d\<lparr>ht0 := (ht0 d)\<lparr>ht_used := ul_dec (ht_used (ht0 d))\<rparr>,
           ht1 := (ht1 d)\<lparr>ht_table := tbl, ht_used := ht_used (ht1 d) + 1\<rparr>\<rparr>)))))"

definition rehashEntriesInBucketAtIndex ::
  "('s, 'k, 'v) dictType \<Rightarrow> ('s, 'v) dict \<Rightarrow> int \<Rightarrow> ('s, 'v) dict result" where
  "rehashEntriesInBucketAtIndex ty d idx =
     res_bind (rd (ht_table (ht0 d)) idx) (\<lambda>chain.
     res_bind (rehashEntriesLoop ty (nat idx) chain d) (\<lambda>d'.
     res_bind (wr (ht_table (ht0 d')) idx []) (\<lambda>tbl.
     Inr (d'\<lparr>ht0 := (ht0 d')\<lparr>ht_table := tbl\<rparr>\<rparr>))))"

definition dictCheckRehashingCompleted :: "('s, 'v) dict \<Rightarrow> ('s, 'v) dict \<times> bool" where
  "dictCheckRehashingCompleted d =
     (if ht_used (ht0 d) \<noteq> 0 then (d, False)
      else
        let s0 = DICTHT_SIZE (ht_size_exp (ht0 d));
            d = trace_event (RehashingCompleted s0 (DICTHT_SIZE (ht_size_exp (ht1 d)))) d;
            d = trace_event (BucketChanged (- int s0)) d;
            d = d\<lparr>ht0 := ht1 d\<rparr>;
            d = dictReset d 1
        in (d\<lparr>rehashidx := -1\<rparr>, True))"

text \<open>
  The inner loop of \<^verbatim>\<open>dictRehash\<close> over the empty buckets: the new index, the visits left and whether
  the visits ran out.
\<close>

function skipEmptyLoop :: "'e list list \<Rightarrow> int \<Rightarrow> int \<Rightarrow> (int \<times> int \<times> bool) result" where
  "skipEmptyLoop tbl idx empty_visits =
     (if 0 \<le> idx \<and> idx < int (length tbl) then
        if tbl ! nat idx \<noteq> [] then Inr (idx, empty_visits, False)
        else if empty_visits - 1 = 0 then Inr (idx + 1, empty_visits - 1, True)
        else skipEmptyLoop tbl (idx + 1) (empty_visits - 1)
      else Inl OutOfBounds)"
  by auto
termination by (relation "measure (\<lambda>(tbl, idx, _). nat (int (length tbl) - idx))") auto

declare skipEmptyLoop.simps [simp del]

fun rehashStepsLoop ::
  "('s, 'k, 'v) dictType \<Rightarrow> nat \<Rightarrow> int \<Rightarrow> ('s, 'v) dict \<Rightarrow> (('s, 'v) dict \<times> bool) result" where
  "rehashStepsLoop ty 0 empty_visits d = Inr (d, False)"
| "rehashStepsLoop ty (Suc n) empty_visits d =
     (if ht_used (ht0 d) = 0 then Inr (d, False)
      else
        res_bind (res_assert (0 \<le> rehashidx d \<and> rehashidx d < int (DICTHT_SIZE (ht_size_exp (ht0 d))))) (\<lambda>_.
        res_bind (skipEmptyLoop (ht_table (ht0 d)) (rehashidx d) empty_visits) (\<lambda>(idx, ev, stop).
        let d = d\<lparr>rehashidx := idx\<rparr> in
        if stop then Inr (d, True)
        else res_bind (rehashEntriesInBucketAtIndex ty d idx) (\<lambda>d.
             rehashStepsLoop ty n ev (d\<lparr>rehashidx := idx + 1\<rparr>)))))"

abbreviation dict_force_resize_ratio :: nat where "dict_force_resize_ratio \<equiv> 4"
abbreviation HASHTABLE_MIN_FILL :: nat where "HASHTABLE_MIN_FILL \<equiv> 8"
abbreviation DICT_HT_INITIAL_EXP :: int where "DICT_HT_INITIAL_EXP \<equiv> 2"
abbreviation DICT_HT_INITIAL_SIZE :: nat where "DICT_HT_INITIAL_SIZE \<equiv> 4"

definition rehash_forbidden :: "dictResizeEnable \<Rightarrow> ('s, 'v) dict \<Rightarrow> bool" where
  "rehash_forbidden cr d =
     (let s0 = DICTHT_SIZE (ht_size_exp (ht0 d)); s1 = DICTHT_SIZE (ht_size_exp (ht1 d)) in
      cr = DICT_RESIZE_FORBID \<or> \<not> dictIsRehashing d \<or>
      cr = DICT_RESIZE_AVOID \<and>
        (s1 > s0 \<and> s1 < dict_force_resize_ratio * s0 \<or>
         s1 < s0 \<and> s0 < HASHTABLE_MIN_FILL * dict_force_resize_ratio * s1))"

definition dictRehash ::
  "dictResizeEnable \<Rightarrow> ('s, 'k, 'v) dictType \<Rightarrow> ('s, 'v) dict \<Rightarrow> nat \<Rightarrow> (('s, 'v) dict \<times> bool) result" where
  "dictRehash cr ty d n =
     (if rehash_forbidden cr d then Inr (d, False)
      else res_bind (rehashStepsLoop ty n (int n * 10) d) (\<lambda>(d, stop).
        if stop then Inr (d, True)
        else let (d, completed) = dictCheckRehashingCompleted d in Inr (d, \<not> completed)))"

definition dictRehashStep ::
  "dictResizeEnable \<Rightarrow> ('s, 'k, 'v) dictType \<Rightarrow> ('s, 'v) dict \<Rightarrow> ('s, 'v) dict result" where
  "dictRehashStep cr ty d =
     (if pauserehash d = 0 then res_bind (dictRehash cr ty d 1) (\<lambda>(d, _). Inr d) else Inr d)"

definition dictBucketRehash ::
  "dictResizeEnable \<Rightarrow> ('s, 'k, 'v) dictType \<Rightarrow> ('s, 'v) dict \<Rightarrow> nat \<Rightarrow> (('s, 'v) dict \<times> bool) result" where
  "dictBucketRehash cr ty d idx =
     (if pauserehash d \<noteq> 0 then Inr (d, False)
      else if rehash_forbidden cr d then Inr (d, False)
      else res_bind (rehashEntriesInBucketAtIndex ty d (int idx)) (\<lambda>d.
        Inr (fst (dictCheckRehashingCompleted d), True)))"

definition dictRehashStepIfNeeded ::
  "dictResizeEnable \<Rightarrow> ('s, 'k, 'v) dictType \<Rightarrow> ('s, 'v) dict \<Rightarrow> nat \<Rightarrow> ('s, 'v) dict result" where
  "dictRehashStepIfNeeded cr ty d visitedIdx =
     (if \<not> dictIsRehashing d \<or> pauserehash d \<noteq> 0 then Inr d
      else
        res_bind (if int visitedIdx \<ge> rehashidx d
                  then res_bind (rd (ht_table (ht0 d)) (int visitedIdx)) (\<lambda>c. Inr (c \<noteq> []))
                  else Inr False) (\<lambda>hit.
        if hit then res_bind (dictBucketRehash cr ty d visitedIdx) (\<lambda>(d, _). Inr d)
        else res_bind (dictRehash cr ty d 1) (\<lambda>(d, _). Inr d)))"

text \<open>
  \<^verbatim>\<open>dictRehashMicroseconds\<close> reads the clock after every hundred steps; \<open>timeout i\<close> says whether the
  time is up after round \<open>i\<close>. The loop ends without the clock: every round that returns 1 moves
  \<^verbatim>\<open>rehashidx\<close>, which the table bounds, hence the fuel.
\<close>

fun rehashMicrosecondsLoop ::
  "nat \<Rightarrow> dictResizeEnable \<Rightarrow> ('s, 'k, 'v) dictType \<Rightarrow> (nat \<Rightarrow> bool) \<Rightarrow> nat \<Rightarrow> ('s, 'v) dict \<Rightarrow>
   (('s, 'v) dict \<times> nat) result" where
  "rehashMicrosecondsLoop 0 cr ty timeout i d = Inl Diverges"
| "rehashMicrosecondsLoop (Suc fuel) cr ty timeout i d =
     res_bind (dictRehash cr ty d 100) (\<lambda>(d, more).
     if \<not> more then Inr (d, 100 * i)
     else if timeout i then Inr (d, 100 * (i + 1))
     else rehashMicrosecondsLoop fuel cr ty timeout (i + 1) d)"

definition dictRehashMicroseconds ::
  "dictResizeEnable \<Rightarrow> ('s, 'k, 'v) dictType \<Rightarrow> (nat \<Rightarrow> bool) \<Rightarrow> ('s, 'v) dict \<Rightarrow> (('s, 'v) dict \<times> nat) result" where
  "dictRehashMicroseconds cr ty timeout d =
     (if pauserehash d > 0 then Inr (d, 0)
      else rehashMicrosecondsLoop (Suc (length (ht_table (ht0 d)))) cr ty timeout 0 d)"

section \<open>Resizing\<close>

text \<open>The number of significant bits; \<^verbatim>\<open>__builtin_clzl x\<close> is 64 less that, for \<open>x\<close> not 0.\<close>

fun bit_len :: "nat \<Rightarrow> nat" where
  "bit_len n = (if n = 0 then 0 else Suc (bit_len (n div 2)))"

declare bit_len.simps [simp del]

definition clzl :: "nat \<Rightarrow> int" where
  "clzl x = 64 - int (bit_len x)"

abbreviation LONG_MAX :: nat where "LONG_MAX \<equiv> 2 ^ 63 - 1"

definition dictNextExp :: "nat \<Rightarrow> int" where
  "dictNextExp sz =
     (if sz \<le> DICT_HT_INITIAL_SIZE then DICT_HT_INITIAL_EXP
      else if sz \<ge> LONG_MAX then 63
      else 64 - clzl (sz - 1))"

fun forceRehashLoop ::
  "nat \<Rightarrow> dictResizeEnable \<Rightarrow> ('s, 'k, 'v) dictType \<Rightarrow> ('s, 'v) dict \<Rightarrow> ('s, 'v) dict result" where
  "forceRehashLoop 0 cr ty d = Inl Diverges"
| "forceRehashLoop (Suc fuel) cr ty d =
     res_bind (dictRehash cr ty d 1000) (\<lambda>(d, more).
     if more then forceRehashLoop fuel cr ty d else Inr d)"

text \<open>
  \<open>ztrycalloc = None\<close> is a NULL \<^verbatim>\<open>malloc_failed\<close>; otherwise it says which requests the allocator
  serves. The results are the dict, whether the resize was performed and \<^verbatim>\<open>*malloc_failed\<close>.
\<close>

definition dictResize ::
  "dictResizeEnable \<Rightarrow> ('s, 'k, 'v) dictType \<Rightarrow> ('s, 'v) dict \<Rightarrow> nat \<Rightarrow> (nat \<Rightarrow> bool) option \<Rightarrow>
   (('s, 'v) dict \<times> bool \<times> bool) result" where
  "dictResize cr ty d sz ztrycalloc =
     res_bind (res_assert (\<not> dictIsRehashing d)) (\<lambda>_.
     let new_ht_size_exp = dictNextExp sz; newsize = DICTHT_SIZE new_ht_size_exp in
     if newsize < sz \<or> newsize * 8 mod 2 ^ 64 < newsize then Inr (d, False, False)
     else if new_ht_size_exp = ht_size_exp (ht0 d) then Inr (d, False, False)
     else if (case ztrycalloc of None \<Rightarrow> False | Some ok \<Rightarrow> \<not> ok (newsize * 8)) then Inr (d, False, True)
     else
       let new = \<lparr>ht_table = replicate newsize [], ht_used = 0, ht_size_exp = new_ht_size_exp\<rparr>;
           d = d\<lparr>ht1 := new, rehashidx := 0\<rparr>;
           s0 = DICTHT_SIZE (ht_size_exp (ht0 d));
           d = trace_event (RehashingStarted s0 newsize) d;
           d = trace_event (BucketChanged (int newsize)) d
       in
       if ht_table (ht0 d) = [] \<or> ht_used (ht0 d) = 0 then
         let d = trace_event (RehashingCompleted s0 newsize) d;
             d = trace_event (BucketChanged (- int s0)) d;
             d = dictReset (d\<lparr>ht0 := new\<rparr>) 1
         in Inr (d\<lparr>rehashidx := -1\<rparr>, True, False)
       else if force_full_rehash ty then
         res_bind (forceRehashLoop (Suc (length (ht_table (ht0 d)))) cr ty d) (\<lambda>d. Inr (d, True, False))
       else Inr (d, True, False))"

definition dictExpandGen ::
  "dictResizeEnable \<Rightarrow> ('s, 'k, 'v) dictType \<Rightarrow> ('s, 'v) dict \<Rightarrow> nat \<Rightarrow> (nat \<Rightarrow> bool) option \<Rightarrow>
   (('s, 'v) dict \<times> bool \<times> bool) result" where
  "dictExpandGen cr ty d sz ztrycalloc =
     (if dictIsRehashing d \<or> ht_used (ht0 d) > sz \<or> DICTHT_SIZE (ht_size_exp (ht0 d)) \<ge> sz
      then Inr (d, False, False)
      else dictResize cr ty d sz ztrycalloc)"

definition dictExpand ::
  "dictResizeEnable \<Rightarrow> ('s, 'k, 'v) dictType \<Rightarrow> ('s, 'v) dict \<Rightarrow> nat \<Rightarrow> (('s, 'v) dict \<times> bool) result" where
  "dictExpand cr ty d sz = res_bind (dictExpandGen cr ty d sz None) (\<lambda>(d, ok, _). Inr (d, ok))"

definition dictTryExpand ::
  "dictResizeEnable \<Rightarrow> ('s, 'k, 'v) dictType \<Rightarrow> ('s, 'v) dict \<Rightarrow> nat \<Rightarrow> (nat \<Rightarrow> bool) \<Rightarrow>
   (('s, 'v) dict \<times> bool) result" where
  "dictTryExpand cr ty d sz ztrycalloc =
     res_bind (dictExpandGen cr ty d sz (Some ztrycalloc)) (\<lambda>(d, _, malloc_failed). Inr (d, \<not> malloc_failed))"

definition dictShrink ::
  "dictResizeEnable \<Rightarrow> ('s, 'k, 'v) dictType \<Rightarrow> ('s, 'v) dict \<Rightarrow> nat \<Rightarrow> (('s, 'v) dict \<times> bool) result" where
  "dictShrink cr ty d sz =
     (if dictIsRehashing d \<or> ht_used (ht0 d) > sz \<or> DICTHT_SIZE (ht_size_exp (ht0 d)) \<le> sz
      then Inr (d, False)
      else res_bind (dictResize cr ty d sz None) (\<lambda>(d, ok, _). Inr (d, ok)))"

definition dictTypeResizeAllowed :: "('s, 'k, 'v) dictType \<Rightarrow> ('s, 'v) dict \<Rightarrow> nat \<Rightarrow> bool" where
  "dictTypeResizeAllowed ty d sz =
     resizeAllowed ty (DICTHT_SIZE (dictNextExp sz) * 8 mod 2 ^ 64)
       (ht_used (ht0 d), DICTHT_SIZE (ht_size_exp (ht0 d)))"

definition dictExpandIfNeeded ::
  "dictResizeEnable \<Rightarrow> ('s, 'k, 'v) dictType \<Rightarrow> ('s, 'v) dict \<Rightarrow> (('s, 'v) dict \<times> bool) result" where
  "dictExpandIfNeeded cr ty d =
     (if dictIsRehashing d then Inr (d, True)
      else if DICTHT_SIZE (ht_size_exp (ht0 d)) = 0 then
        res_bind (dictExpand cr ty d DICT_HT_INITIAL_SIZE) (\<lambda>(d, _). Inr (d, True))
      else if cr = DICT_RESIZE_ENABLE \<and> ht_used (ht0 d) \<ge> DICTHT_SIZE (ht_size_exp (ht0 d)) \<or>
              cr \<noteq> DICT_RESIZE_FORBID \<and>
                ht_used (ht0 d) \<ge> dict_force_resize_ratio * DICTHT_SIZE (ht_size_exp (ht0 d)) then
        if dictTypeResizeAllowed ty d (ht_used (ht0 d) + 1) then
          res_bind (dictExpand cr ty d (ht_used (ht0 d) + 1)) (\<lambda>(d, _). Inr (d, True))
        else Inr (d, True)
      else Inr (d, False))"

definition dictExpandIfNeeded' ::
  "dictResizeEnable \<Rightarrow> ('s, 'k, 'v) dictType \<Rightarrow> ('s, 'v) dict \<Rightarrow> (('s, 'v) dict \<times> bool) result" where
  "dictExpandIfNeeded' cr ty d =
     (if pauseAutoResize d > 0 then Inr (d, False) else dictExpandIfNeeded cr ty d)"

definition dictShrinkIfNeeded ::
  "dictResizeEnable \<Rightarrow> ('s, 'k, 'v) dictType \<Rightarrow> ('s, 'v) dict \<Rightarrow> (('s, 'v) dict \<times> bool) result" where
  "dictShrinkIfNeeded cr ty d =
     (if dictIsRehashing d then Inr (d, True)
      else if DICTHT_SIZE (ht_size_exp (ht0 d)) \<le> DICT_HT_INITIAL_SIZE then Inr (d, True)
      else if cr = DICT_RESIZE_ENABLE \<and>
                ht_used (ht0 d) * HASHTABLE_MIN_FILL \<le> DICTHT_SIZE (ht_size_exp (ht0 d)) \<or>
              cr \<noteq> DICT_RESIZE_FORBID \<and>
                ht_used (ht0 d) * HASHTABLE_MIN_FILL * dict_force_resize_ratio
                  \<le> DICTHT_SIZE (ht_size_exp (ht0 d)) then
        if dictTypeResizeAllowed ty d (ht_used (ht0 d)) then
          res_bind (dictShrink cr ty d (ht_used (ht0 d))) (\<lambda>(d, _). Inr (d, True))
        else Inr (d, True)
      else Inr (d, False))"

definition dictShrinkIfNeeded' ::
  "dictResizeEnable \<Rightarrow> ('s, 'k, 'v) dictType \<Rightarrow> ('s, 'v) dict \<Rightarrow> ('s, 'v) dict result" where
  "dictShrinkIfNeeded' cr ty d =
     (if pauseAutoResize d > 0 then Inr d
      else res_bind (dictShrinkIfNeeded cr ty d) (\<lambda>(d, _). Inr d))"

section \<open>Lookup\<close>

text \<open>The walk over a chain: the position of the first entry with the key.\<close>

fun chainFind :: "('s, 'k, 'v) dictType \<Rightarrow> 'k \<Rightarrow> ('s, 'v) dictEntry list \<Rightarrow> nat option" where
  "chainFind ty key [] = None"
| "chainFind ty key (de # rest) =
     (if key_eq ty key (entry_key ty de) then Some 0
      else map_option Suc (chainFind ty key (if entryIsKey de then [] else rest)))"

text \<open>One round of the loops over the two tables: the bucket of the hash in a table and the search in it.\<close>

definition searchTable ::
  "('s, 'k, 'v) dictType \<Rightarrow> ('s, 'v) dict \<Rightarrow> nat \<Rightarrow> u64 \<Rightarrow> 'k \<Rightarrow> (nat \<times> nat option) result" where
  "searchTable ty d t hash key =
     (let idx = dictBucket hash (ht_size_exp (dict_ht d t)) in
      res_bind (rd (ht_table (dict_ht d t)) (int idx)) (\<lambda>chain. Inr (idx, chainFind ty key chain)))"

text \<open>
  \<^verbatim>\<open>dictFindLinkInternal\<close>: the link of the key and the link of the bucket it was mapped to. A caller that
  passes a NULL \<^verbatim>\<open>bucket\<close> gets an early return on an empty dict.
\<close>

definition dictFindLinkInternal ::
  "dictResizeEnable \<Rightarrow> ('s, 'k, 'v) dictType \<Rightarrow> ('s, 'v) dict \<Rightarrow> 'k \<Rightarrow> bool \<Rightarrow>
   (('s, 'v) dict \<times> dictEntryLink option \<times> dictEntryLink option) result" where
  "dictFindLinkInternal cr ty d key want_bucket =
     (if \<not> want_bucket \<and> dictSize d = 0 then Inr (d, None, None)
      else
        let hash = hashFunction ty key; idx = dictBucket hash (ht_size_exp (ht0 d)) in
        res_bind (dictRehashStepIfNeeded cr ty d idx) (\<lambda>d.
        let table1 = (\<lambda>bucket.
              if \<not> dictIsRehashing d then Inr (d, None, bucket)
              else res_bind (searchTable ty d 1 hash key) (\<lambda>(i, pos).
                Inr (d, map_option (\<lambda>p. (1, i, p)) pos, Some (1, i, 0))))
        in
        if int idx < rehashidx d then table1 None
        else res_bind (searchTable ty d 0 hash key) (\<lambda>(i, pos).
          case pos of Some p \<Rightarrow> Inr (d, Some (0, i, p), Some (0, i, 0))
          | None \<Rightarrow> table1 (Some (0, i, 0)))))"

definition dictFindLink ::
  "dictResizeEnable \<Rightarrow> ('s, 'k, 'v) dictType \<Rightarrow> ('s, 'v) dict \<Rightarrow> 'k \<Rightarrow> bool \<Rightarrow>
   (('s, 'v) dict \<times> dictEntryLink option \<times> dictEntryLink option) result" where
  "dictFindLink cr ty d key want_bucket =
     (if dictSize d = 0 then Inr (d, None, None) else dictFindLinkInternal cr ty d key want_bucket)"

text \<open>The entry a link leads to.\<close>

definition link_entry :: "('s, 'v) dict \<Rightarrow> dictEntryLink \<Rightarrow> ('s, 'v) dictEntry result" where
  "link_entry d l =
     (case l of (t, i, p) \<Rightarrow> res_bind (rd (ht_table (dict_ht d t)) (int i)) (\<lambda>chain. rd chain (int p)))"

definition set_link_entry ::
  "('s, 'v) dict \<Rightarrow> dictEntryLink \<Rightarrow> ('s, 'v) dictEntry \<Rightarrow> ('s, 'v) dict result" where
  "set_link_entry d l de =
     (case l of (t, i, p) \<Rightarrow>
        res_bind (rd (ht_table (dict_ht d t)) (int i)) (\<lambda>chain.
        res_bind (wr chain (int p) de) (\<lambda>chain.
        res_bind (wr (ht_table (dict_ht d t)) (int i) chain) (\<lambda>tbl.
        Inr (set_ht d t ((dict_ht d t)\<lparr>ht_table := tbl\<rparr>))))))"

definition dictFind ::
  "dictResizeEnable \<Rightarrow> ('s, 'k, 'v) dictType \<Rightarrow> ('s, 'v) dict \<Rightarrow> 'k \<Rightarrow>
   (('s, 'v) dict \<times> ('s, 'v) dictEntry option) result" where
  "dictFind cr ty d key =
     res_bind (dictFindLink cr ty d key False) (\<lambda>(d, link, _).
     case link of None \<Rightarrow> Inr (d, None)
     | Some l \<Rightarrow> res_bind (link_entry d l) (\<lambda>de. Inr (d, Some de)))"

definition dictFetchValue ::
  "dictResizeEnable \<Rightarrow> ('s, 'k, 'v) dictType \<Rightarrow> ('s, 'v) dict \<Rightarrow> 'k \<Rightarrow> (('s, 'v) dict \<times> 'v option) result" where
  "dictFetchValue cr ty d key =
     res_bind (dictFind cr ty d key) (\<lambda>(d, he).
     case he of None \<Rightarrow> Inr (d, None) | Some de \<Rightarrow> res_bind (dictGetVal de) (\<lambda>v. Inr (d, Some v)))"

section \<open>Insertion\<close>

text \<open>
  \<^verbatim>\<open>dictFindLinkForInsert\<close>: the bucket for a new key and no existing entry, or no bucket and the existing
  entry. Its loop leaves after the first table unless rehashing is ongoing.
\<close>

definition dictFindLinkForInsert ::
  "dictResizeEnable \<Rightarrow> ('s, 'k, 'v) dictType \<Rightarrow> ('s, 'v) dict \<Rightarrow> 'k \<Rightarrow>
   (('s, 'v) dict \<times> dictEntryLink option \<times> dictEntryLink option) result" where
  "dictFindLinkForInsert cr ty d key =
     (let hash = hashFunction ty key; idx = dictBucket hash (ht_size_exp (ht0 d)) in
      res_bind (dictRehashStepIfNeeded cr ty d idx) (\<lambda>d.
      res_bind (dictExpandIfNeeded' cr ty d) (\<lambda>(d, _).
      let bucket = (\<lambda>i. (if dictIsRehashing d then 1 else 0, i, 0));
          table1 = res_bind (searchTable ty d 1 hash key) (\<lambda>(i, pos).
            case pos of Some p \<Rightarrow> Inr (d, None, Some (1, i, p)) | None \<Rightarrow> Inr (d, Some (bucket i), None))
      in
      if int idx < rehashidx d then table1
      else res_bind (searchTable ty d 0 hash key) (\<lambda>(i, pos).
        case pos of Some p \<Rightarrow> Inr (d, None, Some (0, i, p))
        | None \<Rightarrow> if \<not> dictIsRehashing d then Inr (d, Some (bucket i), None) else table1))))"

text \<open>
  \<open>junk\<close> is what \<^verbatim>\<open>zmalloc\<close> leaves in the value field of a new entry. The new entry is the first of its
  chain, so its link is the bucket.
\<close>

definition dictInsertKeyAtLink ::
  "('s, 'k, 'v) dictType \<Rightarrow> 'v \<Rightarrow> ('s, 'v) dict \<Rightarrow> 's \<Rightarrow> dictEntryLink \<Rightarrow> ('s, 'v) dict result" where
  "dictInsertKeyAtLink ty junk d key link =
     (let htidx = (if dictIsRehashing d then 1 else 0); ht = dict_ht d htidx in
      case link of (t, i, p) \<Rightarrow>
      res_bind (res_assert (t = htidx \<and> p = 0 \<and> i \<le> unat (DICTHT_SIZE_MASK (ht_size_exp ht)))) (\<lambda>_.
      res_bind (rd (ht_table ht) (int i)) (\<lambda>bucket.
      let chain = (if no_value ty then if bucket = [] then [KeyEntry key] else NoValueEntry key # bucket
                   else NormalEntry key junk # bucket) in
      res_bind (wr (ht_table ht) (int i) chain) (\<lambda>tbl.
      Inr (set_ht d htidx (ht\<lparr>ht_table := tbl, ht_used := ht_used ht + 1\<rparr>))))))"

text \<open>\<^verbatim>\<open>dictAddRaw\<close>: the link of the new entry, or no link and the link of the existing one.\<close>

definition dictAddRaw ::
  "dictResizeEnable \<Rightarrow> ('s, 'k, 'v) dictType \<Rightarrow> 'v \<Rightarrow> ('s, 'v) dict \<Rightarrow> 's \<Rightarrow>
   (('s, 'v) dict \<times> dictEntryLink option \<times> dictEntryLink option) result" where
  "dictAddRaw cr ty junk d key =
     res_bind (dictFindLinkForInsert cr ty d (keyFromStoredKey ty key)) (\<lambda>(d, position, existing).
     case position of None \<Rightarrow> Inr (d, None, existing)
     | Some link \<Rightarrow>
         res_bind (dictInsertKeyAtLink ty junk d (keyDup ty key) link) (\<lambda>d. Inr (d, Some link, None)))"

definition set_link_val ::
  "('s, 'k, 'v) dictType \<Rightarrow> ('s, 'v) dict \<Rightarrow> dictEntryLink \<Rightarrow> 'v \<Rightarrow> ('s, 'v) dict result" where
  "set_link_val ty d l val =
     res_bind (link_entry d l) (\<lambda>de. res_bind (dictSetVal ty de val) (\<lambda>de. set_link_entry d l de))"

definition dictAdd ::
  "dictResizeEnable \<Rightarrow> ('s, 'k, 'v) dictType \<Rightarrow> 'v \<Rightarrow> ('s, 'v) dict \<Rightarrow> 's \<Rightarrow> 'v \<Rightarrow> (('s, 'v) dict \<times> bool) result" where
  "dictAdd cr ty junk d key val =
     res_bind (dictAddRaw cr ty junk d key) (\<lambda>(d, entry, _).
     case entry of None \<Rightarrow> Inr (d, False)
     | Some l \<Rightarrow> if \<not> no_value ty then res_bind (set_link_val ty d l val) (\<lambda>d. Inr (d, True))
                else Inr (d, True))"

definition dictReplace ::
  "dictResizeEnable \<Rightarrow> ('s, 'k, 'v) dictType \<Rightarrow> 'v \<Rightarrow> ('s, 'v) dict \<Rightarrow> 's \<Rightarrow> 'v \<Rightarrow> (('s, 'v) dict \<times> bool) result" where
  "dictReplace cr ty junk d key val =
     res_bind (dictAddRaw cr ty junk d key) (\<lambda>(d, entry, existing).
     case entry of Some l \<Rightarrow> res_bind (set_link_val ty d l val) (\<lambda>d. Inr (d, True))
     | None \<Rightarrow>
         (case existing of None \<Rightarrow> Inl OutOfBounds
          | Some l \<Rightarrow> res_bind (link_entry d l) (\<lambda>de.
              res_bind (dictGetVal de) (\<lambda>oldval.
              res_bind (set_link_val ty d l val) (\<lambda>d. Inr (d, False))))))"

definition dictAddOrFind ::
  "dictResizeEnable \<Rightarrow> ('s, 'k, 'v) dictType \<Rightarrow> 'v \<Rightarrow> ('s, 'v) dict \<Rightarrow> 's \<Rightarrow>
   (('s, 'v) dict \<times> dictEntryLink option) result" where
  "dictAddOrFind cr ty junk d key =
     res_bind (dictAddRaw cr ty junk d key) (\<lambda>(d, entry, existing).
     Inr (d, case entry of Some l \<Rightarrow> Some l | None \<Rightarrow> existing))"

text \<open>
  \<^verbatim>\<open>dictSetKeyAtLink\<close>, with the link \<^verbatim>\<open>*link\<close> it got and the link it leaves. To replace a key without a
  link it looks the stored key up as if it were a lookup key, without \<^verbatim>\<open>dictStoredKey2Key\<close>: \<open>asKey\<close>
  is what the hash and comparison functions take the stored key for.
\<close>

definition dictSetKeyAtLink ::
  "('s \<Rightarrow> 'k) \<Rightarrow> dictResizeEnable \<Rightarrow> ('s, 'k, 'v) dictType \<Rightarrow> 'v \<Rightarrow> ('s, 'v) dict \<Rightarrow> 's \<Rightarrow> dictEntryLink option \<Rightarrow> bool \<Rightarrow>
   (('s, 'v) dict \<times> dictEntryLink) result" where
  "dictSetKeyAtLink asKey cr ty junk d key link newItem =
     (let addedKey = keyDup ty key in
      if newItem then
        let snap0 = ht_size_exp (ht0 d); snap1 = ht_size_exp (ht1 d) in
        res_bind (dictExpandIfNeeded cr ty d) (\<lambda>(d, _).
        res_bind (if snap0 \<noteq> ht_size_exp (ht0 d) \<or> snap1 \<noteq> ht_size_exp (ht1 d) \<or> link = None then
                    res_bind (dictFindLinkInternal cr ty d (keyFromStoredKey ty key) True) (\<lambda>(d, found, bucket).
                    res_bind (res_assert (bucket \<noteq> None)) (\<lambda>_.
                    res_bind (res_assert (found = None)) (\<lambda>_. Inr (d, the bucket))))
                  else Inr (d, the link)) (\<lambda>(d, l).
        res_bind (dictInsertKeyAtLink ty junk d addedKey l) (\<lambda>d. Inr (d, l))))
      else
        res_bind (case link of Some l \<Rightarrow> Inr (d, l)
                  | None \<Rightarrow> res_bind (dictFindLink cr ty d (asKey key) False) (\<lambda>(d, found, _).
                      res_bind (res_assert (found \<noteq> None)) (\<lambda>_. Inr (d, the found)))) (\<lambda>(d, l).
        res_bind (link_entry d l) (\<lambda>de.
        res_bind (set_link_entry d l (case de of KeyEntry _ \<Rightarrow> KeyEntry addedKey
                                      | NoValueEntry _ \<Rightarrow> NoValueEntry addedKey
                                      | NormalEntry _ v \<Rightarrow> NormalEntry addedKey v)) (\<lambda>d.
        Inr (d, l)))))"

section \<open>Deletion\<close>

text \<open>
  Unlinking the entry at a position: its predecessor, or the bucket, gets its \<^verbatim>\<open>next\<close> chain.
\<close>

definition unlinkAt :: "('s, 'v) dictEntry list \<Rightarrow> nat \<Rightarrow> ('s, 'v) dictEntry list result" where
  "unlinkAt chain p =
     res_bind (rd chain (int p)) (\<lambda>he.
     let nxt = dictGetNext he (drop (Suc p) chain) in
     if p = 0 then Inr nxt
     else res_bind (res_assert (\<not> entryIsKey (chain ! (p - 1)))) (\<lambda>_. Inr (take p chain @ nxt)))"

definition unlinkEntry :: "('s, 'v) dict \<Rightarrow> dictEntryLink \<Rightarrow> (('s, 'v) dict \<times> ('s, 'v) dictEntry) result" where
  "unlinkEntry d l =
     (case l of (t, i, p) \<Rightarrow>
        let ht = dict_ht d t in
        res_bind (rd (ht_table ht) (int i)) (\<lambda>chain.
        res_bind (rd chain (int p)) (\<lambda>he.
        res_bind (unlinkAt chain p) (\<lambda>chain.
        res_bind (wr (ht_table ht) (int i) chain) (\<lambda>tbl.
        Inr (set_ht d t (ht\<lparr>ht_table := tbl, ht_used := ul_dec (ht_used ht)\<rparr>), he))))))"

definition dictGenericDelete ::
  "dictResizeEnable \<Rightarrow> ('s, 'k, 'v) dictType \<Rightarrow> ('s, 'v) dict \<Rightarrow> 'k \<Rightarrow>
   (('s, 'v) dict \<times> ('s, 'v) dictEntry option) result" where
  "dictGenericDelete cr ty d key =
     (if dictSize d = 0 then Inr (d, None)
      else
        let h = hashFunction ty key; idx = dictBucket h (ht_size_exp (ht0 d)) in
        res_bind (dictRehashStepIfNeeded cr ty d idx) (\<lambda>d.
        let remove = (\<lambda>l. res_bind (unlinkEntry d l) (\<lambda>(d, he).
              res_bind (dictShrinkIfNeeded' cr ty d) (\<lambda>d. Inr (d, Some he))));
            table1 = res_bind (searchTable ty d 1 h key) (\<lambda>(i, pos).
              case pos of Some p \<Rightarrow> remove (1, i, p) | None \<Rightarrow> Inr (d, None))
        in
        if int idx < rehashidx d then table1
        else res_bind (searchTable ty d 0 h key) (\<lambda>(i, pos).
          case pos of Some p \<Rightarrow> remove (0, i, p)
          | None \<Rightarrow> if \<not> dictIsRehashing d then Inr (d, None) else table1)))"

definition dictDelete ::
  "dictResizeEnable \<Rightarrow> ('s, 'k, 'v) dictType \<Rightarrow> ('s, 'v) dict \<Rightarrow> 'k \<Rightarrow> (('s, 'v) dict \<times> bool) result" where
  "dictDelete cr ty d key = res_bind (dictGenericDelete cr ty d key) (\<lambda>(d, he). Inr (d, he \<noteq> None))"

definition dictUnlink ::
  "dictResizeEnable \<Rightarrow> ('s, 'k, 'v) dictType \<Rightarrow> ('s, 'v) dict \<Rightarrow> 'k \<Rightarrow>
   (('s, 'v) dict \<times> ('s, 'v) dictEntry option) result" where
  "dictUnlink cr ty d key = dictGenericDelete cr ty d key"

definition dictPauseRehashing :: "('s, 'v) dict \<Rightarrow> ('s, 'v) dict" where
  "dictPauseRehashing d = d\<lparr>pauserehash := (pauserehash d + 1) mod 2 ^ 32\<rparr>"

definition dictResumeRehashing :: "('s, 'v) dict \<Rightarrow> ('s, 'v) dict" where
  "dictResumeRehashing d = d\<lparr>pauserehash := (if pauserehash d = 0 then 2 ^ 32 - 1 else pauserehash d - 1)\<rparr>"

definition dictTwoPhaseUnlinkFind ::
  "dictResizeEnable \<Rightarrow> ('s, 'k, 'v) dictType \<Rightarrow> ('s, 'v) dict \<Rightarrow> 'k \<Rightarrow>
   (('s, 'v) dict \<times> dictEntryLink option) result" where
  "dictTwoPhaseUnlinkFind cr ty d key =
     (if dictSize d = 0 then Inr (d, None)
      else
        res_bind (if dictIsRehashing d then dictRehashStep cr ty d else Inr d) (\<lambda>d.
        let h = hashFunction ty key; idx = dictBucket h (ht_size_exp (ht0 d));
            hit = (\<lambda>l. Inr (dictPauseRehashing d, Some l));
            table1 = res_bind (searchTable ty d 1 h key) (\<lambda>(i, pos).
              case pos of Some p \<Rightarrow> hit (1, i, p) | None \<Rightarrow> Inr (d, None))
        in
        if int idx < rehashidx d then table1
        else res_bind (searchTable ty d 0 h key) (\<lambda>(i, pos).
          case pos of Some p \<Rightarrow> hit (0, i, p)
          | None \<Rightarrow> if \<not> dictIsRehashing d then Inr (d, None) else table1)))"

definition dictTwoPhaseUnlinkFree ::
  "dictResizeEnable \<Rightarrow> ('s, 'k, 'v) dictType \<Rightarrow> ('s, 'v) dict \<Rightarrow> dictEntryLink option \<Rightarrow> ('s, 'v) dict result" where
  "dictTwoPhaseUnlinkFree cr ty d plink =
     (case plink of None \<Rightarrow> Inr d
      | Some (t, i, p) \<Rightarrow>
          let ht = dict_ht d t in
          res_bind (rd (ht_table ht) (int i)) (\<lambda>chain.
          if p = length chain then Inr d
          else
            res_bind (rd chain (int p)) (\<lambda>de.
            res_bind (wr (ht_table ht) (int i) (take p chain @ dictGetNext de (drop (Suc p) chain))) (\<lambda>tbl.
            res_bind (dictShrinkIfNeeded' cr ty
                       (set_ht d t (ht\<lparr>ht_table := tbl, ht_used := ul_dec (ht_used ht)\<rparr>))) (\<lambda>d.
            Inr (dictResumeRehashing d))))))"

section \<open>Emptying\<close>

text \<open>
  \<^verbatim>\<open>_dictClear\<close> frees the entries bucket by bucket while \<^verbatim>\<open>ht_used\<close> is positive; the model returns
  the entries it frees.
\<close>

fun chain_walk :: "('s, 'v) dictEntry list \<Rightarrow> ('s, 'v) dictEntry list" where
  "chain_walk [] = []"
| "chain_walk (he # rest) = he # chain_walk (if entryIsKey he then [] else rest)"

fun clearLoop :: "('s, 'v) dictEntry list list \<Rightarrow> nat \<Rightarrow> ('s, 'v) dictEntry list" where
  "clearLoop [] used = []"
| "clearLoop (he # tbl) used =
     (if used > 0 then chain_walk he @ clearLoop tbl ((ul_dec ^^ length (chain_walk he)) used) else [])"

definition dictClear :: "('s, 'v) dict \<Rightarrow> nat \<Rightarrow> ('s, 'v) dict \<times> ('s, 'v) dictEntry list" where
  "dictClear d htidx =
     (dictReset d htidx, clearLoop (ht_table (dict_ht d htidx)) (ht_used (dict_ht d htidx)))"

definition dictFakeCompletion :: "('s, 'v) dict \<Rightarrow> ('s, 'v) dict" where
  "dictFakeCompletion d =
     trace_event (BucketChanged (- int (dictBuckets d)))
       (if dictIsRehashing d then
          trace_event (RehashingCompleted (DICTHT_SIZE (ht_size_exp (ht0 d)))
            (DICTHT_SIZE (ht_size_exp (ht1 d)))) d
        else d)"

definition dictEmpty :: "('s, 'v) dict \<Rightarrow> ('s, 'v) dict \<times> ('s, 'v) dictEntry list" where
  "dictEmpty d =
     (let (d, freed0) = dictClear (dictFakeCompletion d) 0; (d, freed1) = dictClear d 1 in
      (d\<lparr>rehashidx := -1, pauserehash := 0, pauseAutoResize := 0\<rparr>, freed0 @ freed1))"

text \<open>\<^verbatim>\<open>dictRelease\<close>: the events and the entries it frees; the dict is gone afterwards.\<close>

definition dictRelease :: "('s, 'v) dict \<Rightarrow> dict_event list \<times> ('s, 'v) dictEntry list" where
  "dictRelease d =
     (let (d', freed0) = dictClear (dictFakeCompletion d) 0; (d', freed1) = dictClear d' 1 in
      (d_trace d', freed0 @ freed1))"

end
