(* ===== verification/Dict_Rehash.thy ===== *)
theory Dict_Rehash
  imports Dict
begin

text \<open>
  The invariant of the two tables of a dict, and that rehashing and resizing keep it and the
  entries, end, and never leave a table or trip an assertion.
\<close>

section \<open>Buckets\<close>

lemma mask_unat: "0 \<le> e \<Longrightarrow> e \<le> 63 \<Longrightarrow> DICTHT_SIZE_MASK e = mask (nat e)"
  by (simp add: DICTHT_SIZE_MASK_def mask_eq_exp_minus_1 push_bit_eq_mult)

lemma dictBucket_take_bit: "0 \<le> e \<Longrightarrow> e \<le> 63 \<Longrightarrow> dictBucket h e = take_bit (nat e) (unat h)"
  by (simp add: dictBucket_def mask_unat take_bit_eq_mask [symmetric] unsigned_take_bit_eq)

lemma dictBucket_mod: "0 \<le> e \<Longrightarrow> e \<le> 63 \<Longrightarrow> dictBucket h e = unat h mod 2 ^ nat e"
  by (simp add: dictBucket_take_bit take_bit_eq_mod)

lemma dictBucket_less: "0 \<le> e \<Longrightarrow> e \<le> 63 \<Longrightarrow> dictBucket h e < 2 ^ nat e"
  by (simp add: dictBucket_mod)

lemma dictBucket_null: "dictBucket h (- 1) = 0"
  by (simp add: dictBucket_def DICTHT_SIZE_MASK_def)

text \<open>Masking the index in a larger table gives the index in a smaller one.\<close>

lemma dictBucket_shrink:
  assumes "0 \<le> e'" "e' \<le> e" "e \<le> 63"
  shows "dictBucket (of_nat (dictBucket h e)) e' = dictBucket h e'"
proof -
  have "nat e \<le> 64" using assms by simp
  then have "(2 :: nat) ^ nat e \<le> 2 ^ 64" by (rule power_increasing) simp
  then have "dictBucket h e < 2 ^ 64" using dictBucket_less [of e h] assms by simp
  then have "unat (of_nat (dictBucket h e) :: u64) = dictBucket h e"
    by (simp add: unat_of_nat)
  then show ?thesis using assms by (simp add: dictBucket_take_bit)
qed

lemma mset_concat_update:
  "i < length t \<Longrightarrow> mset (concat (t[i := c])) + mset (t ! i) = mset (concat t) + mset c"
proof (induction t arbitrary: i)
  case (Cons a t)
  show ?case
  proof (cases i)
    case (Suc j)
    with Cons have "mset (concat (t[j := c])) + mset (t ! j) = mset (concat t) + mset c" by simp
    with Suc show ?thesis by (simp add: add.assoc)
  qed (simp add: add.commute add.left_commute)
qed simp

lemma in_concat_nth: "e \<in> set (concat t) \<longleftrightarrow> (\<exists>j<length t. e \<in> set (t ! j))"
  by (auto simp: in_set_conv_nth [of _ t] Bex_def)

section \<open>The invariant\<close>

fun payload :: "('s, 'v) dictEntry \<Rightarrow> 's \<times> 'v option" where
  "payload (NormalEntry k v) = (k, Some v)"
| "payload (NoValueEntry k) = (k, None)"
| "payload (KeyEntry k) = (k, None)"

lemma fst_payload [simp]: "fst (payload e) = dictGetKey e"
  by (cases e) auto

text \<open>
  The entries of a chain fit the type of the dict, and only the last one of a chain is a bare key.
\<close>

definition chain_ok :: "('s, 'k, 'v) dictType \<Rightarrow> ('s, 'v) dictEntry list \<Rightarrow> bool" where
  "chain_ok ty c \<longleftrightarrow>
     (if no_value ty then (\<forall>e\<in>set c. \<not> entryHasValue e) \<and> (\<forall>e\<in>set (butlast c). \<not> entryIsKey e)
      else (\<forall>e\<in>set c. entryHasValue e))"

definition ht_ok :: "('s, 'k, 'v) dictType \<Rightarrow> ('s, 'v) dictht \<Rightarrow> bool" where
  "ht_ok ty h \<longleftrightarrow>
     2 \<le> ht_size_exp h \<and> ht_size_exp h \<le> 60 \<and> length (ht_table h) = 2 ^ nat (ht_size_exp h) \<and>
     ht_used h = length (concat (ht_table h)) \<and>
     (\<forall>i<length (ht_table h). chain_ok ty (ht_table h ! i) \<and>
       (\<forall>e\<in>set (ht_table h ! i). dictBucket (hashFunction ty (entry_key ty e)) (ht_size_exp h) = i))"

definition ht_payload :: "('s, 'v) dictht \<Rightarrow> ('s \<times> 'v option) multiset" where
  "ht_payload h = image_mset payload (mset (concat (ht_table h)))"

definition dict_payload :: "('s, 'v) dict \<Rightarrow> ('s \<times> 'v option) multiset" where
  "dict_payload d = ht_payload (ht0 d) + ht_payload (ht1 d)"

text \<open>Both tables are there, and the buckets below \<^verbatim>\<open>rehashidx\<close> have been moved.\<close>

definition rehash_inv :: "('s, 'k, 'v) dictType \<Rightarrow> ('s, 'v) dict \<Rightarrow> bool" where
  "rehash_inv ty d \<longleftrightarrow> ht_ok ty (ht0 d) \<and> ht_ok ty (ht1 d) \<and>
     0 \<le> rehashidx d \<and> rehashidx d \<le> int (length (ht_table (ht0 d))) \<and>
     (\<forall>i<nat (rehashidx d). ht_table (ht0 d) ! i = [])"

text \<open>
  A dict is either rehashing, or has one table or none. One without a table must be allowed to
  allocate it at the first insertion.
\<close>

definition dict_inv :: "('s, 'k, 'v) dictType \<Rightarrow> ('s, 'v) dict \<Rightarrow> bool" where
  "dict_inv ty d \<longleftrightarrow>
     (if dictIsRehashing d then rehash_inv ty d \<and> rehashidx d < int (length (ht_table (ht0 d)))
      else ht1 d = dictht_null \<and>
        (ht_ok ty (ht0 d) \<or> ht0 d = dictht_null \<and> pauseAutoResize d \<le> 0))"

text \<open>What rehashing and resizing keep.\<close>

definition dict_same :: "('s, 'k, 'v) dictType \<Rightarrow> ('s, 'v) dict \<Rightarrow> ('s, 'v) dict \<Rightarrow> bool" where
  "dict_same ty d d' \<longleftrightarrow> dict_inv ty d' \<and> dict_payload d' = dict_payload d \<and>
     pauserehash d' = pauserehash d \<and> pauseAutoResize d' = pauseAutoResize d \<and>
     (ht0 d' = dictht_null \<longrightarrow> ht0 d = dictht_null)"

lemma not_ht_ok_null [simp]: "\<not> ht_ok ty dictht_null"
  by (auto simp: ht_ok_def dictht_null_def)

lemma ht_ok_not_null: "ht_ok ty h \<Longrightarrow> h \<noteq> dictht_null"
  by (auto simp: ht_ok_def dictht_null_def)

lemma ht_payload_null [simp]: "ht_payload dictht_null = {#}"
  by (simp add: ht_payload_def dictht_null_def)

lemma ht_payload_empty: "ht_table h = [] \<Longrightarrow> ht_payload h = {#}"
  by (simp add: ht_payload_def)

lemma dict_same_refl: "dict_inv ty d \<Longrightarrow> dict_same ty d d"
  by (simp add: dict_same_def)

lemma dict_same_trans: "dict_same ty d d' \<Longrightarrow> dict_same ty d' d'' \<Longrightarrow> dict_same ty d d''"
  by (simp add: dict_same_def)

lemma dict_inv_create: "dict_inv ty dictCreate"
  by (simp add: dict_inv_def dictCreate_def dictIsRehashing_def)

lemma ht_ok_exp: "ht_ok ty h \<Longrightarrow> 0 \<le> ht_size_exp h \<and> ht_size_exp h \<le> 63 \<and> ht_size_exp h \<noteq> -1"
  by (simp add: ht_ok_def)

lemma ht_ok_size: "ht_ok ty h \<Longrightarrow> DICTHT_SIZE (ht_size_exp h) = length (ht_table h)"
  by (auto simp: ht_ok_def DICTHT_SIZE_def)

lemma ht_ok_bucket: "ht_ok ty h \<Longrightarrow> dictBucket hash (ht_size_exp h) < length (ht_table h)"
  using dictBucket_less [of "ht_size_exp h" hash] by (simp add: ht_ok_def)

lemma ht_ok_used: "ht_ok ty h \<Longrightarrow> ht_used h = size (ht_payload h)"
  by (simp add: ht_ok_def ht_payload_def)

lemma ht_payload_update:
  "i < length (ht_table h) \<Longrightarrow>
   ht_payload (h\<lparr>ht_table := (ht_table h)[i := c]\<rparr>) + image_mset payload (mset (ht_table h ! i)) =
   ht_payload h + image_mset payload (mset c)"
  unfolding ht_payload_def
  by (simp flip: image_mset_union add: mset_concat_update)

lemma length_concat_update:
  assumes "i < length t"
  shows "length (concat (t[i := c])) + length (t ! i) = length (concat t) + length c"
  using arg_cong [OF mset_concat_update [OF assms, of c], of size] by simp

lemma bucket_used_le: "i < length t \<Longrightarrow> length (t ! i) \<le> length (concat t)"
  using length_concat_update [of i t "[]"] by simp

text \<open>Replacing a bucket by one that fits, with the count adjusted.\<close>

lemma ht_ok_update:
  assumes "ht_ok ty h" "i < length (ht_table h)" "chain_ok ty c"
    and "\<And>e. e \<in> set c \<Longrightarrow> dictBucket (hashFunction ty (entry_key ty e)) (ht_size_exp h) = i"
    and "u + length (ht_table h ! i) = ht_used h + length c"
  shows "ht_ok ty (h\<lparr>ht_table := (ht_table h)[i := c], ht_used := u\<rparr>)"
proof -
  have "u = length (concat ((ht_table h)[i := c]))"
    using length_concat_update [OF assms(2), of c] assms(1,5) by (simp add: ht_ok_def)
  then show ?thesis using assms by (auto simp: ht_ok_def nth_list_update)
qed

section \<open>Rehashing keeps the entries\<close>

lemma chain_ok_Cons_key: "chain_ok ty (de # rest) \<Longrightarrow> entryIsKey de \<Longrightarrow> rest = []"
  by (cases de) (auto simp: chain_ok_def split: if_splits)

lemma chain_ok_tl: "chain_ok ty (de # rest) \<Longrightarrow> chain_ok ty rest"
  by (cases "rest = []") (auto simp: chain_ok_def split: if_splits)

text \<open>The chain that an entry moved to the front of a bucket gives.\<close>

lemma rehash_chain_ok:
  assumes "chain_ok ty (de # rest)" "chain_ok ty bucket"
  obtains chain where
    "(if no_value ty then
        if bucket = [] then Inr [KeyEntry (dictGetKey de)]
        else if entryIsKey de then Inr (NoValueEntry (dictGetKey de) # bucket)
        else dictSetNext de bucket
      else dictSetNext de bucket) = Inr chain"
    "chain_ok ty chain" "map payload chain = payload de # map payload bucket"
    "entry_key ty ` set chain = insert (entry_key ty de) (entry_key ty ` set bucket)"
proof (cases "no_value ty")
  case True
  with assms show ?thesis
    by (cases de; cases bucket) (auto simp: chain_ok_def dictSetNext_def entry_key_def intro!: that)
next
  case False
  with assms show ?thesis
    by (cases de) (auto simp: chain_ok_def dictSetNext_def intro!: that)
qed

lemma rehashEntriesLoop_ok:
  assumes "ht_ok ty (ht1 d)" "chain_ok ty c" "length c \<le> ht_used (ht0 d)"
    and "0 \<le> ht_size_exp (ht0 d)" "ht_size_exp (ht0 d) \<le> 60"
    and "\<And>e. e \<in> set c \<Longrightarrow> dictBucket (hashFunction ty (entry_key ty e)) (ht_size_exp (ht0 d)) = idx"
  shows "\<exists>h1. rehashEntriesLoop ty idx c d =
      Inr (d\<lparr>ht0 := (ht0 d)\<lparr>ht_used := ht_used (ht0 d) - length c\<rparr>, ht1 := h1\<rparr>) \<and>
    ht_ok ty h1 \<and> ht_size_exp h1 = ht_size_exp (ht1 d) \<and>
    ht_payload h1 = ht_payload (ht1 d) + image_mset payload (mset c)"
  using assms
proof (induction c arbitrary: d)
  case Nil
  then show ?case by (intro exI [of _ "ht1 d"]) simp
next
  case (Cons de rest)
  let ?h = "rehash_target ty d idx de" and ?t = "ht_table (ht1 d)"
  let ?key = "entry_key ty de"
  have h: "?h = dictBucket (hashFunction ty ?key) (ht_size_exp (ht1 d))"
    using Cons.prems(6) [of de] Cons.prems(4,5) ht_ok_exp [OF Cons.prems(1)]
      dictBucket_shrink [of "ht_size_exp (ht1 d)" "ht_size_exp (ht0 d)" "hashFunction ty ?key"]
    by (auto simp: rehash_target_def)
  then have hl: "?h < length ?t" using ht_ok_bucket [OF Cons.prems(1)] by simp
  then have bok: "chain_ok ty (?t ! ?h)" using Cons.prems(1) by (simp add: ht_ok_def)
  obtain chain where ch: "(if no_value ty then
        if ?t ! ?h = [] then Inr [KeyEntry (dictGetKey de)]
        else if entryIsKey de then Inr (NoValueEntry (dictGetKey de) # ?t ! ?h)
        else dictSetNext de (?t ! ?h)
      else dictSetNext de (?t ! ?h)) = Inr chain"
    and chain: "chain_ok ty chain" "map payload chain = payload de # map payload (?t ! ?h)"
      "entry_key ty ` set chain = insert ?key (entry_key ty ` set (?t ! ?h))"
    using rehash_chain_ok [OF Cons.prems(2) bok] by blast
  have len: "length chain = Suc (length (?t ! ?h))"
    using arg_cong [OF chain(2), of length] by simp
  let ?h1 = "(ht1 d)\<lparr>ht_table := ?t[?h := chain], ht_used := Suc (ht_used (ht1 d))\<rparr>"
  let ?d = "d\<lparr>ht0 := (ht0 d)\<lparr>ht_used := ht_used (ht0 d) - 1\<rparr>, ht1 := ?h1\<rparr>"
  have pos: "dictBucket (hashFunction ty (entry_key ty e)) (ht_size_exp (ht1 d)) = ?h" if "e \<in> set chain" for e
  proof -
    have "entry_key ty e \<in> insert ?key (entry_key ty ` set (?t ! ?h))" using that chain(3) by blast
    then show ?thesis using h hl Cons.prems(1) by (auto simp: ht_ok_def)
  qed
  have ok1: "ht_ok ty ?h1" using ht_ok_update [OF Cons.prems(1) hl chain(1) pos] len by simp
  have pl1: "ht_payload ?h1 = ht_payload (ht1 d) + {#payload de#}"
  proof -
    have "image_mset payload (mset chain) = add_mset (payload de) (image_mset payload (mset (?t ! ?h)))"
      using arg_cong [OF chain(2), of mset] by simp
    then have "ht_payload ((ht1 d)\<lparr>ht_table := ?t[?h := chain]\<rparr>) = ht_payload (ht1 d) + {#payload de#}"
      using ht_payload_update [OF hl, of chain] by (simp add: union_assoc [symmetric])
    then show ?thesis by (simp add: ht_payload_def)
  qed
  have rest: "(if entryIsKey de then [] else rest) = rest"
    using chain_ok_Cons_key [OF Cons.prems(2)] by auto
  have "ul_dec (ht_used (ht0 d)) = ht_used (ht0 d) - 1" using Cons.prems(3) by (simp add: ul_dec_def)
  then have step: "rehashEntriesLoop ty idx (de # rest) d = rehashEntriesLoop ty idx rest ?d"
    using hl ch rest by (simp add: Let_def)
  have "\<exists>h1. rehashEntriesLoop ty idx rest ?d =
      Inr (?d\<lparr>ht0 := (ht0 ?d)\<lparr>ht_used := ht_used (ht0 ?d) - length rest\<rparr>, ht1 := h1\<rparr>) \<and>
    ht_ok ty h1 \<and> ht_size_exp h1 = ht_size_exp (ht1 ?d) \<and>
    ht_payload h1 = ht_payload (ht1 ?d) + image_mset payload (mset rest)"
    using Cons.prems chain_ok_tl [OF Cons.prems(2)] ok1 by (intro Cons.IH) auto
  then show ?case unfolding step by (auto simp: pl1)
qed

lemma rehashEntriesInBucketAtIndex_ok:
  assumes "rehash_inv ty d" "0 \<le> idx" "idx < int (length (ht_table (ht0 d)))"
  shows "\<exists>h0 h1. rehashEntriesInBucketAtIndex ty d idx = Inr (d\<lparr>ht0 := h0, ht1 := h1\<rparr>) \<and>
    ht_table h0 = (ht_table (ht0 d))[nat idx := []] \<and> ht_size_exp h0 = ht_size_exp (ht0 d) \<and>
    ht_size_exp h1 = ht_size_exp (ht1 d) \<and> rehash_inv ty (d\<lparr>ht0 := h0, ht1 := h1\<rparr>) \<and>
    dict_payload (d\<lparr>ht0 := h0, ht1 := h1\<rparr>) = dict_payload d"
proof -
  let ?t = "ht_table (ht0 d)" and ?i = "nat idx"
  let ?c = "?t ! ?i"
  have ok0: "ht_ok ty (ht0 d)" and ok1: "ht_ok ty (ht1 d)" using assms(1) by (auto simp: rehash_inv_def)
  have i: "?i < length ?t" using assms by simp
  have c: "chain_ok ty ?c" "\<And>e. e \<in> set ?c \<Longrightarrow> dictBucket (hashFunction ty (entry_key ty e)) (ht_size_exp (ht0 d)) = ?i"
    using ok0 i by (auto simp: ht_ok_def)
  have le: "length ?c \<le> ht_used (ht0 d)" using bucket_used_le [OF i] ok0 by (simp add: ht_ok_def)
  obtain h1 where h1: "rehashEntriesLoop ty ?i ?c d =
      Inr (d\<lparr>ht0 := (ht0 d)\<lparr>ht_used := ht_used (ht0 d) - length ?c\<rparr>, ht1 := h1\<rparr>)"
    "ht_ok ty h1" "ht_size_exp h1 = ht_size_exp (ht1 d)"
    "ht_payload h1 = ht_payload (ht1 d) + image_mset payload (mset ?c)"
    using rehashEntriesLoop_ok [OF ok1 c(1) le _ _ c(2)] ok0 by (auto simp: ht_ok_def)
  let ?h0 = "(ht0 d)\<lparr>ht_table := ?t[?i := []], ht_used := ht_used (ht0 d) - length ?c\<rparr>"
  have run: "rehashEntriesInBucketAtIndex ty d idx = Inr (d\<lparr>ht0 := ?h0, ht1 := h1\<rparr>)"
    using assms(2,3) h1(1) by (simp add: rehashEntriesInBucketAtIndex_def rd_ok wr_ok)
  have ok0': "ht_ok ty ?h0" using ht_ok_update [OF ok0 i, of "[]"] le by (simp add: chain_ok_def)
  have "ht_payload ?h0 + image_mset payload (mset ?c) = ht_payload (ht0 d)"
    using ht_payload_update [OF i, of "[]"] by (simp add: ht_payload_def)
  then have "dict_payload (d\<lparr>ht0 := ?h0, ht1 := h1\<rparr>) = dict_payload d"
    using h1(4) by (simp add: dict_payload_def add.assoc add.commute)
  moreover have "rehash_inv ty (d\<lparr>ht0 := ?h0, ht1 := h1\<rparr>)"
    using assms(1) ok0' h1(2) i by (auto simp: rehash_inv_def nth_list_update)
  ultimately show ?thesis using run h1(3) by (intro exI [of _ ?h0] exI [of _ h1]) simp
qed

lemma skipEmptyLoop_ok:
  assumes "0 \<le> idx" "nat idx \<le> j" "j < length tbl" "tbl ! j \<noteq> []"
  shows "\<exists>idx' ev' stop. skipEmptyLoop tbl idx ev = Inr (idx', ev', stop) \<and>
    idx \<le> idx' \<and> nat idx' \<le> j \<and> (\<forall>i. nat idx \<le> i \<and> i < nat idx' \<longrightarrow> tbl ! i = []) \<and> (stop \<longrightarrow> idx < idx')"
  using assms
proof (induction tbl idx ev rule: skipEmptyLoop.induct)
  case (1 tbl idx ev)
  note unf = skipEmptyLoop.simps [of tbl idx ev]
  have rng: "0 \<le> idx \<and> idx < int (length tbl)" using 1(2-4) by linarith
  show ?case
  proof (cases "tbl ! nat idx \<noteq> []")
    case True
    then have "skipEmptyLoop tbl idx ev = Inr (idx, ev, False)" by (subst unf) (simp add: rng)
    with 1(3) show ?thesis by - (rule exI [of _ idx], rule exI [of _ ev], rule exI [of _ False], auto)
  next
    case empty: False
    with 1(5) have "nat idx \<noteq> j" by auto
    with 1(2,3) have j: "nat (idx + 1) \<le> j" "0 \<le> idx + 1" by linarith+
    have split: "nat idx \<le> i \<longleftrightarrow> i = nat idx \<or> nat (idx + 1) \<le> i" for i using 1(2) by linarith
    show ?thesis
    proof (cases "ev - 1 = 0")
      case True
      then have "skipEmptyLoop tbl idx ev = Inr (idx + 1, ev - 1, True)" using empty by (subst unf) (simp add: rng)
      moreover have "\<forall>i. nat idx \<le> i \<and> i < nat (idx + 1) \<longrightarrow> tbl ! i = []"
        using empty by (auto simp: split)
      ultimately show ?thesis using j
        by - (rule exI [of _ "idx + 1"], rule exI [of _ "ev - 1"], rule exI [of _ True], auto)
    next
      case False
      with 1(1) [OF rng _ False] empty j 1(4,5) obtain idx' ev' stop where
        r: "skipEmptyLoop tbl (idx + 1) (ev - 1) = Inr (idx', ev', stop)" "idx + 1 \<le> idx'" "nat idx' \<le> j"
        "\<forall>i. nat (idx + 1) \<le> i \<and> i < nat idx' \<longrightarrow> tbl ! i = []" by blast
      have "skipEmptyLoop tbl idx ev = Inr (idx', ev', stop)"
        using empty False r(1) by (subst unf) (simp add: rng)
      moreover have "\<forall>i. nat idx \<le> i \<and> i < nat idx' \<longrightarrow> tbl ! i = []"
        using empty r(4) by (auto simp: split)
      ultimately show ?thesis using r(2,3)
        by - (rule exI [of _ idx'], rule exI [of _ ev'], rule exI [of _ stop], auto)
    qed
  qed
qed

text \<open>While entries are left in the first table, one is at or behind \<^verbatim>\<open>rehashidx\<close>.\<close>

lemma rehash_inv_nonempty:
  assumes "rehash_inv ty d" "ht_used (ht0 d) \<noteq> 0"
  obtains j where "nat (rehashidx d) \<le> j" "j < length (ht_table (ht0 d))" "ht_table (ht0 d) ! j \<noteq> []"
proof -
  have "concat (ht_table (ht0 d)) \<noteq> []" using assms by (auto simp: rehash_inv_def ht_ok_def)
  then obtain j where "j < length (ht_table (ht0 d))" "ht_table (ht0 d) ! j \<noteq> []"
    by (metis concat_eq_Nil_conv in_set_conv_nth)
  moreover from this have "nat (rehashidx d) \<le> j" using assms(1) by (metis leI rehash_inv_def)
  ultimately show ?thesis using that by blast
qed

lemma rehash_inv_skip:
  assumes "rehash_inv ty d" "rehashidx d \<le> idx" "idx \<le> int (length (ht_table (ht0 d)))"
    and "\<forall>i. nat (rehashidx d) \<le> i \<and> i < nat idx \<longrightarrow> ht_table (ht0 d) ! i = []"
  shows "rehash_inv ty (d\<lparr>rehashidx := idx\<rparr>)"
  using assms unfolding rehash_inv_def by (auto simp: not_le) (metis not_le)

lemma rehashStepsLoop_ok:
  assumes "rehash_inv ty d"
  shows "\<exists>d' stop. rehashStepsLoop ty n ev d = Inr (d', stop) \<and> rehash_inv ty d' \<and>
    dict_payload d' = dict_payload d \<and> pauserehash d' = pauserehash d \<and> pauseAutoResize d' = pauseAutoResize d \<and>
    length (ht_table (ht0 d')) = length (ht_table (ht0 d)) \<and> rehashidx d \<le> rehashidx d' \<and>
    ht_size_exp (ht0 d') = ht_size_exp (ht0 d) \<and> ht_size_exp (ht1 d') = ht_size_exp (ht1 d) \<and>
    (stop \<longrightarrow> rehashidx d' < int (length (ht_table (ht0 d)))) \<and>
    (stop \<or> 0 < n \<and> ht_used (ht0 d) \<noteq> 0 \<longrightarrow> rehashidx d < rehashidx d')"
  using assms
proof (induction n arbitrary: ev d)
  case 0
  then show ?case by auto
next
  case (Suc n)
  show ?case
  proof (cases "ht_used (ht0 d) = 0")
    case True
    with Suc.prems show ?thesis by auto
  next
    case used: False
    let ?t = "ht_table (ht0 d)"
    obtain j where j: "nat (rehashidx d) \<le> j" "j < length ?t" "?t ! j \<noteq> []"
      using rehash_inv_nonempty [OF Suc.prems used] .
    have r0: "0 \<le> rehashidx d" using Suc.prems by (simp add: rehash_inv_def)
    obtain idx ev' stop where sk: "skipEmptyLoop ?t (rehashidx d) ev = Inr (idx, ev', stop)"
      "rehashidx d \<le> idx" "nat idx \<le> j" "\<forall>i. nat (rehashidx d) \<le> i \<and> i < nat idx \<longrightarrow> ?t ! i = []"
      "stop \<longrightarrow> rehashidx d < idx"
      using skipEmptyLoop_ok [OF r0 j] by blast
    have idx: "idx < int (length ?t)" "0 \<le> idx" using sk(2,3) j(2) r0 by linarith+
    have inv: "rehash_inv ty (d\<lparr>rehashidx := idx\<rparr>)"
      using rehash_inv_skip [OF Suc.prems sk(2) _ sk(4)] idx by simp
    have asrt: "0 \<le> rehashidx d \<and> rehashidx d < int (DICTHT_SIZE (ht_size_exp (ht0 d)))"
      using Suc.prems idx sk(2) r0 ht_ok_size [of ty "ht0 d"] by (simp add: rehash_inv_def)
    show ?thesis
    proof (cases stop)
      case True
      with used asrt sk inv idx show ?thesis by (auto simp: dict_payload_def)
    next
      case False
      obtain h0 h1 where m: "rehashEntriesInBucketAtIndex ty (d\<lparr>rehashidx := idx\<rparr>) idx =
          Inr (d\<lparr>rehashidx := idx, ht0 := h0, ht1 := h1\<rparr>)"
        "ht_table h0 = ?t[nat idx := []]" "rehash_inv ty (d\<lparr>rehashidx := idx, ht0 := h0, ht1 := h1\<rparr>)"
        "ht_size_exp h0 = ht_size_exp (ht0 d)" "ht_size_exp h1 = ht_size_exp (ht1 d)"
        "dict_payload (d\<lparr>rehashidx := idx, ht0 := h0, ht1 := h1\<rparr>) = dict_payload d"
        using rehashEntriesInBucketAtIndex_ok [OF inv idx(2)] idx(1) by (auto simp: dict_payload_def)
      let ?d = "d\<lparr>ht0 := h0, ht1 := h1, rehashidx := idx + 1\<rparr>"
      have inv': "rehash_inv ty ?d"
        using rehash_inv_skip [OF m(3), of "idx + 1"] m(2) idx
        by (auto simp: nth_list_update le_less_Suc_eq nat_add_distrib)
      have step: "rehashStepsLoop ty (Suc n) ev d = rehashStepsLoop ty n ev' ?d"
        using used asrt sk(1) False m(1) by simp
      show ?thesis unfolding step
        using Suc.IH [OF inv', of ev'] m(2,4-) sk(2) by (fastforce simp: dict_payload_def)
    qed
  qed
qed

lemma completed_inv:
  assumes "rehash_inv ty d"
  shows "dict_same ty d (fst (dictCheckRehashingCompleted d))"
    and "snd (dictCheckRehashingCompleted d) \<longleftrightarrow> ht_used (ht0 d) = 0"
    and "\<not> snd (dictCheckRehashingCompleted d) \<Longrightarrow> fst (dictCheckRehashingCompleted d) = d \<and> dictIsRehashing d"
proof -
  have r0: "0 \<le> rehashidx d" using assms by (simp add: rehash_inv_def)
  have e: "ht_payload (ht0 d) = {#}" if "ht_used (ht0 d) = 0"
    using assms that by (auto simp: rehash_inv_def ht_ok_used)
  have "rehashidx d < int (length (ht_table (ht0 d)))" if "ht_used (ht0 d) \<noteq> 0"
    using rehash_inv_nonempty [OF assms that] r0 by (metis nat_less_iff le_less_trans)
  moreover have "ht1 d \<noteq> dictht_null" using assms by (intro ht_ok_not_null [of ty]) (simp add: rehash_inv_def)
  ultimately show "dict_same ty d (fst (dictCheckRehashingCompleted d))"
    "snd (dictCheckRehashingCompleted d) \<longleftrightarrow> ht_used (ht0 d) = 0"
    "\<not> snd (dictCheckRehashingCompleted d) \<Longrightarrow> fst (dictCheckRehashingCompleted d) = d \<and> dictIsRehashing d"
    using assms r0 e
    by (auto simp: dict_same_def dictCheckRehashingCompleted_def Let_def dict_inv_def rehash_inv_def
        trace_event_def dictReset_def set_ht_def dictIsRehashing_def dict_payload_def)
qed

lemma dict_inv_rehashing: "dict_inv ty d \<Longrightarrow> dictIsRehashing d \<Longrightarrow> rehash_inv ty d"
  by (simp add: dict_inv_def)

lemma dictRehash_ok:
  assumes "dict_inv ty d"
  shows "\<exists>d' more. dictRehash cr ty d n = Inr (d', more) \<and> dict_same ty d d' \<and>
    (more \<and> 0 < n \<longrightarrow> dictIsRehashing d \<and> dictIsRehashing d' \<and> rehashidx d < rehashidx d' \<and>
      length (ht_table (ht0 d')) = length (ht_table (ht0 d)) \<and>
      ht_size_exp (ht0 d') = ht_size_exp (ht0 d) \<and> ht_size_exp (ht1 d') = ht_size_exp (ht1 d) \<and>
      \<not> rehash_forbidden cr d) \<and>
    (\<not> more \<longrightarrow> rehash_forbidden cr d \<and> d' = d \<or> \<not> dictIsRehashing d')"
proof (cases "rehash_forbidden cr d")
  case True
  then show ?thesis using dict_same_refl [OF assms] by (auto simp: dictRehash_def)
next
  case False
  then have reh: "dictIsRehashing d" by (simp add: rehash_forbidden_def Let_def)
  note inv = dict_inv_rehashing [OF assms reh]
  obtain d' stop where r: "rehashStepsLoop ty n (int n * 10) d = Inr (d', stop)" and inv': "rehash_inv ty d'"
    and same: "dict_payload d' = dict_payload d" "pauserehash d' = pauserehash d"
      "pauseAutoResize d' = pauseAutoResize d" "length (ht_table (ht0 d')) = length (ht_table (ht0 d))"
    and exps: "ht_size_exp (ht0 d') = ht_size_exp (ht0 d)" "ht_size_exp (ht1 d') = ht_size_exp (ht1 d)"
    and le: "rehashidx d \<le> rehashidx d'" "stop \<longrightarrow> rehashidx d' < int (length (ht_table (ht0 d)))"
      "stop \<or> 0 < n \<and> ht_used (ht0 d) \<noteq> 0 \<longrightarrow> rehashidx d < rehashidx d'"
    using rehashStepsLoop_ok [OF inv, of n "int n * 10"] by blast
  show ?thesis
  proof (cases stop)
    case True
    then show ?thesis using False r inv' same le reh exps
      by (auto simp: dictRehash_def dict_same_def dict_inv_def dictIsRehashing_def rehash_inv_def)
  next
    case nstop: False
    obtain d'' c where c: "dictCheckRehashingCompleted d' = (d'', c)" by fastforce
    have "ht0 d' \<noteq> dictht_null" using inv' by (intro ht_ok_not_null [of ty]) (simp add: rehash_inv_def)
    then have "dict_same ty d d''" using completed_inv(1) [OF inv'] same c by (simp add: dict_same_def)
    moreover have "ht_used (ht0 d) \<noteq> 0" if "\<not> c" "0 < n"
    proof
      assume "ht_used (ht0 d) = 0"
      then have "d' = d" using r that(2) by (cases n) auto
      with \<open>ht_used (ht0 d) = 0\<close> completed_inv(2) [OF inv'] c that show False by simp
    qed
    moreover have "\<not> dictIsRehashing d''" if c
      using that c by (auto simp: dictCheckRehashingCompleted_def Let_def dictIsRehashing_def split: if_splits)
    ultimately show ?thesis using False nstop r c same le reh exps completed_inv(3) [OF inv']
      by (auto simp: dictRehash_def)
  qed
qed

lemma dict_inv_bound: "dict_inv ty d \<Longrightarrow> dictIsRehashing d \<Longrightarrow> 0 \<le> rehashidx d \<and> rehashidx d < int (length (ht_table (ht0 d)))"
  by (simp add: dict_inv_def rehash_inv_def)

text \<open>Enough rounds for the loops that rehash until done: every round moves \<^verbatim>\<open>rehashidx\<close>.\<close>

lemma forceRehashLoop_ok:
  assumes "dict_inv ty d" "nat (int (length (ht_table (ht0 d))) - rehashidx d) < fuel \<or> \<not> dictIsRehashing d \<and> 0 < fuel"
  shows "\<exists>d'. forceRehashLoop fuel cr ty d = Inr d' \<and> dict_same ty d d' \<and>
    (rehash_forbidden cr d \<and> d' = d \<or> \<not> dictIsRehashing d')"
  using assms
proof (induction fuel arbitrary: d)
  case (Suc fuel)
  obtain d' more where r: "dictRehash cr ty d 1000 = Inr (d', more)" "dict_same ty d d'"
    and m: "more \<Longrightarrow> dictIsRehashing d \<and> dictIsRehashing d' \<and> rehashidx d < rehashidx d' \<and>
      length (ht_table (ht0 d')) = length (ht_table (ht0 d)) \<and>
      ht_size_exp (ht0 d') = ht_size_exp (ht0 d) \<and> ht_size_exp (ht1 d') = ht_size_exp (ht1 d) \<and>
      \<not> rehash_forbidden cr d"
    and f: "\<not> more \<Longrightarrow> rehash_forbidden cr d \<and> d' = d \<or> \<not> dictIsRehashing d'"
    using dictRehash_ok [OF Suc.prems(1), of cr 1000] by auto
  show ?case
  proof (cases more)
    case True
    have inv': "dict_inv ty d'" using r(2) by (simp add: dict_same_def)
    have "nat (int (length (ht_table (ht0 d'))) - rehashidx d') < fuel"
      using m [OF True] Suc.prems(2) dict_inv_bound [OF inv'] by linarith
    moreover have "\<not> rehash_forbidden cr d'" using m [OF True] by (simp add: rehash_forbidden_def Let_def)
    ultimately show ?thesis using Suc.IH [OF inv'] r True dict_same_trans [OF r(2)] by auto
  next
    case False
    with r f show ?thesis by simp
  qed
qed simp

lemma rehashMicrosecondsLoop_ok:
  assumes "dict_inv ty d" "nat (int (length (ht_table (ht0 d))) - rehashidx d) < fuel \<or> \<not> dictIsRehashing d \<and> 0 < fuel"
  shows "\<exists>d' n. rehashMicrosecondsLoop fuel cr ty timeout i d = Inr (d', n) \<and> dict_same ty d d'"
  using assms
proof (induction fuel arbitrary: d i)
  case (Suc fuel)
  obtain d' more where r: "dictRehash cr ty d 100 = Inr (d', more)" "dict_same ty d d'"
    "more \<Longrightarrow> dictIsRehashing d \<and> dictIsRehashing d' \<and> rehashidx d < rehashidx d' \<and>
      length (ht_table (ht0 d')) = length (ht_table (ht0 d))"
    using dictRehash_ok [OF Suc.prems(1), of cr 100] by auto
  show ?case
  proof (cases "more \<and> \<not> timeout i")
    case True
    have inv': "dict_inv ty d'" using r(2) by (simp add: dict_same_def)
    have "nat (int (length (ht_table (ht0 d'))) - rehashidx d') < fuel"
      using r(3) True Suc.prems(2) dict_inv_bound [OF inv'] by linarith
    then show ?thesis using Suc.IH [OF inv', of "i + 1"] r True dict_same_trans [OF r(2)] by auto
  next
    case False
    with r show ?thesis by auto
  qed
qed simp

lemma rehashMicrosecondsLoop_completes:
  assumes "dict_inv ty d" "nat (int (length (ht_table (ht0 d))) - rehashidx d) < fuel \<or> \<not> dictIsRehashing d \<and> 0 < fuel"
    and "\<not> rehash_forbidden cr d"
  shows "\<exists>d' n. rehashMicrosecondsLoop fuel cr ty (\<lambda>_. False) i d = Inr (d', n) \<and> dict_same ty d d' \<and>
    \<not> dictIsRehashing d'"
  using assms
proof (induction fuel arbitrary: d i)
  case (Suc fuel)
  obtain d' more where r: "dictRehash cr ty d 100 = Inr (d', more)" "dict_same ty d d'"
    and m: "more \<Longrightarrow> dictIsRehashing d \<and> dictIsRehashing d' \<and> rehashidx d < rehashidx d' \<and>
      length (ht_table (ht0 d')) = length (ht_table (ht0 d)) \<and>
      ht_size_exp (ht0 d') = ht_size_exp (ht0 d) \<and> ht_size_exp (ht1 d') = ht_size_exp (ht1 d)"
    and f: "\<not> more \<Longrightarrow> \<not> dictIsRehashing d'"
    using dictRehash_ok [OF Suc.prems(1), of cr 100] Suc.prems(3) by auto
  show ?case
  proof (cases more)
    case True
    have inv': "dict_inv ty d'" using r(2) by (simp add: dict_same_def)
    have "nat (int (length (ht_table (ht0 d'))) - rehashidx d') < fuel"
      using m [OF True] Suc.prems(2) dict_inv_bound [OF inv'] by linarith
    moreover have "\<not> rehash_forbidden cr d'"
      using m [OF True] Suc.prems(3) by (simp add: rehash_forbidden_def Let_def)
    ultimately show ?thesis using Suc.IH [OF inv', of "i + 1"] r True dict_same_trans [OF r(2)] by auto
  next
    case False
    with r f show ?thesis by simp
  qed
qed simp

lemma dict_inv_fuel:
  "dict_inv ty d \<Longrightarrow>
   nat (int (length (ht_table (ht0 d))) - rehashidx d) < Suc (length (ht_table (ht0 d))) \<or>
   \<not> dictIsRehashing d \<and> 0 < Suc (length (ht_table (ht0 d)))"
  using dict_inv_bound [of ty d] by (cases "dictIsRehashing d") auto

lemma dictRehashMicroseconds_ok:
  assumes "dict_inv ty d"
  shows "\<exists>d' n. dictRehashMicroseconds cr ty timeout d = Inr (d', n) \<and> dict_same ty d d'"
  using rehashMicrosecondsLoop_ok [OF assms dict_inv_fuel [OF assms]] dict_same_refl [OF assms]
  by (simp add: dictRehashMicroseconds_def)

lemma dictRehashStep_ok:
  assumes "dict_inv ty d"
  shows "\<exists>d'. dictRehashStep cr ty d = Inr d' \<and> dict_same ty d d'"
  using dictRehash_ok [OF assms, of cr 1] dict_same_refl [OF assms] by (auto simp: dictRehashStep_def)

text \<open>The exponent of the first table changes only when rehashing completes.\<close>

definition idx_stable :: "('s, 'v) dict \<Rightarrow> ('s, 'v) dict \<Rightarrow> bool" where
  "idx_stable d d' \<longleftrightarrow> rehashidx d' \<le> 0 \<or> ht_size_exp (ht0 d') = ht_size_exp (ht0 d)"

lemma dictBucketRehash_ok:
  assumes "dict_inv ty d" "idx < length (ht_table (ht0 d))"
  shows "\<exists>d' b. dictBucketRehash cr ty d idx = Inr (d', b) \<and> dict_same ty d d' \<and> idx_stable d d'"
proof (cases "pauserehash d \<noteq> 0 \<or> rehash_forbidden cr d")
  case True
  then show ?thesis using dict_same_refl [OF assms(1)] by (auto simp: dictBucketRehash_def idx_stable_def)
next
  case False
  then have "dictIsRehashing d" by (simp add: rehash_forbidden_def Let_def)
  from dict_inv_rehashing [OF assms(1) this] obtain h0 h1 where
    r: "rehashEntriesInBucketAtIndex ty d (int idx) = Inr (d\<lparr>ht0 := h0, ht1 := h1\<rparr>)"
      "rehash_inv ty (d\<lparr>ht0 := h0, ht1 := h1\<rparr>)" "dict_payload (d\<lparr>ht0 := h0, ht1 := h1\<rparr>) = dict_payload d"
      "ht_size_exp h0 = ht_size_exp (ht0 d)"
    using rehashEntriesInBucketAtIndex_ok [of ty d "int idx"] assms(2) by auto
  let ?d = "fst (dictCheckRehashingCompleted (d\<lparr>ht0 := h0, ht1 := h1\<rparr>))"
  have "dict_same ty d ?d"
    using completed_inv(1) [OF r(2)] r(2,3) by (auto simp: dict_same_def rehash_inv_def)
  moreover have "idx_stable d ?d"
    using r(4) by (auto simp: dictCheckRehashingCompleted_def Let_def idx_stable_def)
  ultimately show ?thesis using False r by (auto simp: dictBucketRehash_def)
qed

lemma dictRehashStepIfNeeded_ok:
  assumes "dict_inv ty d" "idx = dictBucket hash (ht_size_exp (ht0 d))"
  shows "\<exists>d'. dictRehashStepIfNeeded cr ty d idx = Inr d' \<and> dict_same ty d d' \<and> idx_stable d d'"
proof (cases "\<not> dictIsRehashing d \<or> pauserehash d \<noteq> 0")
  case True
  then show ?thesis using dict_same_refl [OF assms(1)]
    by (auto simp: dictRehashStepIfNeeded_def idx_stable_def)
next
  case False
  then have "ht_ok ty (ht0 d)" using dict_inv_rehashing [OF assms(1)] by (simp add: rehash_inv_def)
  then have idx: "idx < length (ht_table (ht0 d))" using assms(2) by (simp add: ht_ok_bucket)
  obtain d' more where "dictRehash cr ty d 1 = Inr (d', more)" "dict_same ty d d'" "idx_stable d d'"
    using dictRehash_ok [OF assms(1), of cr 1] by (force simp: idx_stable_def dictIsRehashing_def)
  moreover obtain d'' b where "dictBucketRehash cr ty d idx = Inr (d'', b)" "dict_same ty d d''" "idx_stable d d''"
    using dictBucketRehash_ok [OF assms(1) idx, of cr] by blast
  ultimately show ?thesis using False idx by (auto simp: dictRehashStepIfNeeded_def)
qed

section \<open>Resizing keeps the entries\<close>

lemma bit_len_bounds: "n < 2 ^ bit_len n" "0 < n \<Longrightarrow> 2 ^ (bit_len n - 1) \<le> n"
proof (induction n rule: bit_len.induct)
  case (1 n)
  { case 1
    show ?case
    proof (cases "n = 0")
      case False
      then have "n div 2 < 2 ^ bit_len (n div 2)" using \<open>n \<noteq> 0 \<Longrightarrow> _\<close> by blast
      then show ?thesis using False by (simp add: bit_len.simps [of n]) 
    qed (simp add: bit_len.simps) }
  { case 2
    show ?case
    proof (cases "n div 2 = 0")
      case True
      then show ?thesis using 2 by (simp add: bit_len.simps)
    next
      case False
      then have "2 ^ (bit_len (n div 2) - 1) \<le> n div 2" using "1.IH" 2 by auto
      moreover have "bit_len n = Suc (bit_len (n div 2))" using 2 by (simp add: bit_len.simps [of n])
      moreover have "0 < bit_len (n div 2)" using False by (simp add: bit_len.simps [of "n div 2"])
      ultimately show ?thesis by (cases "bit_len (n div 2)") auto
    qed }
qed

lemma dictNextExp_range:
  "2 \<le> dictNextExp sz \<and> dictNextExp sz \<le> 63"
proof (cases "sz \<le> 4 \<or> LONG_MAX \<le> sz")
  case True
  then show ?thesis by (auto simp: dictNextExp_def)
next
  case False
  let ?b = "bit_len (sz - 1)"
  have "sz - 1 < 2 ^ ?b" "2 ^ (?b - 1) \<le> sz - 1" using bit_len_bounds [of "sz - 1"] False by auto
  then have "(2 :: nat) ^ 2 < 2 ^ (Suc ?b)" "(2 :: nat) ^ (?b - 1) < 2 ^ 63" using False by auto
  then have "2 < Suc ?b" "?b - 1 < 63" by (metis power_strict_increasing_iff one_less_numeral_iff semiring_norm(76))+
  then show ?thesis using False by (simp add: dictNextExp_def clzl_def)
qed

lemma dictNextExp_fits:
  assumes "sz \<le> 2 ^ 63"
  shows "sz \<le> DICTHT_SIZE (dictNextExp sz)"
proof (cases "sz \<le> 4 \<or> LONG_MAX \<le> sz")
  case True
  then show ?thesis using assms by (auto simp: dictNextExp_def DICTHT_SIZE_def)
next
  case False
  then show ?thesis using bit_len_bounds(1) [of "sz - 1"] by (auto simp: dictNextExp_def clzl_def DICTHT_SIZE_def)
qed

lemma no_overflow_exp:
  assumes "2 \<le> e" "e \<le> 63" "\<not> DICTHT_SIZE e * 8 mod 2 ^ 64 < DICTHT_SIZE e"
  shows "e \<le> 60"
proof (rule ccontr)
  assume "\<not> e \<le> 60"
  then have "e = 61 \<or> e = 62 \<or> e = 63" using assms by auto
  then show False using assms(3) by (auto simp: DICTHT_SIZE_def)
qed

lemma ht_ok_new:
  assumes "2 \<le> e" "e \<le> 60"
  shows "ht_ok ty \<lparr>ht_table = replicate (DICTHT_SIZE e) [], ht_used = 0, ht_size_exp = e\<rparr>"
  using assms by (auto simp: ht_ok_def DICTHT_SIZE_def chain_ok_def)

lemma ht_payload_new: "ht_payload \<lparr>ht_table = replicate n [], ht_used = 0, ht_size_exp = e\<rparr> = {#}"
  by (simp add: ht_payload_def)

lemma dictResize_ok:
  fixes ty :: "('s, 'k, 'v) dictType"
  assumes "dict_inv ty d" "\<not> dictIsRehashing d"
  shows "\<exists>d' ok failed. dictResize cr ty d sz alloc = Inr (d', ok, failed) \<and> dict_same ty d d' \<and> rehashidx d' \<le> 0"
proof -
  let ?e = "dictNextExp sz"
  let ?new = "\<lparr>ht_table = replicate (DICTHT_SIZE ?e) [], ht_used = 0, ht_size_exp = ?e\<rparr> :: ('s, 'v) dictht"
  have h1: "ht1 d = dictht_null" using assms by (simp add: dict_inv_def)
  show ?thesis
  proof (cases "DICTHT_SIZE ?e < sz \<or> DICTHT_SIZE ?e * 8 mod 2 ^ 64 < DICTHT_SIZE ?e \<or>
      ?e = ht_size_exp (ht0 d) \<or> (case alloc of None \<Rightarrow> False | Some ok \<Rightarrow> \<not> ok (DICTHT_SIZE ?e * 8))")
    case True
    then show ?thesis using assms(2) dict_same_refl [OF assms(1)]
      by (auto simp: dictResize_def Let_def dictIsRehashing_def)
  next
    case False
    then have "2 \<le> ?e" "?e \<le> 60" using dictNextExp_range [of sz] no_overflow_exp by blast+
    then have new: "ht_ok ty ?new" by (rule ht_ok_new)
    define d1 where "d1 = trace_event (BucketChanged (int (DICTHT_SIZE ?e)))
      (trace_event (RehashingStarted (DICTHT_SIZE (ht_size_exp (ht0 d))) (DICTHT_SIZE ?e)) (d\<lparr>ht1 := ?new, rehashidx := 0\<rparr>))"
    have d1: "ht0 d1 = ht0 d" "ht1 d1 = ?new" "rehashidx d1 = 0" "pauserehash d1 = pauserehash d"
      "pauseAutoResize d1 = pauseAutoResize d" by (simp_all add: d1_def trace_event_def)
    show ?thesis
    proof (cases "ht_table (ht0 d) = [] \<or> ht_used (ht0 d) = 0")
      case True
      then have "ht_payload (ht0 d) = {#}" using assms by (auto simp: dict_inv_def ht_ok_used ht_payload_empty)
      then show ?thesis using False True assms(2) new h1
        by (auto simp: dictResize_def Let_def dict_same_def dict_inv_def trace_event_def dictReset_def set_ht_def
            dictIsRehashing_def dict_payload_def ht_payload_new)
    next
      case nonempty: False
      then have ok0: "ht_ok ty (ht0 d)" using assms by (auto simp: dict_inv_def dictht_null_def)
      have same: "dict_same ty d d1"
        using ok0 new d1 nonempty h1
        by (auto simp: dict_same_def dict_inv_def rehash_inv_def dictIsRehashing_def dict_payload_def ht_payload_new)
      then have inv1: "dict_inv ty d1" by (simp add: dict_same_def)
      have run: "dictResize cr ty d sz alloc =
        (if force_full_rehash ty
         then res_bind (forceRehashLoop (Suc (length (ht_table (ht0 d1)))) cr ty d1) (\<lambda>d. Inr (d, True, False))
         else Inr (d1, True, False))"
        using False nonempty assms(2) by (simp add: dictResize_def Let_def d1_def trace_event_def)
      obtain d2 where "forceRehashLoop (Suc (length (ht_table (ht0 d1)))) cr ty d1 = Inr d2" "dict_same ty d1 d2"
        "d2 = d1 \<or> \<not> dictIsRehashing d2"
        using forceRehashLoop_ok [OF inv1 dict_inv_fuel [OF inv1], of cr] by blast
      then show ?thesis unfolding run using same dict_same_trans [OF same] d1(3)
        by (auto simp del: forceRehashLoop.simps simp: dictIsRehashing_def)
    qed
  qed
qed

lemma dictExpandGen_ok:
  assumes "dict_inv ty d"
  shows "\<exists>d' ok failed. dictExpandGen cr ty d sz alloc = Inr (d', ok, failed) \<and> dict_same ty d d' \<and> (d' = d \<or> rehashidx d' \<le> 0)"
  using dictResize_ok [OF assms, of cr sz alloc] dict_same_refl [OF assms] by (auto simp: dictExpandGen_def)

lemma dictExpand_ok:
  assumes "dict_inv ty d"
  shows "\<exists>d' ok. dictExpand cr ty d sz = Inr (d', ok) \<and> dict_same ty d d' \<and> (d' = d \<or> rehashidx d' \<le> 0)"
  using dictExpandGen_ok [OF assms, of cr sz None] by (auto simp: dictExpand_def)

lemma dictTryExpand_ok:
  assumes "dict_inv ty d"
  shows "\<exists>d' ok. dictTryExpand cr ty d sz alloc = Inr (d', ok) \<and> dict_same ty d d' \<and> (d' = d \<or> rehashidx d' \<le> 0)"
  using dictExpandGen_ok [OF assms, of cr sz "Some alloc"] by (auto simp: dictTryExpand_def)

lemma dictShrink_ok:
  assumes "dict_inv ty d"
  shows "\<exists>d' ok. dictShrink cr ty d sz = Inr (d', ok) \<and> dict_same ty d d' \<and> (d' = d \<or> rehashidx d' \<le> 0)"
  using dictResize_ok [OF assms, of cr sz None] dict_same_refl [OF assms] by (auto simp: dictShrink_def)

text \<open>The first insertion allocates the table.\<close>

lemma dictExpand_initial:
  assumes "dict_inv ty d" "ht0 d = dictht_null"
  shows "\<exists>d'. dictExpand cr ty d 4 = Inr (d', True) \<and> ht_ok ty (ht0 d') \<and> \<not> dictIsRehashing d'"
proof -
  have "\<not> dictIsRehashing d"
    using assms by (auto simp: dict_inv_def rehash_inv_def ht_ok_def dictht_null_def)
  moreover have "ht_ok ty \<lparr>ht_table = replicate 4 [], ht_used = 0, ht_size_exp = 2\<rparr>"
    using ht_ok_new [of 2] by (simp add: DICTHT_SIZE_def)
  ultimately show ?thesis using assms(2)
    by (simp add: dictExpand_def dictExpandGen_def dictResize_def Let_def dictNextExp_def DICTHT_SIZE_def
        dictht_null_def trace_event_def dictReset_def set_ht_def dictIsRehashing_def)
qed

lemma dictExpandIfNeeded_ok:
  assumes "dict_inv ty d"
  shows "\<exists>d' ok. dictExpandIfNeeded cr ty d = Inr (d', ok) \<and> dict_same ty d d' \<and> ht_ok ty (ht0 d') \<and>
    (d' = d \<or> rehashidx d' \<le> 0)"
proof (cases "ht0 d = dictht_null")
  case True
  obtain d' where "dictExpand cr ty d 4 = Inr (d', True)" "ht_ok ty (ht0 d')"
    using dictExpand_initial [OF assms True] by blast
  moreover have "\<not> dictIsRehashing d"
    using True assms by (auto simp: dict_inv_def rehash_inv_def ht_ok_def dictht_null_def)
  moreover have "dict_same ty d d' \<and> (d' = d \<or> rehashidx d' \<le> 0)"
    using dictExpand_ok [OF assms, of cr 4] calculation(1) by auto
  ultimately show ?thesis using True
    by (auto simp: dictExpandIfNeeded_def dictht_null_def DICTHT_SIZE_def)
next
  case False
  then have ok: "ht_ok ty (ht0 d)" using assms by (auto simp: dict_inv_def rehash_inv_def split: if_splits)
  have ok': "ht_ok ty (ht0 d')" if "dict_same ty d d'" for d'
    using that False by (auto simp: dict_same_def dict_inv_def rehash_inv_def split: if_splits)
  show ?thesis
    using dictExpand_ok [OF assms, of cr 4] dictExpand_ok [OF assms, of cr "ht_used (ht0 d) + 1"]
      dict_same_refl [OF assms] ok' by (fastforce simp: dictExpandIfNeeded_def)
qed

lemma dictExpandIfNeeded'_ok:
  assumes "dict_inv ty d"
  shows "\<exists>d' ok. dictExpandIfNeeded' cr ty d = Inr (d', ok) \<and> dict_same ty d d' \<and> ht_ok ty (ht0 d') \<and>
    (d' = d \<or> rehashidx d' \<le> 0)"
proof (cases "pauseAutoResize d > 0")
  case True
  then have "ht_ok ty (ht0 d)" using assms by (auto simp: dict_inv_def rehash_inv_def split: if_splits)
  then show ?thesis using True dict_same_refl [OF assms] by (auto simp: dictExpandIfNeeded'_def)
next
  case False
  then show ?thesis using dictExpandIfNeeded_ok [OF assms, of cr] by (simp add: dictExpandIfNeeded'_def)
qed

lemma dictShrinkIfNeeded'_ok:
  assumes "dict_inv ty d"
  shows "\<exists>d'. dictShrinkIfNeeded' cr ty d = Inr d' \<and> dict_same ty d d'"
  using dictShrink_ok [OF assms, of cr "ht_used (ht0 d)"] dict_same_refl [OF assms]
  by (auto simp: dictShrinkIfNeeded'_def dictShrinkIfNeeded_def)

end
