(* ===== verification/Dict_Map.thy ===== *)
theory Dict_Map
  imports Dict_Rehash
begin

text \<open>
  The hash table of theory \<open>Dict\<close> implements a finite map: lookup, insertion, replacement and
  deletion, with the rehashing and resizing they trigger.
\<close>

section \<open>Searching\<close>

text \<open>
  What \<^verbatim>\<open>dict.c\<close> relies on of the callbacks of a type: comparing keys is an equivalence, equal keys hash
  alike, and a duplicated key is equal to the original.
\<close>

definition wf_type :: "('s, 'k, 'v) dictType \<Rightarrow> bool" where
  "wf_type ty \<longleftrightarrow> (\<forall>a b. keyCompare ty a b \<longrightarrow> keyCompare ty b a) \<and>
     (\<forall>a b c. keyCompare ty a b \<longrightarrow> keyCompare ty b c \<longrightarrow> key_eq ty a c) \<and>
     (\<forall>a b. keyCompare ty a b \<longrightarrow> hashFunction ty a = hashFunction ty b) \<and>
     (\<forall>s. key_eq ty (keyFromStoredKey ty (keyDup ty s)) (keyFromStoredKey ty s))"

lemma key_eq_refl [simp]: "key_eq ty k k"
  by (simp add: key_eq_def)

lemma key_eq_sym: "wf_type ty \<Longrightarrow> key_eq ty a b \<Longrightarrow> key_eq ty b a"
  by (auto simp: wf_type_def key_eq_def)

lemma key_eq_trans: "wf_type ty \<Longrightarrow> key_eq ty a b \<Longrightarrow> key_eq ty b c \<Longrightarrow> key_eq ty a c"
  unfolding wf_type_def key_eq_def by blast

lemma key_eq_hash: "wf_type ty \<Longrightarrow> key_eq ty a b \<Longrightarrow> hashFunction ty a = hashFunction ty b"
  by (auto simp: wf_type_def key_eq_def)

lemma key_eq_dup: "wf_type ty \<Longrightarrow> key_eq ty (keyFromStoredKey ty (keyDup ty s)) (keyFromStoredKey ty s)"
  by (simp add: wf_type_def)

definition has_key :: "('s, 'k, 'v) dictType \<Rightarrow> 'k \<Rightarrow> 's \<times> 'v option \<Rightarrow> bool" where
  "has_key ty k p \<longleftrightarrow> key_eq ty k (keyFromStoredKey ty (fst p))"

lemma has_key_payload [simp]: "has_key ty k (payload e) \<longleftrightarrow> key_eq ty k (entry_key ty e)"
  by (simp add: has_key_def entry_key_def)

lemma chainFind_ok:
  assumes "chain_ok ty c"
  shows "case chainFind ty key c of
      Some p \<Rightarrow> p < length c \<and> key_eq ty key (entry_key ty (c ! p))
    | None \<Rightarrow> \<forall>e\<in>set c. \<not> key_eq ty key (entry_key ty e)"
  using assms
proof (induction c)
  case (Cons de rest)
  have "(if entryIsKey de then [] else rest) = rest" using chain_ok_Cons_key [OF Cons.prems] by auto
  with Cons.IH [OF chain_ok_tl [OF Cons.prems]] show ?case by (auto split: option.splits)
qed simp

lemma searchTable_ok:
  assumes "wf_type ty" "ht_ok ty (dict_ht d t)"
  shows "\<exists>pos. searchTable ty d t (hashFunction ty key) key =
      Inr (dictBucket (hashFunction ty key) (ht_size_exp (dict_ht d t)), pos) \<and>
    (case pos of
       Some p \<Rightarrow> p < length (ht_table (dict_ht d t) ! dictBucket (hashFunction ty key) (ht_size_exp (dict_ht d t))) \<and>
         key_eq ty key (entry_key ty
           (ht_table (dict_ht d t) ! dictBucket (hashFunction ty key) (ht_size_exp (dict_ht d t)) ! p))
     | None \<Rightarrow> \<forall>p\<in>#ht_payload (dict_ht d t). \<not> has_key ty key p)"
proof -
  let ?h = "dict_ht d t"
  let ?i = "dictBucket (hashFunction ty key) (ht_size_exp ?h)"
  have i: "?i < length (ht_table ?h)" using ht_ok_bucket [OF assms(2)] by simp
  then have c: "chain_ok ty (ht_table ?h ! ?i)" using assms(2) by (simp add: ht_ok_def)
  have elsewhere: "e \<in> set (ht_table ?h ! ?i)"
    if e: "e \<in> set (concat (ht_table ?h))" "key_eq ty key (entry_key ty e)" for e
  proof -
    obtain j where j: "j < length (ht_table ?h)" "e \<in> set (ht_table ?h ! j)"
      using e(1) by (auto simp: in_concat_nth simp del: set_concat)
    then have "dictBucket (hashFunction ty (entry_key ty e)) (ht_size_exp ?h) = j"
      using assms(2) by (auto simp: ht_ok_def)
    then show ?thesis using j key_eq_hash [OF assms(1) e(2)] by simp
  qed
  show ?thesis
    using chainFind_ok [OF c, of key] i elsewhere
    by (auto simp: searchTable_def Let_def ht_payload_def split: option.splits)
qed

text \<open>The entries a search that skips the first table does not see.\<close>

lemma skipped_bucket:
  assumes "wf_type ty" "rehash_inv ty d"
    and "int (dictBucket (hashFunction ty key) (ht_size_exp (ht0 d))) < rehashidx d"
  shows "\<forall>p\<in>#ht_payload (ht0 d). \<not> has_key ty key p"
proof -
  have ok: "ht_ok ty (dict_ht d 0)" using assms(2) by (simp add: rehash_inv_def dict_ht_def)
  have "ht_table (ht0 d) ! dictBucket (hashFunction ty key) (ht_size_exp (ht0 d)) = []"
    using assms(2,3) by (simp add: rehash_inv_def)
  then show ?thesis using searchTable_ok [OF assms(1) ok, of key]
    by (auto simp: dict_ht_def split: option.splits)
qed

text \<open>A link that leads to an entry of the dict with the key.\<close>

definition link_to :: "('s, 'k, 'v) dictType \<Rightarrow> ('s, 'v) dict \<Rightarrow> 'k \<Rightarrow> dictEntryLink \<Rightarrow> bool" where
  "link_to ty d key l \<longleftrightarrow>
     (case l of (t, i, p) \<Rightarrow> t \<le> 1 \<and> (t = 1 \<longrightarrow> dictIsRehashing d) \<and> ht_ok ty (dict_ht d t) \<and>
        i = dictBucket (hashFunction ty key) (ht_size_exp (dict_ht d t)) \<and>
        i < length (ht_table (dict_ht d t)) \<and> p < length (ht_table (dict_ht d t) ! i) \<and>
        key_eq ty key (entry_key ty (ht_table (dict_ht d t) ! i ! p)))"

lemma dictSize_payload: "dict_inv ty d \<Longrightarrow> dictSize d = size (dict_payload d)"
  by (auto simp: dict_inv_def rehash_inv_def dictSize_def dict_payload_def ht_ok_used split: if_splits)
    (simp_all add: dictht_null_def)

lemma dict_inv_ht0: "dict_inv ty d \<Longrightarrow> ht0 d \<noteq> dictht_null \<Longrightarrow> ht_ok ty (ht0 d)"
  by (auto simp: dict_inv_def rehash_inv_def split: if_splits)

lemma dict_inv_null: "dict_inv ty d \<Longrightarrow> ht0 d = dictht_null \<Longrightarrow> dict_payload d = {#} \<and> \<not> dictIsRehashing d"
  by (auto simp: dict_inv_def rehash_inv_def dict_payload_def split: if_splits)

lemma dict_inv_ht1: "dict_inv ty d \<Longrightarrow> (if dictIsRehashing d then ht_ok ty (ht1 d) else ht1 d = dictht_null)"
  by (auto simp: dict_inv_def rehash_inv_def split: if_splits)

lemma search0_ok:
  assumes "wf_type ty" "dict_inv ty d" "ht_ok ty (ht0 d)"
  shows "\<exists>i pos. searchTable ty d 0 (hashFunction ty key) key = Inr (i, pos) \<and>
    i = dictBucket (hashFunction ty key) (ht_size_exp (ht0 d)) \<and>
    (case pos of Some p \<Rightarrow> link_to ty d key (0, i, p) | None \<Rightarrow> \<forall>p\<in>#ht_payload (ht0 d). \<not> has_key ty key p)"
  using searchTable_ok [OF assms(1), of d 0 key] assms(3) ht_ok_bucket [OF assms(3)]
  by (auto simp: dict_ht_def link_to_def split: option.splits)

lemma search1_ok:
  assumes "wf_type ty" "dict_inv ty d" "dictIsRehashing d"
  shows "\<exists>i pos. searchTable ty d 1 (hashFunction ty key) key = Inr (i, pos) \<and>
    i = dictBucket (hashFunction ty key) (ht_size_exp (ht1 d)) \<and>
    (case pos of Some p \<Rightarrow> link_to ty d key (1, i, p) | None \<Rightarrow> \<forall>p\<in>#ht_payload (ht1 d). \<not> has_key ty key p)"
proof -
  have ok: "ht_ok ty (dict_ht d 1)" using dict_inv_ht1 [OF assms(2)] assms(3) by (simp add: dict_ht_def)
  show ?thesis using searchTable_ok [OF assms(1) ok, of key] ok assms(3) ht_ok_bucket [OF ok]
    by (auto simp: dict_ht_def link_to_def split: option.splits)
qed

lemma search_skip:
  assumes "wf_type ty" "dict_inv ty d" "idx_stable d0 d"
    and "int (dictBucket (hashFunction ty key) (ht_size_exp (ht0 d0))) < rehashidx d"
  shows "dictIsRehashing d \<and> (\<forall>p\<in>#ht_payload (ht0 d). \<not> has_key ty key p)"
proof -
  have reh: "dictIsRehashing d" and e: "ht_size_exp (ht0 d) = ht_size_exp (ht0 d0)"
    using assms(3,4) by (auto simp: idx_stable_def dictIsRehashing_def)
  then show ?thesis
    using skipped_bucket [OF assms(1) dict_inv_rehashing [OF assms(2) reh], of key] assms(4) by simp
qed

definition no_key :: "('s, 'k, 'v) dictType \<Rightarrow> ('s, 'v) dict \<Rightarrow> 'k \<Rightarrow> bool" where
  "no_key ty d key \<longleftrightarrow> (\<forall>p\<in>#dict_payload d. \<not> has_key ty key p)"

lemma no_key_tables:
  "no_key ty d key \<longleftrightarrow> (\<forall>p\<in>#ht_payload (ht0 d). \<not> has_key ty key p) \<and> (\<forall>p\<in>#ht_payload (ht1 d). \<not> has_key ty key p)"
  by (auto simp: no_key_def dict_payload_def)

text \<open>The bucket a new key goes to.\<close>

definition bucket_for :: "('s, 'k, 'v) dictType \<Rightarrow> ('s, 'v) dict \<Rightarrow> 'k \<Rightarrow> dictEntryLink" where
  "bucket_for ty d key =
     (let t = (if dictIsRehashing d then 1 else 0) in
      (t, dictBucket (hashFunction ty key) (ht_size_exp (dict_ht d t)), 0))"

text \<open>The outcomes of the loops over the two tables, with \<open>b0\<close> the bucket computed before a rehashing step.\<close>

lemma search_cases:
  fixes ty :: "('s, 'k, 'v) dictType" and key :: 'k and d0 d :: "('s, 'v) dict"
  defines "hash \<equiv> hashFunction ty key"
  defines "b0 \<equiv> dictBucket hash (ht_size_exp (ht0 d0))"
    and "i0 \<equiv> dictBucket hash (ht_size_exp (ht0 d))" and "i1 \<equiv> dictBucket hash (ht_size_exp (ht1 d))"
  assumes "wf_type ty" "dict_inv ty d" "idx_stable d0 d" "ht0 d \<noteq> dictht_null"
  obtains (hit0) p where "\<not> int b0 < rehashidx d" "searchTable ty d 0 hash key = Inr (i0, Some p)"
      "link_to ty d key (0, i0, p)"
    | (miss0) "\<not> int b0 < rehashidx d" "searchTable ty d 0 hash key = Inr (i0, None)"
      "\<not> dictIsRehashing d" "no_key ty d key" "bucket_for ty d key = (0, i0, 0)"
    | (hit1) p where "dictIsRehashing d" "int b0 < rehashidx d \<or> searchTable ty d 0 hash key = Inr (i0, None)"
      "searchTable ty d 1 hash key = Inr (i1, Some p)" "link_to ty d key (1, i1, p)"
    | (miss1) "dictIsRehashing d" "int b0 < rehashidx d \<or> searchTable ty d 0 hash key = Inr (i0, None)"
      "searchTable ty d 1 hash key = Inr (i1, None)" "no_key ty d key" "bucket_for ty d key = (1, i1, 0)"
proof -
  obtain pos0 where s0: "searchTable ty d 0 hash key = Inr (i0, pos0)"
    "case pos0 of Some p \<Rightarrow> link_to ty d key (0, i0, p) | None \<Rightarrow> \<forall>p\<in>#ht_payload (ht0 d). \<not> has_key ty key p"
    using search0_ok [OF assms(5,6) dict_inv_ht0 [OF assms(6,8)], of key] unfolding hash_def i0_def by blast
  show ?thesis
  proof (cases "int b0 < rehashidx d \<or> dictIsRehashing d \<and> pos0 = None")
    case True
    have r: "dictIsRehashing d" "\<forall>p\<in>#ht_payload (ht0 d). \<not> has_key ty key p"
      using True s0 search_skip [OF assms(5-7), of key] by (auto simp: b0_def hash_def)
    obtain pos1 where s1: "searchTable ty d 1 hash key = Inr (i1, pos1)"
      "case pos1 of Some p \<Rightarrow> link_to ty d key (1, i1, p) | None \<Rightarrow> \<forall>p\<in>#ht_payload (ht1 d). \<not> has_key ty key p"
      using search1_ok [OF assms(5,6) r(1), of key] unfolding hash_def i1_def by blast
    show ?thesis
    proof (cases pos1)
      case None
      then show ?thesis using True r s0 s1
        by (intro miss1) (auto simp: no_key_tables bucket_for_def dict_ht_def i1_def hash_def)
    next
      case (Some p)
      then show ?thesis using True r s0 s1 by (intro hit1 [of p]) auto
    qed
  next
    case False
    show ?thesis
    proof (cases pos0)
      case None
      then show ?thesis using False s0 dict_inv_ht1 [OF assms(6)]
        by (intro miss0) (auto simp: no_key_tables bucket_for_def dict_ht_def i0_def hash_def)
    next
      case (Some p)
      then show ?thesis using False s0 by (intro hit0 [of p]) auto
    qed
  qed
qed

lemma dictFindLinkInternal_ok:
  assumes "wf_type ty" "dict_inv ty d" "ht0 d \<noteq> dictht_null"
  shows "\<exists>d' link bucket. dictFindLinkInternal cr ty d key want = Inr (d', link, bucket) \<and> dict_same ty d d' \<and>
    (case link of Some l \<Rightarrow> link_to ty d' key l
     | None \<Rightarrow> no_key ty d' key \<and> (want \<longrightarrow> bucket = Some (bucket_for ty d' key)))"
proof (cases "\<not> want \<and> dictSize d = 0")
  case True
  then show ?thesis using dictSize_payload [OF assms(2)] dict_same_refl [OF assms(2)]
    by (simp add: dictFindLinkInternal_def no_key_def)
next
  case False
  let ?idx = "dictBucket (hashFunction ty key) (ht_size_exp (ht0 d))"
  obtain d' where d': "dictRehashStepIfNeeded cr ty d ?idx = Inr d'" "dict_same ty d d'" "idx_stable d d'"
    using dictRehashStepIfNeeded_ok [OF assms(2) refl] by blast
  have inv': "dict_inv ty d'" and nn: "ht0 d' \<noteq> dictht_null" using d'(2) assms(3) by (auto simp: dict_same_def)
  note unf = dictFindLinkInternal_def Let_def
  show ?thesis using assms(1) inv' d'(3) nn
  proof (cases rule: search_cases [of ty d' d key])
    case (hit0 p)
    then show ?thesis using False d'(1,2) by (auto simp: unf)
  next
    case miss0
    then show ?thesis using False d'(1,2) by (auto simp: unf)
  next
    case (hit1 p)
    then show ?thesis using False d'(1,2) by (auto simp: unf)
  next
    case miss1
    then show ?thesis using False d'(1,2) by (auto simp: unf)
  qed
qed

lemma dictFindLink_ok:
  assumes "wf_type ty" "dict_inv ty d"
  shows "\<exists>d' link bucket. dictFindLink cr ty d key want = Inr (d', link, bucket) \<and> dict_same ty d d' \<and>
    (case link of Some l \<Rightarrow> link_to ty d' key l | None \<Rightarrow> no_key ty d' key)"
proof (cases "dictSize d = 0")
  case True
  then show ?thesis using dictSize_payload [OF assms(2)] dict_same_refl [OF assms(2)]
    by (simp add: dictFindLink_def no_key_def)
next
  case False
  then have "ht0 d \<noteq> dictht_null" using dict_inv_null [OF assms(2)] dictSize_payload [OF assms(2)] by auto
  then show ?thesis using False dictFindLinkInternal_ok [OF assms, of cr key want]
    by (fastforce simp: dictFindLink_def split: option.splits)
qed

lemma link_to_entry:
  assumes "link_to ty d key l"
  shows "\<exists>de. link_entry d l = Inr de \<and> payload de \<in># dict_payload d \<and> has_key ty key (payload de) \<and>
    (no_value ty \<longleftrightarrow> \<not> entryHasValue de)"
proof -
  obtain t i p where l: "l = (t, i, p)" by (cases l)
  let ?h = "dict_ht d t"
  let ?de = "ht_table ?h ! i ! p"
  have b: "i < length (ht_table ?h)" "p < length (ht_table ?h ! i)" "ht_ok ty ?h" "key_eq ty key (entry_key ty ?de)"
    using assms by (auto simp: link_to_def l)
  have "?de \<in> set (ht_table ?h ! i)" using b by simp
  then have mem: "?de \<in> set (concat (ht_table ?h))" and ok: "chain_ok ty (ht_table ?h ! i)"
    using b by (auto simp: in_concat_nth ht_ok_def simp del: set_concat)
  have "payload ?de \<in># ht_payload ?h" using mem by (simp add: ht_payload_def)
  then have "payload ?de \<in># dict_payload d"
    by (auto simp: dict_payload_def dict_ht_def split: if_splits)
  moreover have "no_value ty \<longleftrightarrow> \<not> entryHasValue ?de"
    using ok \<open>?de \<in> set (ht_table ?h ! i)\<close> by (auto simp: chain_ok_def split: if_splits)
  ultimately show ?thesis using b by (auto simp: link_entry_def l)
qed

lemma dictFind_ok:
  assumes "wf_type ty" "dict_inv ty d"
  shows "\<exists>d' r. dictFind cr ty d key = Inr (d', r) \<and> dict_same ty d d' \<and>
    (case r of Some de \<Rightarrow> payload de \<in># dict_payload d \<and> has_key ty key (payload de) \<and>
                 (no_value ty \<longleftrightarrow> \<not> entryHasValue de)
     | None \<Rightarrow> no_key ty d key)"
proof -
  obtain d' link bucket where r: "dictFindLink cr ty d key False = Inr (d', link, bucket)" "dict_same ty d d'"
    and l: "case link of Some l \<Rightarrow> link_to ty d' key l | None \<Rightarrow> no_key ty d' key"
    using dictFindLink_ok [OF assms] by blast
  show ?thesis
  proof (cases link)
    case None
    then show ?thesis using r l by (auto simp: dictFind_def no_key_def dict_same_def)
  next
    case (Some lk)
    then show ?thesis using r l link_to_entry [of ty d' key lk]
      by (fastforce simp: dictFind_def dict_same_def)
  qed
qed

section \<open>Updating a bucket\<close>

lemma chain_ok_nth:
  "chain_ok ty c \<longleftrightarrow>
   (\<forall>j<length c. entryHasValue (c ! j) = (\<not> no_value ty) \<and> (Suc j < length c \<longrightarrow> \<not> entryIsKey (c ! j)))"
proof -
  have "\<not> entryIsKey e" if "entryHasValue e" for e :: "('a, 'c) dictEntry" using that by (cases e) auto
  moreover have "(\<forall>e\<in>set (butlast c). \<not> entryIsKey e) \<longleftrightarrow> (\<forall>j. Suc j < length c \<longrightarrow> \<not> entryIsKey (c ! j))"
    by (auto simp: all_set_conv_all_nth nth_butlast less_diff_conv)
  ultimately show ?thesis unfolding chain_ok_def by (auto simp: all_set_conv_all_nth)
qed

lemma dict_update_ok:
  fixes d :: "('s, 'v) dict"
  defines "upd \<equiv> \<lambda>t i c u. set_ht d t ((dict_ht d t)\<lparr>ht_table := (ht_table (dict_ht d t))[i := c], ht_used := u\<rparr>)"
  assumes "dict_inv ty d" "t \<le> 1" "t = 1 \<longrightarrow> dictIsRehashing d" "ht_ok ty (dict_ht d t)"
    and "i < length (ht_table (dict_ht d t))" "chain_ok ty c"
    and "\<And>e. e \<in> set c \<Longrightarrow> dictBucket (hashFunction ty (entry_key ty e)) (ht_size_exp (dict_ht d t)) = i"
    and "u + length (ht_table (dict_ht d t) ! i) = ht_used (dict_ht d t) + length c"
    and "t = 0 \<and> dictIsRehashing d \<longrightarrow> ht_table (dict_ht d t) ! i \<noteq> []"
  shows "dict_inv ty (upd t i c u)" "ht_ok ty (dict_ht (upd t i c u) t)" "ht0 (upd t i c u) \<noteq> dictht_null"
    and "dict_payload (upd t i c u) + image_mset payload (mset (ht_table (dict_ht d t) ! i)) =
      dict_payload d + image_mset payload (mset c)"
    and "pauserehash (upd t i c u) = pauserehash d" "pauseAutoResize (upd t i c u) = pauseAutoResize d"
    and "rehashidx (upd t i c u) = rehashidx d"
proof -
  let ?h = "(dict_ht d t)\<lparr>ht_table := (ht_table (dict_ht d t))[i := c], ht_used := u\<rparr>"
  note ok = ht_ok_update [OF assms(5-9)]
  have pl: "ht_payload ?h + image_mset payload (mset (ht_table (dict_ht d t) ! i)) =
      ht_payload (dict_ht d t) + image_mset payload (mset c)"
    using ht_payload_update [OF assms(6), of c] by (simp add: ht_payload_def)
  have t: "t = 0 \<or> t = 1" using assms(3) by auto
  have reh: "dictIsRehashing (upd t i c u) \<longleftrightarrow> dictIsRehashing d"
    by (simp add: upd_def set_ht_def dictIsRehashing_def)
  have low: "\<forall>j<nat (rehashidx d). (ht_table (ht0 d))[i := c] ! j = []" if "t = 0" "dictIsRehashing d"
    using assms(2,6,10) that by (auto simp: dict_inv_def rehash_inv_def dict_ht_def nth_list_update)
  show "dict_inv ty (upd t i c u)"
    using t ok assms(2,4) low reh
    by (auto simp: dict_inv_def rehash_inv_def upd_def set_ht_def dict_ht_def split: if_splits)
  show "ht_ok ty (dict_ht (upd t i c u) t)"
    using t ok by (auto simp: upd_def set_ht_def dict_ht_def)
  show "ht0 (upd t i c u) \<noteq> dictht_null"
    using t ok assms(2,4) by (auto simp: upd_def set_ht_def dict_ht_def dict_inv_def rehash_inv_def dest: ht_ok_not_null)
  show "dict_payload (upd t i c u) + image_mset payload (mset (ht_table (dict_ht d t) ! i)) =
      dict_payload d + image_mset payload (mset c)"
    using t pl by (auto simp: dict_payload_def upd_def set_ht_def dict_ht_def add_ac)
  show "pauserehash (upd t i c u) = pauserehash d" "pauseAutoResize (upd t i c u) = pauseAutoResize d"
    "rehashidx (upd t i c u) = rehashidx d"
    by (simp_all add: upd_def set_ht_def)
qed

lemma mset_swap:
  fixes A B X Y :: "'a multiset"
  assumes "A + X = B + Y" "Y + {#a#} = X + {#b#}"
  shows "A + {#a#} = B + {#b#}"
proof -
  have "A + {#a#} + X = A + X + {#a#}" by simp
  also have "\<dots> = B + (Y + {#a#})" using assms(1) by simp
  also have "\<dots> = B + {#b#} + X" unfolding assms(2) by simp
  finally show ?thesis by simp
qed

lemma mset_swap_diff:
  assumes "P + {#a#} = Q + {#b#}" "a \<in># Q"
  shows "P = Q - {#a#} + {#b#}"
proof -
  have "P = {#b#} + Q - {#a#}" using assms(1) by (metis add_diff_cancel_right' union_commute)
  then show ?thesis using diff_union_single_conv [OF assms(2), of "{#b#}"] by (simp add: union_commute)
qed

text \<open>Replacing the entry a link leads to by one with the same key.\<close>

lemma set_link_entry_ok:
  assumes "dict_inv ty d" "link_to ty d key l" "link_entry d l = Inr old"
    and "dictGetKey new = dictGetKey old" "entryHasValue new \<longleftrightarrow> entryHasValue old" "entryIsKey new \<longleftrightarrow> entryIsKey old"
  shows "\<exists>d'. set_link_entry d l new = Inr d' \<and> dict_inv ty d' \<and> ht0 d' \<noteq> dictht_null \<and>
    dict_payload d' = dict_payload d - {#payload old#} + {#payload new#} \<and>
    pauserehash d' = pauserehash d \<and> pauseAutoResize d' = pauseAutoResize d"
proof -
  obtain t i p where l: "l = (t, i, p)" by (cases l)
  let ?h = "dict_ht d t"
  let ?c = "ht_table ?h ! i"
  have b: "t \<le> 1" "t = 1 \<longrightarrow> dictIsRehashing d" "ht_ok ty ?h" "i < length (ht_table ?h)" "p < length ?c"
    using assms(2) by (auto simp: link_to_def l)
  have old: "old = ?c ! p" using assms(3) b by (simp add: link_entry_def l)
  have cok: "chain_ok ty ?c" "\<And>e. e \<in> set ?c \<Longrightarrow> dictBucket (hashFunction ty (entry_key ty e)) (ht_size_exp ?h) = i"
    using b by (auto simp: ht_ok_def)
  have c: "chain_ok ty (?c[p := new])"
    using cok(1) assms(5,6) old b(5) by (auto simp: chain_ok_nth nth_list_update)
  have e: "dictBucket (hashFunction ty (entry_key ty e)) (ht_size_exp ?h) = i" if "e \<in> set (?c[p := new])" for e
    using that set_update_subset_insert [of ?c p new] cok(2) [of e] cok(2) [of old] b(5) old assms(4)
    by (auto simp: entry_key_def)
  have "mset (?c[p := new]) = mset ?c - {#old#} + {#new#}" using b(5) old by (simp add: mset_update)
  moreover have "old \<in># mset ?c" using b(5) old by simp
  ultimately have m: "image_mset payload (mset (?c[p := new])) + {#payload old#} = image_mset payload (mset ?c) + {#payload new#}"
    by (metis (no_types) add_mset_add_single image_mset_add_mset insert_DiffM2 union_commute add_mset_commute)
  have u: "ht_used ?h + length ?c = ht_used ?h + length (?c[p := new])" "t = 0 \<and> dictIsRehashing d \<longrightarrow> ?c \<noteq> []"
    using b(5) by auto
  note upd = dict_update_ok [OF assms(1) b(1-4) c e u]
  let ?d = "set_ht d t (?h\<lparr>ht_table := (ht_table ?h)[i := ?c[p := new]]\<rparr>)"
  have same: "set_ht d t (?h\<lparr>ht_table := (ht_table ?h)[i := ?c[p := new]], ht_used := ht_used ?h\<rparr>) = ?d"
    by simp
  have "dict_payload ?d + {#payload old#} = dict_payload d + {#payload new#}"
    using mset_swap [OF upd(4) m] unfolding same .
  moreover have "payload old \<in># dict_payload d" using link_to_entry [OF assms(2)] assms(3) by auto
  ultimately have "dict_payload ?d = dict_payload d - {#payload old#} + {#payload new#}"
    by (rule mset_swap_diff)
  moreover have "set_link_entry d l new = Inr ?d" using b by (simp add: set_link_entry_def l)
  ultimately show ?thesis using upd(1,3,5,6) unfolding same by auto
qed

text \<open>Removing the entry a link leads to.\<close>

lemma chain_ok_remove: "chain_ok ty c \<Longrightarrow> chain_ok ty (take p c @ drop (Suc p) c)"
  by (auto simp: chain_ok_nth nth_append)

lemma link_unlink_chain:
  assumes "chain_ok ty c" "p < length c"
  shows "take p c @ dictGetNext (c ! p) (drop (Suc p) c) = take p c @ drop (Suc p) c"
    and "unlinkAt c p = Inr (take p c @ drop (Suc p) c)"
proof -
  have "entryIsKey (c ! p) \<Longrightarrow> drop (Suc p) c = []" using assms by (auto simp: chain_ok_nth)
  then have nx: "dictGetNext (c ! p) (drop (Suc p) c) = drop (Suc p) c" by (auto simp: dictGetNext_def)
  then show "take p c @ dictGetNext (c ! p) (drop (Suc p) c) = take p c @ drop (Suc p) c" by simp
  have "\<not> entryIsKey (c ! (p - 1))" if "0 < p"
    using assms that by (auto simp: chain_ok_nth)
  then show "unlinkAt c p = Inr (take p c @ drop (Suc p) c)"
    using assms(2) nx by (auto simp: unlinkAt_def Let_def)
qed

lemma unlink_ok:
  assumes "dict_inv ty d" "link_to ty d key (t, i, p)" "link_entry d (t, i, p) = Inr old"
  defines "c \<equiv> ht_table (dict_ht d t) ! i"
  defines "d' \<equiv> set_ht d t ((dict_ht d t)\<lparr>ht_table := (ht_table (dict_ht d t))[i := take p c @ drop (Suc p) c],
      ht_used := ul_dec (ht_used (dict_ht d t))\<rparr>)"
  shows "dict_inv ty d'" "dict_payload d' = dict_payload d - {#payload old#}"
    and "pauserehash d' = pauserehash d" "pauseAutoResize d' = pauseAutoResize d" "ht0 d' \<noteq> dictht_null"
    and "unlinkEntry d (t, i, p) = Inr (d', old)"
proof -
  let ?h = "dict_ht d t" and ?c' = "take p c @ drop (Suc p) c"
  have b: "t \<le> 1" "t = 1 \<longrightarrow> dictIsRehashing d" "ht_ok ty ?h" "i < length (ht_table ?h)" "p < length c"
    using assms(2) by (auto simp: link_to_def c_def)
  have old: "old = c ! p" using assms(3) b by (simp add: link_entry_def c_def)
  have cok: "chain_ok ty c" "\<And>e. e \<in> set c \<Longrightarrow> dictBucket (hashFunction ty (entry_key ty e)) (ht_size_exp ?h) = i"
    using b by (auto simp: ht_ok_def c_def)
  have used: "length c \<le> ht_used ?h" using bucket_used_le [OF b(4)] b(3) by (simp add: ht_ok_def c_def)
  then have u: "ul_dec (ht_used ?h) + length (ht_table ?h ! i) = ht_used ?h + length ?c'"
    using b(5) by (simp add: ul_dec_def c_def)
  have ne: "t = 0 \<and> dictIsRehashing d \<longrightarrow> ht_table ?h ! i \<noteq> []" using b(5) by (auto simp: c_def)
  have e: "dictBucket (hashFunction ty (entry_key ty e)) (ht_size_exp ?h) = i" if "e \<in> set ?c'" for e
    using that by (intro cok(2)) (auto dest: in_set_takeD in_set_dropD)
  note upd = dict_update_ok [OF assms(1) b(1-4) chain_ok_remove [OF cok(1)] e u ne]
  have "c = take p c @ old # drop (Suc p) c" using b(5) old by (simp add: id_take_nth_drop)
  then have "mset c = mset ?c' + {#old#}"
    by (metis mset_append mset.simps(2) union_mset_add_mset_right add_mset_add_single)
  then have "dict_payload d' + {#payload old#} + image_mset payload (mset ?c') = dict_payload d + image_mset payload (mset ?c')"
    using upd(4) by (simp add: d'_def c_def)
  then show "dict_payload d' = dict_payload d - {#payload old#}"
    by (metis add_diff_cancel_right' add_right_imp_eq)
  show "dict_inv ty d'" "pauserehash d' = pauserehash d" "pauseAutoResize d' = pauseAutoResize d" "ht0 d' \<noteq> dictht_null"
    using upd(1,3,5,6) by (simp_all add: d'_def)
  show "unlinkEntry d (t, i, p) = Inr (d', old)"
    using b old link_unlink_chain(2) [OF cok(1) b(5)] by (simp add: unlinkEntry_def Let_def d'_def c_def)
qed

section \<open>Insertion, replacement and deletion\<close>

lemma dictFindLinkForInsert_ok:
  assumes "wf_type ty" "dict_inv ty d"
  shows "\<exists>d' b ex. dictFindLinkForInsert cr ty d key = Inr (d', b, ex) \<and> dict_same ty d d' \<and>
    ht0 d' \<noteq> dictht_null \<and>
    (case ex of Some l \<Rightarrow> b = None \<and> link_to ty d' key l
     | None \<Rightarrow> no_key ty d' key \<and> b = Some (bucket_for ty d' key))"
proof -
  let ?idx = "dictBucket (hashFunction ty key) (ht_size_exp (ht0 d))"
  obtain d1 where d1: "dictRehashStepIfNeeded cr ty d ?idx = Inr d1" "dict_same ty d d1" "idx_stable d d1"
    using dictRehashStepIfNeeded_ok [OF assms(2) refl] by blast
  then have inv1: "dict_inv ty d1" by (simp add: dict_same_def)
  obtain d2 ok where d2: "dictExpandIfNeeded' cr ty d1 = Inr (d2, ok)" "dict_same ty d1 d2" "ht_ok ty (ht0 d2)"
    "d2 = d1 \<or> rehashidx d2 \<le> 0"
    using dictExpandIfNeeded'_ok [OF inv1] by blast
  have inv2: "dict_inv ty d2" and same: "dict_same ty d d2" and stable: "idx_stable d d2"
    and nn: "ht0 d2 \<noteq> dictht_null"
    using d1 d2 dict_same_trans ht_ok_not_null by (auto simp: dict_same_def idx_stable_def)
  note unf = dictFindLinkForInsert_def Let_def
  show ?thesis using assms(1) inv2 stable nn
  proof (cases rule: search_cases [of ty d2 d key])
    case (hit0 p)
    then show ?thesis using d1(1) d2(1) same nn by (auto simp: unf)
  next
    case miss0
    then show ?thesis using d1(1) d2(1) same nn by (auto simp: unf)
  next
    case (hit1 p)
    then show ?thesis using d1(1) d2(1) same nn by (auto simp: unf)
  next
    case miss1
    then show ?thesis using d1(1) d2(1) same nn by (auto simp: unf)
  qed
qed

text \<open>The entry a new key gets.\<close>

definition new_payload :: "('s, 'k, 'v) dictType \<Rightarrow> 's \<Rightarrow> 'v \<Rightarrow> 's \<times> 'v option" where
  "new_payload ty s v = (s, if no_value ty then None else Some v)"

lemma dictInsertKeyAtLink_ok:
  assumes "wf_type ty" "dict_inv ty d" "ht0 d \<noteq> dictht_null" "key_eq ty key (keyFromStoredKey ty s)"
  shows "\<exists>d'. dictInsertKeyAtLink ty junk d s (bucket_for ty d key) = Inr d' \<and> dict_inv ty d' \<and>
    dict_payload d' = dict_payload d + {#new_payload ty s junk#} \<and> ht0 d' \<noteq> dictht_null \<and>
    pauserehash d' = pauserehash d \<and> pauseAutoResize d' = pauseAutoResize d \<and>
    link_to ty d' key (bucket_for ty d key) \<and>
    (\<exists>de. link_entry d' (bucket_for ty d key) = Inr de \<and> payload de = new_payload ty s junk)"
proof -
  define t :: nat where "t = (if dictIsRehashing d then 1 else 0)"
  let ?h = "dict_ht d t"
  define i where "i = dictBucket (hashFunction ty key) (ht_size_exp ?h)"
  let ?old = "ht_table ?h ! i"
  define c where "c = (if no_value ty then if ?old = [] then [KeyEntry s] else NoValueEntry s # ?old
    else NormalEntry s junk # ?old)"
  have ok: "ht_ok ty ?h"
    using dict_inv_ht0 [OF assms(2,3)] dict_inv_ht1 [OF assms(2)] by (auto simp: t_def dict_ht_def split: if_splits)
  have i: "i < length (ht_table ?h)" using ht_ok_bucket [OF ok] by (simp add: i_def)
  have old: "chain_ok ty ?old" "\<And>e. e \<in> set ?old \<Longrightarrow> dictBucket (hashFunction ty (entry_key ty e)) (ht_size_exp ?h) = i"
    using ok i by (auto simp: ht_ok_def)
  have c: "chain_ok ty c" using old(1) by (cases ?old) (auto simp: c_def chain_ok_def split: if_splits)
  have pl: "image_mset payload (mset c) = image_mset payload (mset ?old) + {#new_payload ty s junk#}" "c \<noteq> []"
    "payload (c ! 0) = new_payload ty s junk" "length c = Suc (length ?old)"
    by (auto simp: c_def new_payload_def)
  have keys: "e \<in> set c \<Longrightarrow> e \<in> set ?old \<or> dictGetKey e = s" for e by (auto simp: c_def split: if_splits)
  have e: "dictBucket (hashFunction ty (entry_key ty e)) (ht_size_exp ?h) = i" if "e \<in> set c" for e
    using keys [OF that] old(2) [of e] key_eq_hash [OF assms(1,4)] by (auto simp: entry_key_def i_def)
  have side: "t \<le> 1" "t = 1 \<longrightarrow> dictIsRehashing d" "t = 0 \<and> dictIsRehashing d \<longrightarrow> ?old \<noteq> []"
    "ht_used ?h + 1 + length ?old = ht_used ?h + length c"
    using pl(4) by (auto simp: t_def)
  note upd = dict_update_ok [OF assms(2) side(1,2) ok i c e side(4,3)]
  let ?d = "set_ht d t (?h\<lparr>ht_table := (ht_table ?h)[i := c], ht_used := ht_used ?h + 1\<rparr>)"
  have ht: "dict_ht ?d t = ?h\<lparr>ht_table := (ht_table ?h)[i := c], ht_used := ht_used ?h + 1\<rparr>"
    using side(1) by (auto simp: dict_ht_def set_ht_def)
  have "dict_payload ?d = dict_payload d + {#new_payload ty s junk#}"
    using upd(4) pl(1) by simp
  moreover have bf: "bucket_for ty d key = (t, i, 0)" by (simp add: bucket_for_def t_def i_def Let_def)
  moreover have "link_to ty ?d key (t, i, 0)"
  proof -
    have "c ! 0 \<in> set c \<and> dictGetKey (c ! 0) = s" by (auto simp: c_def)
    then show ?thesis using side(1,2) upd(2,7) i pl(2) assms(4) ht
      by (auto simp: link_to_def i_def entry_key_def dictIsRehashing_def simp del: One_nat_def)
  qed
  moreover have "link_entry ?d (t, i, 0) = Inr (c ! 0)" using ht i pl(2) by (simp add: link_entry_def rd_def)
  moreover have "dictInsertKeyAtLink ty junk d s (t, i, 0) = Inr ?d"
  proof -
    have "i \<le> unat (DICTHT_SIZE_MASK (ht_size_exp ?h))"
      unfolding i_def dictBucket_def by (metis word_le_nat_alt word_and_le1)
    then show ?thesis using i by (simp add: dictInsertKeyAtLink_def Let_def c_def flip: t_def)
  qed
  ultimately show ?thesis using upd(1,3,5,6) pl(3) by auto
qed

text \<open>
  The map a dict represents: to every lookup key the stored key and value of the one entry whose key
  compares equal to it.
\<close>

definition mrep :: "('s, 'k, 'v) dictType \<Rightarrow> ('s \<times> 'v option) multiset \<Rightarrow> ('k \<rightharpoonup> 's \<times> 'v option) \<Rightarrow> bool" where
  "mrep ty M m \<longleftrightarrow> (\<forall>p. count M p \<le> 1) \<and> (\<forall>k p. m k = Some p \<longleftrightarrow> p \<in># M \<and> has_key ty k p)"

abbreviation key_upd :: "('s, 'k, 'v) dictType \<Rightarrow> ('k \<rightharpoonup> 'r) \<Rightarrow> 'k \<Rightarrow> 'r option \<Rightarrow> ('k \<rightharpoonup> 'r)" where
  "key_upd ty m k r \<equiv> map_set (key_eq ty) m k r"

lemma has_key_cong:
  assumes "wf_type ty" "has_key ty k p"
  shows "has_key ty k' p \<longleftrightarrow> key_eq ty k' k"
  using assms(2) key_eq_sym [OF assms(1)] key_eq_trans [OF assms(1)] unfolding has_key_def by blast

lemma mrep_count: "mrep ty M m \<Longrightarrow> count M p \<le> 1"
  unfolding mrep_def by blast

lemma mrep_iff: "mrep ty M m \<Longrightarrow> m k = Some p \<longleftrightarrow> p \<in># M \<and> has_key ty k p"
  unfolding mrep_def by blast

lemma mrepI: "(\<And>p. count M p \<le> 1) \<Longrightarrow> (\<And>k p. m k = Some p \<longleftrightarrow> p \<in># M \<and> has_key ty k p) \<Longrightarrow> mrep ty M m"
  unfolding mrep_def by blast

lemma mrep_none: "mrep ty M m \<Longrightarrow> m k = None \<longleftrightarrow> (\<forall>p\<in>#M. \<not> has_key ty k p)"
  unfolding mrep_def by (metis not_None_eq option.distinct(1))

lemma mrep_insert:
  assumes "wf_type ty" "mrep ty M m" "\<forall>p\<in>#M. \<not> has_key ty k p" "has_key ty k r"
  shows "mrep ty (M + {#r#}) (key_upd ty m k (Some r))"
proof -
  have "r \<notin># M" using assms(3,4) by blast
  then have "count (M + {#r#}) p \<le> 1" for p using mrep_count [OF assms(2), of p] by (auto simp: not_in_iff)
  moreover have "key_upd ty m k (Some r) k' = Some p \<longleftrightarrow> p \<in># M + {#r#} \<and> has_key ty k' p" for k' p
  proof (cases "key_eq ty k' k")
    case True
    have "\<not> has_key ty k' p" if "p \<in># M"
      using assms(3) that True has_key_cong [OF assms(1), of k' p k] key_eq_sym [OF assms(1) True] by blast
    then show ?thesis using True has_key_cong [OF assms(1,4), of k'] by (auto simp: map_set_def)
  next
    case False
    then show ?thesis using mrep_iff [OF assms(2), of k' p] has_key_cong [OF assms(1,4), of k']
      by (auto simp: map_set_def)
  qed
  ultimately show ?thesis by (rule mrepI)
qed

lemma mrep_remove:
  assumes "wf_type ty" "mrep ty M m" "p \<in># M" "has_key ty k p"
  shows "mrep ty (M - {#p#}) (key_upd ty m k None)" "m k = Some p" "\<forall>q\<in>#M - {#p#}. \<not> has_key ty k q"
proof -
  show mk: "m k = Some p" using mrep_iff [OF assms(2)] assms(3,4) by blast
  have "count M p \<le> 1" by (rule mrep_count [OF assms(2)])
  then have out: "p \<notin># M - {#p#}" by (simp add: not_in_iff)
  have uniq: "q = p" if "q \<in># M" "has_key ty k q" for q
  proof -
    have "m k = Some q" using mrep_iff [OF assms(2)] that by blast
    then show ?thesis using mk by simp
  qed
  show rest: "\<forall>q\<in>#M - {#p#}. \<not> has_key ty k q"
    using uniq out by (metis in_diffD)
  have "count (M - {#p#}) q \<le> 1" for q
  proof -
    have "count M q \<le> 1" by (rule mrep_count [OF assms(2)])
    then show ?thesis by (simp add: le_diff_conv trans_le_add1)
  qed
  moreover have "key_upd ty m k None k' = Some q \<longleftrightarrow> q \<in># M - {#p#} \<and> has_key ty k' q" for k' q
  proof (cases "key_eq ty k' k")
    case True
    then have "\<not> has_key ty k' q" if "q \<in># M - {#p#}"
      using rest that has_key_cong [OF assms(1), of k' q k] key_eq_sym [OF assms(1) True] by blast
    then show ?thesis using True by (auto simp: map_set_def)
  next
    case False
    then have "q \<noteq> p" if "has_key ty k' q" using that has_key_cong [OF assms(1,4), of k'] by auto
    then have "q \<in># M - {#p#} \<and> has_key ty k' q \<longleftrightarrow> q \<in># M \<and> has_key ty k' q"
      by (auto dest: in_diffD simp: in_diff_count)
    then show ?thesis using False mrep_iff [OF assms(2), of k' q] by (simp add: map_set_def)
  qed
  ultimately show "mrep ty (M - {#p#}) (key_upd ty m k None)" by (rule mrepI)
qed

lemma key_upd_twice [simp]: "key_upd ty (key_upd ty m k a) k b = key_upd ty m k b"
  by (auto simp: map_set_def)

text \<open>A dict with its map; the pause counters do not change.\<close>

definition dict_rep :: "('s, 'k, 'v) dictType \<Rightarrow> ('s, 'v) dict \<Rightarrow> ('k \<rightharpoonup> 's \<times> 'v option) \<Rightarrow> bool" where
  "dict_rep ty d m \<longleftrightarrow> dict_inv ty d \<and> mrep ty (dict_payload d) m"

lemma dict_rep_same: "dict_rep ty d m \<Longrightarrow> dict_same ty d d' \<Longrightarrow> dict_rep ty d' m"
  by (simp add: dict_rep_def dict_same_def)

lemma dict_rep_create: "dict_rep ty dictCreate Map.empty"
  unfolding dict_rep_def by (intro conjI dict_inv_create mrepI) (simp_all add: dict_payload_def dictCreate_def)

lemma dict_rep_find:
  assumes "wf_type ty" "dict_rep ty d m"
  shows "\<exists>d'. dictFind cr ty d key = Inr (d', None) \<and> m key = None \<and> dict_rep ty d' m \<or>
    (\<exists>de. dictFind cr ty d key = Inr (d', Some de) \<and> m key = Some (payload de) \<and>
      (no_value ty \<longleftrightarrow> \<not> entryHasValue de) \<and> dict_rep ty d' m)"
proof -
  have inv: "dict_inv ty d" using assms(2) by (simp add: dict_rep_def)
  obtain d' r where r: "dictFind cr ty d key = Inr (d', r)" "dict_same ty d d'"
    "case r of Some de \<Rightarrow> payload de \<in># dict_payload d \<and> has_key ty key (payload de) \<and>
                 (no_value ty \<longleftrightarrow> \<not> entryHasValue de)
     | None \<Rightarrow> no_key ty d key"
    using dictFind_ok [OF assms(1) inv] by blast
  have rep': "dict_rep ty d' m" by (rule dict_rep_same [OF assms(2) r(2)])
  show ?thesis
  proof (cases r)
    case None
    then have "m key = None" using r(3) assms(2) mrep_none [of ty "dict_payload d" m key]
      by (simp add: dict_rep_def no_key_def)
    then show ?thesis using r(1) None rep' by auto
  next
    case (Some de)
    then have "m key = Some (payload de)"
      using r(3) assms(2) mrep_iff [of ty "dict_payload d" m key "payload de"] by (simp add: dict_rep_def)
    then show ?thesis using r Some rep' by auto
  qed
qed

lemma dictAddRaw_ok:
  assumes "wf_type ty" "dict_rep ty d m"
  defines "k \<equiv> \<lambda>s. keyFromStoredKey ty s"
  shows "\<exists>d' en ex. dictAddRaw cr ty junk d s = Inr (d', en, ex) \<and>
    (case m (k s) of
       None \<Rightarrow> ex = None \<and> (\<exists>l de. en = Some l \<and> link_to ty d' (k s) l \<and> link_entry d' l = Inr de \<and>
         payload de = new_payload ty (keyDup ty s) junk) \<and>
         dict_rep ty d' (key_upd ty m (k s) (Some (new_payload ty (keyDup ty s) junk)))
     | Some p \<Rightarrow> en = None \<and> (\<exists>l de. ex = Some l \<and> link_to ty d' (k s) l \<and> link_entry d' l = Inr de \<and> payload de = p) \<and>
         dict_rep ty d' m)"
proof -
  have inv: "dict_inv ty d" using assms(2) by (simp add: dict_rep_def)
  obtain d1 b ex where d1: "dictFindLinkForInsert cr ty d (k s) = Inr (d1, b, ex)" "dict_same ty d d1"
    "ht0 d1 \<noteq> dictht_null"
    "case ex of Some l \<Rightarrow> b = None \<and> link_to ty d1 (k s) l
     | None \<Rightarrow> no_key ty d1 (k s) \<and> b = Some (bucket_for ty d1 (k s))"
    using dictFindLinkForInsert_ok [OF assms(1) inv] by blast
  have rep1: "dict_rep ty d1 m" by (rule dict_rep_same [OF assms(2) d1(2)])
  then have inv1: "dict_inv ty d1" and m1: "mrep ty (dict_payload d1) m" by (simp_all add: dict_rep_def)
  show ?thesis
  proof (cases ex)
    case None
    then have nk: "\<forall>p\<in>#dict_payload d1. \<not> has_key ty (k s) p" and b: "b = Some (bucket_for ty d1 (k s))"
      using d1(4) by (simp_all add: no_key_def)
    have ke: "key_eq ty (k s) (keyFromStoredKey ty (keyDup ty s))"
      using key_eq_sym [OF assms(1) key_eq_dup [OF assms(1)]] by (simp add: k_def)
    then have hk: "has_key ty (k s) (new_payload ty (keyDup ty s) junk)"
      by (simp add: has_key_def new_payload_def)
    obtain d2 de where "dictInsertKeyAtLink ty junk d1 (keyDup ty s) (bucket_for ty d1 (k s)) = Inr d2"
      "dict_inv ty d2" "dict_payload d2 = dict_payload d1 + {#new_payload ty (keyDup ty s) junk#}"
      "link_to ty d2 (k s) (bucket_for ty d1 (k s))" "link_entry d2 (bucket_for ty d1 (k s)) = Inr de"
      "payload de = new_payload ty (keyDup ty s) junk"
      using dictInsertKeyAtLink_ok [OF assms(1) inv1 d1(3) ke, of junk] by blast
    moreover have "m (k s) = None" using mrep_none [OF m1] nk by simp
    ultimately show ?thesis using d1(1) b None mrep_insert [OF assms(1) m1 nk hk]
      by (simp add: dictAddRaw_def dict_rep_def del: split_paired_Ex flip: k_def)
  next
    case (Some l)
    then have l: "b = None" "link_to ty d1 (k s) l" using d1(4) by simp_all
    obtain de where de: "link_entry d1 l = Inr de" "payload de \<in># dict_payload d1" "has_key ty (k s) (payload de)"
      using link_to_entry [OF l(2)] by blast
    then have "m (k s) = Some (payload de)" using mrep_iff [OF m1] by blast
    then show ?thesis using d1(1) Some l de rep1
      by (simp add: dictAddRaw_def del: split_paired_Ex flip: k_def)
  qed
qed

lemma set_link_val_ok:
  assumes "wf_type ty" "dict_rep ty d m" "\<not> no_value ty" "link_to ty d key l" "link_entry d l = Inr old"
  shows "\<exists>d'. set_link_val ty d l val = Inr d' \<and>
    dict_rep ty d' (key_upd ty m key (Some (dictGetKey old, Some (valDup ty val))))"
proof -
  have inv: "dict_inv ty d" and m: "mrep ty (dict_payload d) m" using assms(2) by (simp_all add: dict_rep_def)
  have old: "payload old \<in># dict_payload d" "has_key ty key (payload old)" "entryHasValue old"
    using link_to_entry [OF assms(4)] assms(3,5) by auto
  let ?new = "NormalEntry (dictGetKey old) (valDup ty val)"
  obtain d' where d': "set_link_entry d l ?new = Inr d'" "dict_inv ty d'"
    "dict_payload d' = dict_payload d - {#payload old#} + {#payload ?new#}"
    using set_link_entry_ok [OF inv assms(4,5), of ?new] old(3) by (cases old) auto
  have "has_key ty key (payload ?new)" using old(2) by (simp add: has_key_def)
  then have "mrep ty (dict_payload d') (key_upd ty m key (Some (payload ?new)))"
    using mrep_insert [OF assms(1) mrep_remove(1,3) [OF assms(1) m old(1,2)]] d'(3) by simp
  then show ?thesis using d'(1,2) old(3) assms(5) by (simp add: set_link_val_def dictSetVal_def dict_rep_def)
qed

text \<open>The entry \<^verbatim>\<open>dictAdd\<close> leaves for a new key.\<close>

definition added :: "('s, 'k, 'v) dictType \<Rightarrow> 's \<Rightarrow> 'v \<Rightarrow> 's \<times> 'v option" where
  "added ty s v = new_payload ty (keyDup ty s) (valDup ty v)"

lemma dict_rep_add:
  assumes "wf_type ty" "dict_rep ty d m"
  shows "\<exists>d'. dictAdd cr ty junk d s v = Inr (d', m (keyFromStoredKey ty s) = None) \<and>
    dict_rep ty d' (if m (keyFromStoredKey ty s) = None then key_upd ty m (keyFromStoredKey ty s) (Some (added ty s v)) else m)"
proof -
  let ?k = "keyFromStoredKey ty s"
  obtain d1 en ex where d1: "dictAddRaw cr ty junk d s = Inr (d1, en, ex)"
    "case m ?k of
       None \<Rightarrow> ex = None \<and> (\<exists>l de. en = Some l \<and> link_to ty d1 ?k l \<and> link_entry d1 l = Inr de \<and>
         payload de = new_payload ty (keyDup ty s) junk) \<and>
         dict_rep ty d1 (key_upd ty m ?k (Some (new_payload ty (keyDup ty s) junk)))
     | Some p \<Rightarrow> en = None \<and> (\<exists>l de. ex = Some l \<and> link_to ty d1 ?k l \<and> link_entry d1 l = Inr de \<and> payload de = p) \<and>
         dict_rep ty d1 m"
    using dictAddRaw_ok [OF assms] by blast
  show ?thesis
  proof (cases "m ?k")
    case None
    then obtain l de where l: "en = Some l" "link_to ty d1 ?k l" "link_entry d1 l = Inr de"
      "payload de = new_payload ty (keyDup ty s) junk"
      and rep: "dict_rep ty d1 (key_upd ty m ?k (Some (new_payload ty (keyDup ty s) junk)))"
      using d1(2) by auto
    have "dictGetKey de = keyDup ty s" using arg_cong [OF l(4), of fst] by (simp add: new_payload_def)
    then show ?thesis
      using d1(1) None l rep set_link_val_ok [OF assms(1) rep _ l(2,3), of v]
      by (cases "no_value ty") (auto simp: dictAdd_def added_def new_payload_def)
  next
    case (Some p)
    then show ?thesis using d1 by (auto simp: dictAdd_def)
  qed
qed

text \<open>
  \<^verbatim>\<open>dictReplace\<close> keeps the stored key of an existing entry.
\<close>

lemma dict_rep_replace:
  assumes "wf_type ty" "dict_rep ty d m" "\<not> no_value ty"
  shows "\<exists>d'. dictReplace cr ty junk d s v = Inr (d', m (keyFromStoredKey ty s) = None) \<and>
    dict_rep ty d' (key_upd ty m (keyFromStoredKey ty s) (Some
      (case m (keyFromStoredKey ty s) of None \<Rightarrow> keyDup ty s | Some p \<Rightarrow> fst p, Some (valDup ty v))))"
proof -
  let ?k = "keyFromStoredKey ty s"
  obtain d1 en ex where d1: "dictAddRaw cr ty junk d s = Inr (d1, en, ex)"
    "case m ?k of
       None \<Rightarrow> ex = None \<and> (\<exists>l de. en = Some l \<and> link_to ty d1 ?k l \<and> link_entry d1 l = Inr de \<and>
         payload de = new_payload ty (keyDup ty s) junk) \<and>
         dict_rep ty d1 (key_upd ty m ?k (Some (new_payload ty (keyDup ty s) junk)))
     | Some p \<Rightarrow> en = None \<and> (\<exists>l de. ex = Some l \<and> link_to ty d1 ?k l \<and> link_entry d1 l = Inr de \<and> payload de = p) \<and>
         dict_rep ty d1 m"
    using dictAddRaw_ok [OF assms(1,2)] by blast
  show ?thesis
  proof (cases "m ?k")
    case None
    then obtain l de where l: "en = Some l" "link_to ty d1 ?k l" "link_entry d1 l = Inr de"
      "payload de = new_payload ty (keyDup ty s) junk"
      and rep: "dict_rep ty d1 (key_upd ty m ?k (Some (new_payload ty (keyDup ty s) junk)))"
      using d1(2) by auto
    have "dictGetKey de = keyDup ty s" using arg_cong [OF l(4), of fst] by (simp add: new_payload_def)
    then show ?thesis
      using d1(1) None l set_link_val_ok [OF assms(1) rep assms(3) l(2,3), of v] by (auto simp: dictReplace_def)
  next
    case (Some p)
    then obtain l de where l: "en = None" "ex = Some l" "link_to ty d1 ?k l" "link_entry d1 l = Inr de"
      "payload de = p" and rep: "dict_rep ty d1 m"
      using d1(2) by auto
    have "entryHasValue de" using link_to_entry [OF l(3)] l(4) assms(3) by auto
    then obtain ov where "dictGetVal de = Inr ov" by (cases de) auto
    moreover have "fst p = dictGetKey de" using l(5) fst_payload by blast
    ultimately show ?thesis
      using d1(1) Some l set_link_val_ok [OF assms(1) rep assms(3) l(3,4), of v] by (auto simp: dictReplace_def)
  qed
qed

lemma mrep_upd_None:
  assumes "wf_type ty" "mrep ty M m" "m k = None"
  shows "key_upd ty m k None = m"
proof
  fix k'
  have "m k' = None" if "key_eq ty k' k"
  proof (rule ccontr)
    assume "m k' \<noteq> None"
    then obtain p where p: "m k' = Some p" by (cases "m k'") simp_all
    then have "p \<in># M" "has_key ty k' p" using mrep_iff [OF assms(2)] by blast+
    moreover have "has_key ty k p"
      using has_key_cong [OF assms(1) \<open>has_key ty k' p\<close>] key_eq_sym [OF assms(1) that] by blast
    ultimately show False using mrep_none [OF assms(2), of k] assms(3) by blast
  qed
  then show "key_upd ty m k None k' = m k'" by (simp add: map_set_def)
qed

text \<open>Unlinking the entry of a key, with the shrink check that follows.\<close>

lemma unlink_shrink_ok:
  assumes "wf_type ty" "dict_rep ty d m" "link_to ty d key l"
  shows "\<exists>d1 he d'. unlinkEntry d l = Inr (d1, he) \<and> dictShrinkIfNeeded' cr ty d1 = Inr d' \<and>
    m key = Some (payload he) \<and> dict_rep ty d' (key_upd ty m key None) \<and> pauserehash d' = pauserehash d"
proof -
  have inv: "dict_inv ty d" and m: "mrep ty (dict_payload d) m" using assms(2) by (simp_all add: dict_rep_def)
  obtain t i p where l: "l = (t, i, p)" by (cases l)
  obtain he where he: "link_entry d l = Inr he" "payload he \<in># dict_payload d" "has_key ty key (payload he)"
    using link_to_entry [OF assms(3)] by blast
  note un = unlink_ok [OF inv assms(3) [unfolded l] he(1) [unfolded l]]
  obtain d1 where d1: "unlinkEntry d l = Inr (d1, he)" "dict_inv ty d1"
    "dict_payload d1 = dict_payload d - {#payload he#}" "pauserehash d1 = pauserehash d"
    using un l by blast
  obtain d' where d': "dictShrinkIfNeeded' cr ty d1 = Inr d'" "dict_same ty d1 d'"
    using dictShrinkIfNeeded'_ok [OF d1(2)] by blast
  have "dict_rep ty d1 (key_upd ty m key None)"
    using d1 mrep_remove(1) [OF assms(1) m he(2,3)] by (simp add: dict_rep_def)
  then have "dict_rep ty d' (key_upd ty m key None)" using d'(2) by (rule dict_rep_same)
  then show ?thesis using d1 d' mrep_remove(2) [OF assms(1) m he(2,3)] by (auto simp: dict_same_def)
qed

lemma dict_rep_delete:
  assumes "wf_type ty" "dict_rep ty d m"
  shows "\<exists>d' r. dictGenericDelete cr ty d key = Inr (d', r) \<and> map_option payload r = m key \<and>
    dict_rep ty d' (key_upd ty m key None)"
proof -
  have inv: "dict_inv ty d" and m: "mrep ty (dict_payload d) m" using assms(2) by (simp_all add: dict_rep_def)
  show ?thesis
  proof (cases "dictSize d = 0")
    case True
    then have "m key = None" using dictSize_payload [OF inv] mrep_none [OF m, of key] by simp
    then show ?thesis using True assms(2) mrep_upd_None [OF assms(1) m] by (simp add: dictGenericDelete_def)
  next
    case False
    let ?idx = "dictBucket (hashFunction ty key) (ht_size_exp (ht0 d))"
    obtain d1 where d1: "dictRehashStepIfNeeded cr ty d ?idx = Inr d1" "dict_same ty d d1" "idx_stable d d1"
      using dictRehashStepIfNeeded_ok [OF inv refl] by blast
    have rep1: "dict_rep ty d1 m" by (rule dict_rep_same [OF assms(2) d1(2)])
    then have inv1: "dict_inv ty d1" and m1: "mrep ty (dict_payload d1) m" by (simp_all add: dict_rep_def)
    have nn: "ht0 d1 \<noteq> dictht_null"
      using False d1(2) dictSize_payload [OF inv] dict_inv_null [OF inv1] by (auto simp: dict_same_def)
    have miss: "m key = None \<and> key_upd ty m key None = m" if "no_key ty d1 key"
      using that mrep_none [OF m1, of key] mrep_upd_None [OF assms(1) m1] by (simp add: no_key_def)
    note hit = unlink_shrink_ok [OF assms(1) rep1, of key _ cr]
    note unf = dictGenericDelete_def Let_def
    show ?thesis using assms(1) inv1 d1(3) nn
    proof (cases rule: search_cases [of ty d1 d key])
      case (hit0 p)
      then show ?thesis using False d1(1) hit [OF hit0(3)] by (auto simp: unf)
    next
      case miss0
      then show ?thesis using False d1(1) miss [OF miss0(4)] rep1 by (auto simp: unf)
    next
      case (hit1 p)
      then show ?thesis using False d1(1) hit [OF hit1(4)] by (auto simp: unf)
    next
      case miss1
      then show ?thesis using False d1(1) miss [OF miss1(4)] rep1 by (auto simp: unf)
    qed
  qed
qed

lemma two_phase_free_unlinks:
  assumes "dict_inv ty d" "link_to ty d key l"
  shows "dictTwoPhaseUnlinkFree cr ty d (Some l) =
    res_bind (unlinkEntry d l) (\<lambda>(d, _).
    res_bind (dictShrinkIfNeeded' cr ty d) (\<lambda>d. Inr (dictResumeRehashing d)))"
proof -
  obtain t i p where l: "l = (t, i, p)" by (cases l)
  obtain he where he: "link_entry d (t, i, p) = Inr he" using link_to_entry [OF assms(2)] l by blast
  have b: "i < length (ht_table (dict_ht d t))" "p < length (ht_table (dict_ht d t) ! i)"
    "chain_ok ty (ht_table (dict_ht d t) ! i)"
    using assms(2) by (auto simp: link_to_def l ht_ok_def)
  have "he = ht_table (dict_ht d t) ! i ! p" using he b by (simp add: link_entry_def)
  then show ?thesis
    using unlink_ok(6) [OF assms(1) assms(2) [unfolded l] he] link_unlink_chain(1) [OF b(3,2)] b
    by (simp add: dictTwoPhaseUnlinkFree_def l Let_def)
qed

lemma two_phase_find_ok:
  assumes "wf_type ty" "dict_rep ty d m" "pauserehash d < 2 ^ 32 - 1"
  shows "\<exists>d1 l. dictTwoPhaseUnlinkFind cr ty d key = Inr (d1, l) \<and> dict_rep ty d1 m \<and>
    (l = None \<longleftrightarrow> m key = None) \<and>
    (\<forall>l'. l = Some l' \<longrightarrow> pauserehash d1 = pauserehash d + 1 \<and> link_to ty d1 key l')"
proof -
  have inv: "dict_inv ty d" and m: "mrep ty (dict_payload d) m" using assms(2) by (simp_all add: dict_rep_def)
  show ?thesis
  proof (cases "dictSize d = 0")
    case True
    then have "m key = None" using dictSize_payload [OF inv] mrep_none [OF m, of key] by simp
    then show ?thesis using True assms(2) by (simp add: dictTwoPhaseUnlinkFind_def)
  next
    case False
    obtain d1 where d1: "(if dictIsRehashing d then dictRehashStep cr ty d else Inr d) = Inr d1" "dict_same ty d d1"
      using dictRehashStep_ok [OF inv, of cr] dict_same_refl [OF inv] by (cases "dictIsRehashing d") auto
    have rep1: "dict_rep ty d1 m" by (rule dict_rep_same [OF assms(2) d1(2)])
    then have inv1: "dict_inv ty d1" and m1: "mrep ty (dict_payload d1) m" by (simp_all add: dict_rep_def)
    have nn: "ht0 d1 \<noteq> dictht_null" and pr: "pauserehash d1 = pauserehash d"
      using False d1(2) dictSize_payload [OF inv] dict_inv_null [OF inv1] by (auto simp: dict_same_def)
    let ?p = "dictPauseRehashing d1"
    have rp: "dict_rep ty ?p m" "pauserehash ?p = pauserehash d + 1"
      using rep1 pr assms(3)
      by (auto simp: dictPauseRehashing_def dict_rep_def dict_inv_def rehash_inv_def dictIsRehashing_def dict_payload_def)
    have "dict_ht ?p t = dict_ht d1 t" "dictIsRehashing ?p = dictIsRehashing d1" for t
      by (simp_all add: dictPauseRehashing_def dict_ht_def dictIsRehashing_def)
    then have hit: "m key \<noteq> None \<and> link_to ty ?p key l" if "link_to ty d1 key l" for l
      using link_to_entry [OF that] mrep_none [OF m1, of key] that unfolding link_to_def by auto
    have miss: "m key = None" if "no_key ty d1 key"
      using that mrep_none [OF m1, of key] by (simp add: no_key_def)
    have stable: "idx_stable d1 d1" by (simp add: idx_stable_def)
    note unf = dictTwoPhaseUnlinkFind_def Let_def
    show ?thesis using assms(1) inv1 stable nn
    proof (cases rule: search_cases [of ty d1 d1 key])
      case (hit0 p)
      then show ?thesis using False d1(1) hit [OF hit0(3)] rp by (auto simp: unf)
    next
      case miss0
      then show ?thesis using False d1(1) miss [OF miss0(4)] rep1 by (auto simp: unf)
    next
      case (hit1 p)
      then show ?thesis using False d1(1) hit [OF hit1(4)] rp by (auto simp: unf)
    next
      case miss1
      then show ?thesis using False d1(1) miss [OF miss1(4)] rep1 by (auto simp: unf)
    qed
  qed
qed

lemma two_phase_free_ok:
  assumes "wf_type ty" "dict_rep ty d m" "link_to ty d key l" "0 < pauserehash d"
  shows "\<exists>d'. dictTwoPhaseUnlinkFree cr ty d (Some l) = Inr d' \<and> dict_rep ty d' (key_upd ty m key None) \<and>
    pauserehash d' = pauserehash d - 1"
proof -
  obtain d2 he d3 where "unlinkEntry d l = Inr (d2, he)" "dictShrinkIfNeeded' cr ty d2 = Inr d3"
    "dict_rep ty d3 (key_upd ty m key None)" "pauserehash d3 = pauserehash d"
    using unlink_shrink_ok [OF assms(1-3)] by blast
  then show ?thesis using two_phase_free_unlinks [OF _ assms(3), of cr] assms(2,4)
    by (auto simp: dictResumeRehashing_def dict_rep_def dict_inv_def rehash_inv_def dictIsRehashing_def dict_payload_def)
qed

lemma dict_rep_two_phase:
  assumes "wf_type ty" "dict_rep ty d m" "pauserehash d < 2 ^ 32 - 1"
  shows "\<exists>d1 l. dictTwoPhaseUnlinkFind cr ty d key = Inr (d1, l) \<and> dict_rep ty d1 m \<and>
    (l = None \<longleftrightarrow> m key = None) \<and>
    (l \<noteq> None \<longrightarrow> pauserehash d1 = pauserehash d + 1 \<and>
      (\<exists>d2. dictTwoPhaseUnlinkFree cr ty d1 l = Inr d2 \<and> dict_rep ty d2 (key_upd ty m key None) \<and>
        pauserehash d2 = pauserehash d))"
proof -
  obtain d1 l where d1: "dictTwoPhaseUnlinkFind cr ty d key = Inr (d1, l)" "dict_rep ty d1 m" "l = None \<longleftrightarrow> m key = None"
    "\<forall>l'. l = Some l' \<longrightarrow> pauserehash d1 = pauserehash d + 1 \<and> link_to ty d1 key l'"
    using two_phase_find_ok [OF assms, of cr key] by (elim exE conjE)
  show ?thesis
  proof (cases l)
    case (Some l')
    then show ?thesis using d1 two_phase_free_ok [OF assms(1) d1(2), of key l' cr] by auto
  qed (use d1 in auto)
qed

section \<open>Emptying\<close>

lemma chain_walk_ok: "chain_ok ty c \<Longrightarrow> chain_walk c = c"
proof (induction c)
  case (Cons de rest)
  have "(if entryIsKey de then [] else rest) = rest" using chain_ok_Cons_key [OF Cons.prems] by auto
  then show ?case using Cons.IH [OF chain_ok_tl [OF Cons.prems]] by simp
qed simp

lemma ul_dec_funpow: "n \<le> u \<Longrightarrow> (ul_dec ^^ n) u = u - n"
  by (induction n) (auto simp: ul_dec_def)

lemma clearLoop_ok:
  "\<forall>c\<in>set tbl. chain_ok ty c \<Longrightarrow> used = length (concat tbl) \<Longrightarrow> clearLoop tbl used = concat tbl"
proof (induction tbl arbitrary: used)
  case (Cons c tbl)
  then show ?case by (auto simp: chain_walk_ok ul_dec_funpow)
qed simp

lemma clear_ht_ok: "ht_ok ty h \<or> h = dictht_null \<Longrightarrow> clearLoop (ht_table h) (ht_used h) = concat (ht_table h)"
  by (auto simp: ht_ok_def in_set_conv_nth dictht_null_def intro!: clearLoop_ok [of _ ty])

lemma dictEmpty_ok:
  assumes "dict_inv ty d"
  shows "image_mset payload (mset (snd (dictEmpty d))) = dict_payload d"
    and "dict_rep ty (fst (dictEmpty d)) Map.empty"
proof -
  have hts: "ht_ok ty (ht0 d) \<or> ht0 d = dictht_null" "ht_ok ty (ht1 d) \<or> ht1 d = dictht_null"
    using assms by (auto simp: dict_inv_def rehash_inv_def split: if_splits)
  show "image_mset payload (mset (snd (dictEmpty d))) = dict_payload d"
    using clear_ht_ok [OF hts(1)] clear_ht_ok [OF hts(2)]
    by (simp add: dictEmpty_def dictClear_def dictFakeCompletion_def trace_event_def dictReset_def set_ht_def
        dict_ht_def dict_payload_def ht_payload_def Let_def case_prod_beta)
  have "dict_inv ty (fst (dictEmpty d))" "dict_payload (fst (dictEmpty d)) = {#}"
    by (simp_all add: dictEmpty_def dictClear_def dictReset_def set_ht_def Let_def dict_inv_def dictIsRehashing_def
        dict_payload_def case_prod_beta)
  then show "dict_rep ty (fst (dictEmpty d)) Map.empty"
    unfolding dict_rep_def by (auto intro: mrepI)
qed

section \<open>The interfaces a dict implements\<close>

text \<open>The maintenance commands of the keyed map interface, and the dispatch of its commands to the dict.\<close>

datatype dict_maintenance = RehashN nat | RehashTimed "nat \<Rightarrow> bool" | ExpandTo nat
  | TryExpandTo nat "nat \<Rightarrow> bool" | ShrinkTo nat | SetResizeEnabled dictResizeEnable

type_synonym ('s, 'v) dict_state = "dictResizeEnable \<times> ('s, 'v) dict"

fun dict_maintain ::
  "('s, 'k, 'v) dictType \<Rightarrow> ('s, 'v) dict_state \<Rightarrow> dict_maintenance \<Rightarrow> ('s, 'v) dict_state result" where
  "dict_maintain ty (cr, d) (RehashN n) = res_bind (dictRehash cr ty d n) (\<lambda>(d, _). Inr (cr, d))"
| "dict_maintain ty (cr, d) (RehashTimed t) = res_bind (dictRehashMicroseconds cr ty t d) (\<lambda>(d, _). Inr (cr, d))"
| "dict_maintain ty (cr, d) (ExpandTo n) = res_bind (dictExpand cr ty d n) (\<lambda>(d, _). Inr (cr, d))"
| "dict_maintain ty (cr, d) (TryExpandTo n f) = res_bind (dictTryExpand cr ty d n f) (\<lambda>(d, _). Inr (cr, d))"
| "dict_maintain ty (cr, d) (ShrinkTo n) = res_bind (dictShrink cr ty d n) (\<lambda>(d, _). Inr (cr, d))"
| "dict_maintain ty (cr, d) (SetResizeEnabled e) = Inr (e, d)"

fun dict_step ::
  "('s, 'k, 'v) dictType \<Rightarrow> 'v \<Rightarrow> ('s, 'v) dict_state \<Rightarrow> ('s, 'k, 'v, dict_maintenance) map_op \<Rightarrow>
   (('s, 'v) dict_state \<times> ('s \<times> 'v option) map_reply) result" where
  "dict_step ty junk (cr, d) (MAdd s v) =
     res_bind (dictAdd cr ty junk d s v) (\<lambda>(d, b). Inr ((cr, d), RBool b))"
| "dict_step ty junk (cr, d) (MReplace s v) =
     res_bind (dictReplace cr ty junk d s v) (\<lambda>(d, b). Inr ((cr, d), RBool b))"
| "dict_step ty junk (cr, d) (MDelete k) =
     res_bind (dictUnlink cr ty d k) (\<lambda>(d, he). Inr ((cr, d), RRecord (map_option payload he)))"
| "dict_step ty junk (cr, d) (MFind k) =
     res_bind (dictFind cr ty d k) (\<lambda>(d, he). Inr ((cr, d), RRecord (map_option payload he)))"
| "dict_step ty junk cd (MMaintain c) =
     res_bind (dict_maintain ty cd c) (\<lambda>cd. Inr (cd, RDone))"

definition dict_map_rep ::
  "('s, 'k, 'v) dictType \<Rightarrow> ('s, 'v) dict_state \<Rightarrow> ('k \<rightharpoonup> 's \<times> 'v option) \<Rightarrow> bool" where
  "dict_map_rep ty cd m \<longleftrightarrow> wf_type ty \<and> \<not> no_value ty \<and> dict_rep ty (snd cd) m"

definition replaced :: "('s, 'k, 'v) dictType \<Rightarrow> 's \<times> 'v option \<Rightarrow> 'v \<Rightarrow> 's \<times> 'v option" where
  "replaced ty r v = (fst r, Some (valDup ty v))"

lemma dict_maintain_ok:
  assumes "dict_inv ty d"
  shows "\<exists>cr' d'. dict_maintain ty (cr, d) c = Inr (cr', d') \<and> dict_same ty d d'"
proof (cases c)
  case (RehashN n)
  then show ?thesis using dictRehash_ok [OF assms, of cr n] by auto
next
  case (RehashTimed t)
  then show ?thesis using dictRehashMicroseconds_ok [OF assms, of cr t] by auto
next
  case (ExpandTo n)
  then show ?thesis using dictExpand_ok [OF assms, of cr n] by auto
next
  case (TryExpandTo n f)
  then show ?thesis using dictTryExpand_ok [OF assms, of cr n f] by auto
next
  case (ShrinkTo n)
  then show ?thesis using dictShrink_ok [OF assms, of cr n] by auto
next
  case (SetResizeEnabled e)
  then show ?thesis using dict_same_refl [OF assms] by simp
qed

interpretation dmap: keyed_map "dict_map_rep ty" "key_eq ty" "keyFromStoredKey ty" "added ty" "replaced ty" "dict_step ty junk"
proof
  fix cd m op
  assume r: "dict_map_rep ty cd m"
  obtain cr d where cd: "cd = (cr, d)" by (cases cd)
  have wf: "wf_type ty" "\<not> no_value ty" and rep: "dict_rep ty d m" and inv: "dict_inv ty d"
    using r by (simp_all add: dict_map_rep_def cd dict_rep_def)
  show "\<exists>d'. dict_step ty junk cd op =
      Inr (d', snd (spec_map_op (key_eq ty) (keyFromStoredKey ty) (added ty) (replaced ty) m op)) \<and>
    dict_map_rep ty d' (fst (spec_map_op (key_eq ty) (keyFromStoredKey ty) (added ty) (replaced ty) m op))"
  proof (cases op)
    case (MAdd s v)
    then show ?thesis using dict_rep_add [OF wf(1) rep, of cr junk s v] wf
      by (auto simp: cd dict_map_rep_def split: if_splits)
  next
    case (MReplace s v)
    then show ?thesis using dict_rep_replace [OF wf(1) rep wf(2), of cr junk s v] wf
      by (cases "m (keyFromStoredKey ty s)") (auto simp: cd dict_map_rep_def added_def new_payload_def replaced_def)
  next
    case (MDelete k)
    then show ?thesis using dict_rep_delete [OF wf(1) rep, of cr k] wf
      by (auto simp: cd dict_map_rep_def dictUnlink_def)
  next
    case (MFind k)
    then show ?thesis using dict_rep_find [OF wf(1) rep, of cr k] wf by (auto simp: cd dict_map_rep_def)
  next
    case (MMaintain c)
    then show ?thesis using dict_maintain_ok [OF inv, of cr c] dict_rep_same [OF rep] wf
      by (fastforce simp: cd dict_map_rep_def)
  qed
qed

text \<open>
  A dict without values whose keys are their own lookup keys and are compared by content is a set: the
  hash table encoding of the set type.
\<close>

definition set_type :: "('e, 'e, 'v) dictType \<Rightarrow> bool" where
  "set_type ty \<longleftrightarrow> no_value ty \<and> keyFromStoredKey ty = id \<and> keyDup ty = id \<and>
     (\<forall>a b. keyCompare ty a b \<longrightarrow> a = b)"

definition set_map :: "'e set \<Rightarrow> 'e \<rightharpoonup> 'e \<times> 'v option" where
  "set_map A = (\<lambda>e. if e \<in> A then Some (e, None) else None)"

definition dict_set_rep :: "('e, 'e, 'v) dictType \<Rightarrow> ('e, 'v) dict_state \<Rightarrow> 'e set \<Rightarrow> bool" where
  "dict_set_rep ty cd A \<longleftrightarrow> set_type ty \<and> finite A \<and> dict_rep ty (snd cd) (set_map A)"

fun dict_set_add :: "('e, 'e, 'v) dictType \<Rightarrow> 'v \<Rightarrow> ('e, 'v) dict_state \<Rightarrow> 'e \<Rightarrow> (('e, 'v) dict_state \<times> bool) result" where
  "dict_set_add ty junk (cr, d) e = res_bind (dictAdd cr ty junk d e junk) (\<lambda>(d, b). Inr ((cr, d), b))"

fun dict_set_remove :: "('e, 'e, 'v) dictType \<Rightarrow> ('e, 'v) dict_state \<Rightarrow> 'e \<Rightarrow> (('e, 'v) dict_state \<times> bool) result" where
  "dict_set_remove ty (cr, d) e = res_bind (dictDelete cr ty d e) (\<lambda>(d, b). Inr ((cr, d), b))"

fun dict_set_find :: "('e, 'e, 'v) dictType \<Rightarrow> ('e, 'v) dict_state \<Rightarrow> 'e \<Rightarrow> (('e, 'v) dict_state \<times> bool) result" where
  "dict_set_find ty (cr, d) e = res_bind (dictFind cr ty d e) (\<lambda>(d, he). Inr ((cr, d), he \<noteq> None))"

lemma set_type_wf: "set_type ty \<Longrightarrow> wf_type ty"
  unfolding wf_type_def set_type_def key_eq_def by auto

lemma set_type_eq: "set_type ty \<Longrightarrow> key_eq ty a b \<longleftrightarrow> a = b"
  by (auto simp: set_type_def key_eq_def)

lemma set_map_None: "set_map A e = None \<longleftrightarrow> e \<notin> A"
  by (simp add: set_map_def)

lemma set_map_empty: "set_map {} = Map.empty"
  by (simp add: set_map_def)

lemma set_map_insert:
  fixes ty :: "('e, 'e, 'v) dictType"
  shows "set_type ty \<Longrightarrow> map_set (key_eq ty) (set_map A :: 'e \<rightharpoonup> 'e \<times> 'v option) e (Some (e, None)) = set_map (insert e A)"
  by (auto simp: map_set_def set_map_def set_type_eq)

lemma set_map_remove:
  fixes ty :: "('e, 'e, 'v) dictType"
  shows "set_type ty \<Longrightarrow> map_set (key_eq ty) (set_map A :: 'e \<rightharpoonup> 'e \<times> 'v option) e None = set_map (A - {e})"
  by (auto simp: map_set_def set_map_def set_type_eq)

interpretation dset: element_set "dict_set_rep ty" "dict_set_add ty junk" "dict_set_remove ty" "dict_set_find ty" "\<lambda>_. True" cap
proof (unfold_locales, goal_cases)
  case (1 s A)
  then show ?case by (simp add: dict_set_rep_def)
next
  case (2 s A e)
  obtain cr d where s: "s = (cr, d)" by (cases s)
  have ty: "set_type ty" and rep: "dict_rep ty d (set_map A)" and fin: "finite A"
    using 2 by (simp_all add: dict_set_rep_def s)
  have "added ty e junk = (e, None)" using ty by (simp add: added_def new_payload_def set_type_def)
  moreover have "keyFromStoredKey ty e = e" using ty by (simp add: set_type_def)
  ultimately obtain d' where "dictAdd cr ty junk d e junk = Inr (d', e \<notin> A)" "dict_rep ty d' (set_map (insert e A))"
    using dict_rep_add [OF set_type_wf [OF ty] rep, of cr junk e junk] set_map_insert [OF ty, of A e]
    by (cases "e \<in> A") (auto simp: set_map_None insert_absorb)
  then show ?case using ty fin by (intro exI [of _ "(cr, d')"]) (simp add: s dict_set_rep_def)
next
  case (3 s A e)
  obtain cr d where s: "s = (cr, d)" by (cases s)
  have ty: "set_type ty" and rep: "dict_rep ty d (set_map A)" and fin: "finite A"
    using 3 by (simp_all add: dict_set_rep_def s)
  obtain d' r where "dictGenericDelete cr ty d e = Inr (d', r)" "map_option payload r = set_map A e"
    "dict_rep ty d' (set_map (A - {e}))"
    using dict_rep_delete [OF set_type_wf [OF ty] rep, of cr e] set_map_remove [OF ty] by metis
  moreover from this have "r \<noteq> None \<longleftrightarrow> e \<in> A" by (metis map_option_is_None set_map_None)
  ultimately show ?case using ty fin
    by (intro exI [of _ "(cr, d')"]) (simp add: s dict_set_rep_def dictDelete_def)
next
  case (4 s A e)
  obtain cr d where s: "s = (cr, d)" by (cases s)
  have ty: "set_type ty" and rep: "dict_rep ty d (set_map A)" and fin: "finite A"
    using 4 by (simp_all add: dict_set_rep_def s)
  obtain d' r where "dictFind cr ty d e = Inr (d', r)" "r \<noteq> None \<longleftrightarrow> e \<in> A" "dict_rep ty d' (set_map A)"
    using dict_rep_find [OF set_type_wf [OF ty] rep, of cr e] by (metis option.distinct(1) set_map_None)
  then show ?case using ty fin by (intro exI [of _ "(cr, d')"]) (simp add: s dict_set_rep_def)
qed

section \<open>Properties\<close>

text \<open>A type with numbers as keys and values, for the concrete instances.\<close>

definition nat_dict_type :: "bool \<Rightarrow> (nat, nat, nat) dictType" where
  "nat_dict_type nv =
     \<lparr>hashFunction = of_nat, keyCompare = (=), keyFromStoredKey = id, keyDup = id, valDup = id,
      resizeAllowed = (\<lambda>_ _. True), no_value = nv, force_full_rehash = False\<rparr>"

lemma nat_dict_type_wf: "wf_type (nat_dict_type nv)"
  by (simp add: wf_type_def nat_dict_type_def key_eq_def)

lemma nat_dict_type_eq: "key_eq (nat_dict_type nv) a b \<longleftrightarrow> a = b"
  by (auto simp: nat_dict_type_def key_eq_def)

text \<open>A dict with one entry that is being rehashed from 4 to 8 buckets.\<close>

definition dict_example :: "(nat, nat) dict" where
  "dict_example =
     \<lparr>ht0 = \<lparr>ht_table = [[NormalEntry 4 7], [], [], []], ht_used = 1, ht_size_exp = 2\<rparr>,
      ht1 = \<lparr>ht_table = replicate 8 [], ht_used = 0, ht_size_exp = 3\<rparr>,
      rehashidx = 0, pauserehash = 0, pauseAutoResize = 0, d_trace = []\<rparr>"

lemma dict_example_inv: "dict_inv (nat_dict_type False) dict_example"
proof -
  have "ht_ok (nat_dict_type False) \<lparr>ht_table = [[NormalEntry 4 7], [], [], []], ht_used = 1, ht_size_exp = 2\<rparr>"
  proof -
    have "dictBucket 4 2 = 0" by (simp add: dictBucket_mod)
    then show ?thesis
      by (simp add: ht_ok_def All_less_Suc chain_ok_def nat_dict_type_def entry_key_def)
  qed
  moreover have "ht_ok (nat_dict_type False) \<lparr>ht_table = replicate 8 [], ht_used = 0, ht_size_exp = 3\<rparr>"
    using ht_ok_new [of 3] by (simp add: DICTHT_SIZE_def)
  ultimately show ?thesis
    by (simp add: dict_inv_def rehash_inv_def dict_example_def dictIsRehashing_def)
qed

lemma dict_example_payload: "dict_payload dict_example = {#(4, Some 7)#}"
  by (simp add: dict_payload_def ht_payload_def dict_example_def)

lemma dict_example_rep: "dict_rep (nat_dict_type False) dict_example [4 \<mapsto> (4, Some 7)]"
  unfolding dict_rep_def dict_example_payload
  by (intro conjI dict_example_inv mrepI) (auto simp: has_key_def key_eq_def nat_dict_type_def)

text \<open>
  C1: A dict is a map. Whatever sequence of additions, replacements, deletions, lookups, rehashing steps,
  explicit resizes and changes of the global resize policy a new dict with values gets, no operation
  reads outside a table, trips an assertion or fails to end, and every reply is the one of a
  mathematical map whose keys are the classes of the type's key comparison.
\<close>

theorem dict_implements_map:
  assumes "wf_type ty" "\<not> no_value ty"
  shows "\<exists>cr' d'. run_map_ops (dict_step ty junk) (cr, dictCreate) ops =
      Inr ((cr', d'), snd (spec_map_ops (key_eq ty) (keyFromStoredKey ty) (added ty) (replaced ty) Map.empty ops)) \<and>
    dict_rep ty d' (fst (spec_map_ops (key_eq ty) (keyFromStoredKey ty) (added ty) (replaced ty) Map.empty ops))"
proof -
  have "dict_map_rep ty (cr, dictCreate) Map.empty"
    using assms dict_rep_create by (simp add: dict_map_rep_def)
  from dmap.run_map_ops_spec [OF this, of junk ops] show ?thesis by (auto simp: dict_map_rep_def)
qed

theorem dict_implements_map_witness:
  "\<exists>cd. run_map_ops (dict_step (nat_dict_type False) 0) (DICT_RESIZE_ENABLE, dictCreate)
      [MAdd 1 10, MAdd 5 50, MAdd 1 11, MReplace 5 51, MMaintain (RehashN 1), MFind 5, MDelete 1, MFind 1] =
    Inr (cd, [RBool True, RBool True, RBool False, RBool False, RDone, RRecord (Some (5, Some 51)),
              RRecord (Some (1, Some 10)), RRecord None])"
proof -
  let ?ty = "nat_dict_type False"
  let ?ops = "[MAdd 1 10, MAdd 5 50, MAdd 1 11, MReplace 5 51, MMaintain (RehashN 1), MFind 5, MDelete 1, MFind 1]"
  have "snd (spec_map_ops (key_eq ?ty) (keyFromStoredKey ?ty) (added ?ty) (replaced ?ty) Map.empty ?ops) =
    [RBool True, RBool True, RBool False, RBool False, RDone, RRecord (Some (5, Some 51)),
     RRecord (Some (1, Some 10)), RRecord None]"
    by (simp add: nat_dict_type_eq map_set_def Let_def added_def replaced_def new_payload_def)
      (simp add: nat_dict_type_def)
  moreover have "\<not> no_value ?ty" by (simp add: nat_dict_type_def)
  ultimately show ?thesis
    using dict_implements_map [OF nat_dict_type_wf, of False 0 DICT_RESIZE_ENABLE ?ops] by metis
qed

text \<open>
  C13: A dict without values is a set: the replies of additions, removals and membership tests are the
  ones of a mathematical set, through all the conversions between bare keys and allocated entries.
\<close>

theorem dict_implements_set:
  assumes "set_type ty"
  shows "\<exists>cr' d'. run_set_ops (dict_set_add ty junk) (dict_set_remove ty) (dict_set_find ty) (cr, dictCreate) ops =
      Inr ((cr', d'), snd (spec_set_ops {} ops)) \<and>
    dict_rep ty d' (set_map (fst (spec_set_ops {} ops)))"
proof -
  have "dict_set_rep ty (cr, dictCreate) {}"
    using assms dict_rep_create [of ty] by (simp add: dict_set_rep_def set_map_empty)
  from dset.run_set_ops_spec [OF this, of ops "length ops" junk] show ?thesis by (auto simp: dict_set_rep_def)
qed

theorem dict_implements_set_witness:
  "\<exists>cd. run_set_ops (dict_set_add (nat_dict_type True) 0) (dict_set_remove (nat_dict_type True))
      (dict_set_find (nat_dict_type True)) (DICT_RESIZE_AVOID, dictCreate)
      [SAdd 1, SAdd 5, SAdd 5, SRemove 1, SFind 5, SFind 1] =
    Inr (cd, [True, True, False, True, True, False])"
proof -
  have "set_type (nat_dict_type True)" by (simp add: set_type_def nat_dict_type_def)
  moreover have "snd (spec_set_ops {} [SAdd 1, SAdd 5, SAdd 5, SRemove 1, SFind 5, SFind (1 :: nat)]) =
    [True, True, False, True, True, False]"
    by simp
  ultimately show ?thesis
    using dict_implements_set [of "nat_dict_type True" 0 DICT_RESIZE_AVOID
      "[SAdd 1, SAdd 5, SAdd 5, SRemove 1, SFind 5, SFind 1]"] by metis
qed

text \<open>
  CN: Two phase deletion. \<^verbatim>\<open>dictTwoPhaseUnlinkFind\<close> finds a key exactly when the map has it and pauses
  rehashing; \<^verbatim>\<open>dictTwoPhaseUnlinkFree\<close> with the link it returned removes that entry and no other and
  resumes rehashing.
\<close>

theorem dict_two_phase_unlink:
  assumes "wf_type ty" "dict_rep ty d m" "pauserehash d < 2 ^ 32 - 1"
  shows "\<exists>d1 l. dictTwoPhaseUnlinkFind cr ty d key = Inr (d1, l) \<and> dict_rep ty d1 m \<and>
    (l = None \<longleftrightarrow> m key = None) \<and>
    (l \<noteq> None \<longrightarrow> pauserehash d1 = pauserehash d + 1 \<and>
      (\<exists>d2. dictTwoPhaseUnlinkFree cr ty d1 l = Inr d2 \<and> dict_rep ty d2 (map_set (key_eq ty) m key None) \<and>
        pauserehash d2 = pauserehash d))"
  using assms by (rule dict_rep_two_phase)

theorem dict_two_phase_unlink_witness:
  "\<exists>d1 l d2. dictTwoPhaseUnlinkFind DICT_RESIZE_ENABLE (nat_dict_type False) dict_example 4 = Inr (d1, Some l) \<and>
    pauserehash d1 = 1 \<and> dictTwoPhaseUnlinkFree DICT_RESIZE_ENABLE (nat_dict_type False) d1 (Some l) = Inr d2"
proof -
  have "pauserehash dict_example < 2 ^ 32 - 1" "pauserehash dict_example = 0" by (simp_all add: dict_example_def)
  then show ?thesis
    using dict_two_phase_unlink [OF nat_dict_type_wf dict_example_rep, of DICT_RESIZE_ENABLE 4]
    by (fastforce simp del: split_paired_Ex)
qed

text \<open>
  C7: Incremental rehashing ends: when the resize policy allows it, rehashing without a time limit moves
  every entry to the new table, keeps all of them, and leaves the dict with one table.
\<close>

theorem dict_rehash_completes:
  assumes "dict_inv ty d" "pauserehash d = 0" "dictIsRehashing d" "\<not> rehash_forbidden cr d"
  shows "\<exists>d' n. dictRehashMicroseconds cr ty (\<lambda>_. False) d = Inr (d', n) \<and> \<not> dictIsRehashing d' \<and>
    dict_inv ty d' \<and> dict_payload d' = dict_payload d"
proof -
  obtain d' n where r: "rehashMicrosecondsLoop (Suc (length (ht_table (ht0 d)))) cr ty (\<lambda>_. False) 0 d = Inr (d', n)"
    "dict_same ty d d'" "\<not> dictIsRehashing d'"
    using rehashMicrosecondsLoop_completes [OF assms(1) dict_inv_fuel [OF assms(1)] assms(4)] by blast
  have "dictRehashMicroseconds cr ty (\<lambda>_. False) d = Inr (d', n)"
    using r(1) assms(2) unfolding dictRehashMicroseconds_def by (simp only: if_False not_less_zero less_numeral_extra(3))
  with r show ?thesis by (auto simp: dict_same_def)
qed

theorem dict_rehash_completes_witness:
  "\<exists>d' n. dictRehashMicroseconds DICT_RESIZE_ENABLE (nat_dict_type False) (\<lambda>_. False) dict_example = Inr (d', n) \<and>
    \<not> dictIsRehashing d' \<and> dict_payload d' = {#(4, Some 7)#}"
proof -
  have "\<not> rehash_forbidden DICT_RESIZE_ENABLE dict_example" "dictIsRehashing dict_example" "pauserehash dict_example = 0"
    by (simp_all add: rehash_forbidden_def dict_example_def dictIsRehashing_def)
  then show ?thesis using dict_rehash_completes [OF dict_example_inv, of DICT_RESIZE_ENABLE] dict_example_payload by auto
qed

text \<open>
  CN: \<^verbatim>\<open>dictEmpty\<close> frees every entry of both tables exactly once and leaves an empty map.
\<close>

theorem dict_empty_frees_all:
  assumes "dict_inv ty d"
  shows "image_mset payload (mset (snd (dictEmpty d))) = dict_payload d \<and>
    dict_rep ty (fst (dictEmpty d)) Map.empty"
  using dictEmpty_ok [OF assms] by simp

theorem dict_empty_frees_all_witness:
  "image_mset payload (mset (snd (dictEmpty dict_example))) = {#(4, Some 7)#}"
  using dict_empty_frees_all [OF dict_example_inv] dict_example_payload by simp



end
