(* ===== verification/Dict_Scan.thy ===== *)
theory Dict_Scan
  imports Dict_Map
begin

text \<open>
  The stateless cursor of \<^verbatim>\<open>dictScan\<close>: reversing the bits of a cursor, stepping it, and the guarantee
  its comment gives, that an element present from the start to the end of a scan is returned, whatever
  happens to the tables between the calls. The callback of the scan is taken not to change the dict: the
  model returns the entries it is called with.
\<close>

section \<open>Reversing bits\<close>

fun revLoop :: "nat \<Rightarrow> u64 \<Rightarrow> u64 \<Rightarrow> u64" where
  "revLoop s m v =
     (let s = s div 2 in
      if s > 0 then
        let m = m XOR push_bit s m in
        revLoop s m ((drop_bit s v AND m) OR (push_bit s v AND NOT m))
      else v)"

declare revLoop.simps [simp del]

definition rev_ul :: "u64 \<Rightarrow> u64" where
  "rev_ul v = revLoop 64 (NOT 0) v"

section \<open>The scan\<close>

fun scanBucketLoop :: "('s, 'v) dictEntry list \<Rightarrow> ('s, 'v) dictEntry list" where
  "scanBucketLoop [] = []"
| "scanBucketLoop (de # rest) =
     (let nxt = dictGetNext de rest in if nxt = [] then [de] else de # scanBucketLoop rest)"

definition next_cursor :: "u64 \<Rightarrow> u64 \<Rightarrow> u64" where
  "next_cursor v m = rev_ul (rev_ul (v OR NOT m) + 1)"

section \<open>Bits of the reversed number\<close>

lemma rev_step_bit:
  assumes "\<And>n. n < 64 \<Longrightarrow> bit m n \<longleftrightarrow> even (n div s)" "n < 64" "0 < s" "s < 64"
  shows "bit ((drop_bit s v AND m) OR (push_bit s v AND NOT m) :: u64) n \<longleftrightarrow>
    (if even (n div s) then bit v (s + n) else s \<le> n \<and> bit v (n - s))"
  using assms by (auto simp: bit_simps)

lemma rev_mask_bit:
  assumes "\<And>n. n < 64 \<Longrightarrow> bit m n \<longleftrightarrow> even (n div (2 * s))" "n < 64" "0 < s"
  shows "bit (m XOR push_bit s m :: u64) n \<longleftrightarrow> even (n div s)"
proof -
  have half: "n div (2 * s) = n div s div 2" by (simp add: div_mult2_eq mult.commute)
  show ?thesis
  proof (cases "s \<le> n")
    case True
    have "(n - s) div (2 * s) = (n div s - 1) div 2"
      using assms(3) True by (simp add: div_mult2_eq mult.commute [of 2] le_div_geq)
    moreover have "0 < n div s" using True assms(3) by (simp add: div_greater_zero_iff)
    moreover have "0 < q \<Longrightarrow> (even (q div 2) \<noteq> even ((q - 1) div 2)) \<longleftrightarrow> even q" for q :: nat by presburger
    moreover have "bit (m XOR push_bit s m) n \<longleftrightarrow> (bit m n \<noteq> bit m (n - s))"
      using True assms(2) by (auto simp: bit_simps)
    ultimately show ?thesis using assms(1) [of n] assms(1) [of "n - s"] assms(2) half by auto
  next
    case False
    then show ?thesis using assms half by (auto simp: bit_simps)
  qed
qed

text \<open>The position that bit \<open>n\<close> comes from after the last \<open>k\<close> rounds.\<close>

fun rev_pos :: "nat \<Rightarrow> nat \<Rightarrow> nat" where
  "rev_pos 0 n = n"
| "rev_pos (Suc k) n =
     (let j = rev_pos k n in if even (j div 2 ^ k) then 2 ^ k + j else j - 2 ^ k)"

lemma rev_pos_eq: "rev_pos k n = n div 2 ^ k * 2 ^ k + (2 ^ k - 1 - n mod 2 ^ k)"
proof (induction k)
  case (Suc k)
  let ?s = "2 ^ k :: nat"
  define q r where "q = n div ?s" and "r = n mod ?s"
  define u where "u = ?s - 1 - r"
  have r: "r < ?s" by (simp add: r_def)
  then have u: "u < ?s" "r + u + 1 = ?s" by (simp_all add: u_def)
  have j: "rev_pos k n = q * ?s + u" using Suc by (simp add: q_def r_def u_def)
  then have jd: "rev_pos k n div ?s = q" using u by simp
  have n: "n div 2 ^ Suc k = q div 2" "n mod 2 ^ Suc k = q mod 2 * ?s + r"
    by (simp_all add: q_def r_def div_mult2_eq mod_mult2_eq mult.commute [of 2])
  have sub: "2 ^ Suc k - 1 - (0 * ?s + r) = ?s + u" "2 ^ Suc k - 1 - (1 * ?s + r) = u" using u by simp_all
  show ?case
  proof (cases "even q")
    case True
    then have q: "q div 2 * 2 ^ Suc k = q * ?s" "q mod 2 = 0" by simp_all
    show ?thesis unfolding n q sub using True j jd by (simp add: Let_def)
  next
    case False
    then have q: "q = q div 2 * 2 + 1" "q mod 2 = 1" by presburger+
    have "q * ?s = q div 2 * 2 ^ Suc k + ?s" by (subst q(1)) (simp add: algebra_simps)
    then show ?thesis unfolding n q(2) sub using False j jd by (simp add: Let_def)
  qed
qed simp

lemma rev_pos_less: "k \<le> 6 \<Longrightarrow> n < 64 \<Longrightarrow> rev_pos k n < 64"
proof -
  assume k: "k \<le> 6" "n < 64"
  define t where "t = (2 :: nat) ^ (6 - k)"
  have t: "t * 2 ^ k = 64" using k(1) by (simp add: t_def flip: power_add)
  then have "n div 2 ^ k < t" using k(2) by (simp add: less_mult_imp_div_less)
  then have "(n div 2 ^ k + 1) * 2 ^ k \<le> 64" unfolding t [symmetric] by (intro mult_le_mono1) simp
  moreover have "rev_pos k n < (n div 2 ^ k + 1) * 2 ^ k" by (simp add: rev_pos_eq)
  ultimately show ?thesis by linarith
qed

lemma rev_pos_6: "n < 64 \<Longrightarrow> rev_pos 6 n = 63 - n"
  by (simp add: rev_pos_eq)

lemma revLoop_bit:
  assumes "k \<le> 6" "\<And>n. n < 64 \<Longrightarrow> bit m n \<longleftrightarrow> even (n div 2 ^ k)" "n < 64"
  shows "bit (revLoop (2 ^ k) m v) n \<longleftrightarrow> bit v (rev_pos k n)"
  using assms
proof (induction k arbitrary: m v)
  case 0
  then show ?case by (simp add: revLoop.simps)
next
  case (Suc k)
  let ?s = "2 ^ k :: nat"
  let ?m = "m XOR push_bit ?s m"
  have m: "bit ?m j \<longleftrightarrow> even (j div ?s)" if "j < 64" for j
    using rev_mask_bit [of m ?s j] Suc.prems(2) that by simp
  have s: "?s < 64" using power_strict_increasing [of k 6 "2 :: nat"] Suc.prems(1) by simp
  let ?v = "(drop_bit ?s v AND ?m) OR (push_bit ?s v AND NOT ?m)"
  have j: "rev_pos k n < 64" using rev_pos_less Suc.prems(1,3) by simp
  have "bit (revLoop (2 ^ Suc k) m v) n \<longleftrightarrow> bit (revLoop ?s ?m ?v) n"
    by (subst revLoop.simps) (simp add: Let_def)
  also have "\<dots> \<longleftrightarrow> bit ?v (rev_pos k n)" using Suc.prems m by (intro Suc.IH) auto
  also have "\<dots> \<longleftrightarrow> bit v (rev_pos (Suc k) n)"
  proof -
    have "?s \<le> rev_pos k n" if "odd (rev_pos k n div ?s)"
      using that by (metis div_less even_zero not_le)
    then show ?thesis using rev_step_bit [OF m j _ s] by (auto simp: Let_def)
  qed
  finally show ?case .
qed

lemma bit_rev_ul: "bit (rev_ul v) n \<longleftrightarrow> n < 64 \<and> bit v (63 - n)"
proof (cases "n < 64")
  case True
  have "bit (revLoop (2 ^ 6) (NOT 0) v) n \<longleftrightarrow> bit v (rev_pos 6 n)"
    using True by (intro revLoop_bit) (auto simp: bit_simps)
  then show ?thesis using True rev_pos_6 by (simp add: rev_ul_def)
qed (auto dest: bit_imp_le_length)

lemma rev_rev_ul [simp]: "rev_ul (rev_ul v) = v"
proof (rule bit_word_eqI)
  fix n assume "n < LENGTH(64)"
  then have "n < 64" by simp
  then have "63 - (63 - n) = n" "63 - n < 64" by simp_all
  then show "bit (rev_ul (rev_ul v)) n \<longleftrightarrow> bit v n" using \<open>n < 64\<close> by (simp add: bit_rev_ul)
qed

lemma rev_ul_0 [simp]: "rev_ul 0 = 0"
  by (rule bit_word_eqI) (simp add: bit_rev_ul)

lemma rev_ul_or: "rev_ul (v OR w) = rev_ul v OR rev_ul w"
  by (rule bit_word_eqI) (auto simp: bit_rev_ul bit_simps)

text \<open>
  The place of a cursor or of a hash in the scan. The buckets of a table of size \<open>2^e\<close> are intervals of
  length \<open>2^(64-e)\<close> of places, and a larger table only subdivides them.
\<close>

definition place :: "u64 \<Rightarrow> nat" where
  "place v = unat (rev_ul v)"

lemma place_0 [simp]: "place 0 = 0"
  by (simp add: place_def)

lemma place_less: "place v < 2 ^ 64"
  using unsigned_less [of "rev_ul v"] by (simp add: place_def)

lemma place_eq_0: "place v = 0 \<longleftrightarrow> v = 0"
  by (metis place_def place_0 rev_rev_ul unat_eq_zero rev_ul_0)

lemma place_next:
  "next_cursor v m \<noteq> 0 \<Longrightarrow> place (next_cursor v m) = place (v OR NOT m) + 1"
proof -
  assume "next_cursor v m \<noteq> 0"
  then have "rev_ul (v OR NOT m) + 1 \<noteq> 0" by (metis next_cursor_def rev_ul_0)
  then show ?thesis using unatSuc [of "rev_ul (v OR NOT m)"] by (simp add: place_def next_cursor_def add.commute)
qed

lemma nat_or_mask: "(x :: nat) OR mask k = x div 2 ^ k * 2 ^ k + (2 ^ k - 1)"
proof -
  have "x OR mask k = push_bit k (drop_bit k x) OR mask k"
    by (rule bit_eqI) (auto simp: bit_simps)
  also have "\<dots> = push_bit k (drop_bit k x) + mask k"
    by (rule disjunctive_add [symmetric]) (auto simp: bit_simps)
  finally show ?thesis by (simp add: push_bit_eq_mult drop_bit_eq_div mask_eq_exp_minus_1)
qed

lemma place_or_mask:
  assumes "0 \<le> e" "e \<le> 63"
  shows "place (v OR NOT (DICTHT_SIZE_MASK e)) =
    place v div 2 ^ (64 - nat e) * 2 ^ (64 - nat e) + (2 ^ (64 - nat e) - 1)"
proof -
  have "rev_ul (NOT (DICTHT_SIZE_MASK e)) = mask (64 - nat e)"
    using assms by (intro bit_word_eqI) (auto simp: bit_rev_ul bit_simps mask_unat)
  moreover have "unat (mask (64 - nat e) :: u64) = mask (64 - nat e)"
    by (rule bit_eqI) (auto simp: bit_simps)
  ultimately show ?thesis by (simp add: place_def rev_ul_or unsigned_or_eq nat_or_mask)
qed

lemma same_bucket:
  assumes "0 \<le> e" "e \<le> 63"
  shows "dictBucket h e = dictBucket v e \<longleftrightarrow> place h div 2 ^ (64 - nat e) = place v div 2 ^ (64 - nat e)"
proof -
  define k where "k = 64 - nat e"
  have bh: "bit (dictBucket x e) n \<longleftrightarrow> n < nat e \<and> bit x n" for x n
    using assms by (simp add: dictBucket_take_bit bit_simps)
  have bp: "bit (place x div 2 ^ k) n \<longleftrightarrow> k + n < 64 \<and> bit x (63 - (k + n))" for x n
    by (simp add: place_def bit_simps bit_rev_ul flip: drop_bit_eq_div)
  have l: "(\<forall>n. bit (dictBucket h e) n = bit (dictBucket v e) n) \<longleftrightarrow> (\<forall>n<nat e. bit h n = bit v n)"
    by (auto simp: bh)
  also have "\<dots> \<longleftrightarrow> (\<forall>n. bit (place h div 2 ^ k) n = bit (place v div 2 ^ k) n)"
  proof -
    have "nat e - 1 - (nat e - 1 - n) = n" "63 - (k + (nat e - 1 - n)) = n" "k + (nat e - 1 - n) < 64" if "n < nat e" for n
      using that assms by (auto simp: k_def)
    moreover have "63 - (k + n) < nat e" if "k + n < 64" for n using that assms by (auto simp: k_def)
    ultimately show ?thesis unfolding bp by metis
  qed
  finally show ?thesis by (metis bit_eqI k_def)
qed

text \<open>One step of the cursor: it moves to the end of the bucket's interval of places.\<close>

lemma next_cursor_place:
  assumes "0 \<le> e" "e \<le> 63"
  defines "w \<equiv> 2 ^ (64 - nat e)"
  shows "next_cursor v (DICTHT_SIZE_MASK e) = 0 \<and> place v div w * w + w = 2 ^ 64 \<or>
    next_cursor v (DICTHT_SIZE_MASK e) \<noteq> 0 \<and> place (next_cursor v (DICTHT_SIZE_MASK e)) = place v div w * w + w"
proof -
  have pm: "place (v OR NOT (DICTHT_SIZE_MASK e)) = place v div w * w + (w - 1)"
    unfolding w_def by (rule place_or_mask [OF assms(1,2)])
  have w: "0 < w" by (simp add: w_def)
  show ?thesis
  proof (cases "next_cursor v (DICTHT_SIZE_MASK e) = 0")
    case True
    then have "rev_ul (v OR NOT (DICTHT_SIZE_MASK e)) + 1 = 0"
      by (metis next_cursor_def rev_rev_ul rev_ul_0)
    then have "rev_ul (v OR NOT (DICTHT_SIZE_MASK e)) = - 1" by (simp add: eq_neg_iff_add_eq_0)
    then have "place (v OR NOT (DICTHT_SIZE_MASK e)) = 2 ^ 64 - 1"
      by (simp add: place_def unsigned_minus_1_eq_mask mask_eq_exp_minus_1)
    then show ?thesis using True pm w by simp
  next
    case False
    then show ?thesis using place_next [OF False] pm w by simp
  qed
qed

lemma next_cursor_progress: "next_cursor v m \<noteq> 0 \<Longrightarrow> place v < place (next_cursor v m)"
proof -
  assume n: "next_cursor v m \<noteq> 0"
  have "place v \<le> place (v OR NOT m)"
    by (simp add: place_def rev_ul_or flip: word_le_nat_alt) (simp add: word_le_def uint_or or_greater_eq)
  then show ?thesis using place_next [OF n] by simp
qed

section \<open>The scan of a dict\<close>

text \<open>The inner loop over the buckets of the larger table that expand a bucket of the smaller one.\<close>

function scanExpansionsLoop ::
  "('s, 'v) dictEntry list list \<Rightarrow> u64 \<Rightarrow> u64 \<Rightarrow> u64 \<Rightarrow> (('s, 'v) dictEntry list \<times> u64) result" where
  "scanExpansionsLoop tbl m0 m1 v =
     res_bind (rd tbl (int (unat (v AND m1)))) (\<lambda>chain.
     let v' = next_cursor v m1 in
     if v' AND (m0 XOR m1) \<noteq> 0 then
       res_bind (scanExpansionsLoop tbl m0 m1 v') (\<lambda>(es, v''). Inr (scanBucketLoop chain @ es, v''))
     else Inr (scanBucketLoop chain, v'))"
  by auto
termination
proof (relation "measure (\<lambda>(tbl, m0, m1, v). 2 ^ 64 - place v)", goal_cases)
  case (2 tbl m0 m1 v x v')
  then have "v' \<noteq> 0" by auto
  then have "place v < place v'" using next_cursor_progress 2 by simp
  then show ?case using place_less [of v'] 2(2) by simp
qed simp

declare scanExpansionsLoop.simps [simp del]

definition dictScan ::
  "('s, 'v) dict \<Rightarrow> u64 \<Rightarrow> (('s, 'v) dict \<times> ('s, 'v) dictEntry list \<times> u64) result" where
  "dictScan d v =
     (if dictSize d = 0 then Inr (d, [], 0)
      else
        let d = dictPauseRehashing d in
        res_bind
          (if \<not> dictIsRehashing d then
             let m0 = DICTHT_SIZE_MASK (ht_size_exp (ht0 d)) in
             res_bind (rd (ht_table (ht0 d)) (int (unat (v AND m0)))) (\<lambda>chain.
             Inr (scanBucketLoop chain, next_cursor v m0))
           else
             let (t0, t1) = (if DICTHT_SIZE (ht_size_exp (ht0 d)) > DICTHT_SIZE (ht_size_exp (ht1 d))
                             then (ht1 d, ht0 d) else (ht0 d, ht1 d));
                 m0 = DICTHT_SIZE_MASK (ht_size_exp t0); m1 = DICTHT_SIZE_MASK (ht_size_exp t1) in
             res_bind (rd (ht_table t0) (int (unat (v AND m0)))) (\<lambda>chain.
             res_bind (scanExpansionsLoop (ht_table t1) m0 m1 v) (\<lambda>(es, v').
             Inr (scanBucketLoop chain @ es, v'))))
          (\<lambda>(es, v'). Inr (dictResumeRehashing d, es, v')))"

lemma scanBucketLoop_ok: "chain_ok ty c \<Longrightarrow> scanBucketLoop c = c"
proof (induction c)
  case (Cons de rest)
  have "(if entryIsKey de then [] else rest) = rest" using chain_ok_Cons_key [OF Cons.prems] by auto
  then show ?case using Cons.IH [OF chain_ok_tl [OF Cons.prems]] by (auto simp: Let_def dictGetNext_def)
qed simp

text \<open>The entries of a table whose places lie in an interval.\<close>

lemma ht_ok_mem:
  assumes "ht_ok ty h" "e \<in> set (concat (ht_table h))"
  shows "e \<in> set (ht_table h ! dictBucket (hashFunction ty (entry_key ty e)) (ht_size_exp h))"
proof -
  obtain j where "j < length (ht_table h)" "e \<in> set (ht_table h ! j)"
    using assms(2) by (auto simp: in_concat_nth simp del: set_concat)
  then show ?thesis using assms(1) by (auto simp: ht_ok_def)
qed

definition place_of :: "('s, 'k, 'v) dictType \<Rightarrow> ('s, 'v) dictEntry \<Rightarrow> nat" where
  "place_of ty e = place (hashFunction ty (entry_key ty e))"

lemma bucket_at_cursor:
  assumes "ht_ok ty h"
  defines "w \<equiv> 2 ^ (64 - nat (ht_size_exp h))"
  shows "rd (ht_table h) (int (unat (v AND DICTHT_SIZE_MASK (ht_size_exp h)))) =
      Inr (ht_table h ! dictBucket v (ht_size_exp h))"
    and "scanBucketLoop (ht_table h ! dictBucket v (ht_size_exp h)) = ht_table h ! dictBucket v (ht_size_exp h)"
    and "e \<in> set (concat (ht_table h)) \<Longrightarrow>
      e \<in> set (ht_table h ! dictBucket v (ht_size_exp h)) \<longleftrightarrow> place_of ty e div w = place v div w"
proof -
  have b: "dictBucket v (ht_size_exp h) < length (ht_table h)" by (rule ht_ok_bucket [OF assms(1)])
  then show "rd (ht_table h) (int (unat (v AND DICTHT_SIZE_MASK (ht_size_exp h)))) =
      Inr (ht_table h ! dictBucket v (ht_size_exp h))"
    unfolding dictBucket_def [symmetric] by (rule rd_nat)
  show "scanBucketLoop (ht_table h ! dictBucket v (ht_size_exp h)) = ht_table h ! dictBucket v (ht_size_exp h)"
    using b assms(1) by (intro scanBucketLoop_ok [of ty]) (simp add: ht_ok_def)
  assume e: "e \<in> set (concat (ht_table h))"
  have "e \<in> set (ht_table h ! dictBucket v (ht_size_exp h)) \<longleftrightarrow>
    dictBucket (hashFunction ty (entry_key ty e)) (ht_size_exp h) = dictBucket v (ht_size_exp h)"
    using ht_ok_mem [OF assms(1) e] b assms(1) by (metis ht_ok_def)
  then show "e \<in> set (ht_table h ! dictBucket v (ht_size_exp h)) \<longleftrightarrow> place_of ty e div w = place v div w"
    using same_bucket [of "ht_size_exp h"] ht_ok_exp [OF assms(1)] by (simp add: place_of_def w_def)
qed

text \<open>Rounding down to multiples.\<close>

lemma floor_le: "x div w * w \<le> (x :: nat)"
  by simp

lemma floor_gt: "0 < w \<Longrightarrow> (x :: nat) < x div w * w + w"
  using div_mult_mod_eq [of x w] mod_less_divisor [of w x] by linarith

lemma floor_next: "0 < w \<Longrightarrow> w dvd y \<Longrightarrow> (x :: nat) < y \<Longrightarrow> x div w * w + w \<le> y"
proof -
  assume a: "0 < w" "w dvd y" "x < y"
  then obtain c where y: "y = w * c" by (auto elim: dvdE)
  then have "x div w < c" using a by (simp add: less_mult_imp_div_less mult.commute)
  then have "(x div w + 1) * w \<le> c * w" by (intro mult_le_mono1) simp
  then show ?thesis using y by (simp add: mult.commute)
qed

lemma same_floor: "0 < w \<Longrightarrow> (y :: nat) div w = x div w \<longleftrightarrow> x div w * w \<le> y \<and> y < x div w * w + w"
  by (metis add.commute floor_gt floor_le div_nat_eqI mult.commute mult_Suc_right)

lemma place_dvd:
  assumes "e \<le> 63"
  shows "2 ^ (64 - e) dvd place v \<longleftrightarrow> (\<forall>n. e \<le> n \<and> n < 64 \<longrightarrow> \<not> bit v n)"
proof -
  have "2 ^ (64 - e) dvd place v \<longleftrightarrow> take_bit (64 - e) (place v) = 0" by (simp add: take_bit_eq_0_iff)
  also have "\<dots> \<longleftrightarrow> (\<forall>n<64 - e. \<not> bit (rev_ul v) n)"
    by (auto simp: place_def bit_eq_iff bit_simps)
  also have "\<dots> \<longleftrightarrow> (\<forall>n. e \<le> n \<and> n < 64 \<longrightarrow> \<not> bit v n)"
  proof (intro iffI allI impI, goal_cases)
    case (1 n)
    then have "63 - n < 64 - e" "63 - (63 - n) = n" by auto
    then show ?case using 1(1) by (metis bit_rev_ul diff_le_self le_trans less_eq_Suc_le not_less rev_rev_ul)
  next
    case (2 n)
    then have "e \<le> 63 - n \<and> 63 - n < 64" using assms by auto
    then show ?case using 2(1) by (simp add: bit_rev_ul)
  qed
  finally show ?thesis .
qed

text \<open>The exit condition of the inner loop: the cursor reached the end of the bucket of the smaller table.\<close>

lemma expansion_exit:
  assumes "0 \<le> e0" "e0 \<le> e1" "e1 \<le> 63" "2 ^ (64 - nat e1) dvd place v"
  shows "v AND (DICTHT_SIZE_MASK e0 XOR DICTHT_SIZE_MASK e1) = 0 \<longleftrightarrow> 2 ^ (64 - nat e0) dvd place v"
proof -
  have e: "nat e0 \<le> 63" "nat e1 \<le> 63" "nat e0 \<le> nat e1" using assms by auto
  have hi: "\<forall>n. nat e1 \<le> n \<and> n < 64 \<longrightarrow> \<not> bit v n" using place_dvd [OF e(2)] assms(4) by blast
  have "v AND (DICTHT_SIZE_MASK e0 XOR DICTHT_SIZE_MASK e1) = 0 \<longleftrightarrow>
    (\<forall>n<64. \<not> (bit v n \<and> (n < nat e0) \<noteq> (n < nat e1)))"
    using assms by (auto simp: bit_eq_iff bit_simps mask_unat)
  also have "\<dots> \<longleftrightarrow> (\<forall>n. nat e0 \<le> n \<and> n < 64 \<longrightarrow> \<not> bit v n)"
    using hi e(3) by (metis less_le_trans not_le)
  finally show ?thesis using place_dvd [OF e(1)] by blast
qed

lemma scanExpansionsLoop_ok:
  assumes "ht_ok ty h" "0 \<le> e0" "e0 \<le> ht_size_exp h"
  defines "w0 \<equiv> 2 ^ (64 - nat e0)" and "w1 \<equiv> 2 ^ (64 - nat (ht_size_exp h))"
  shows "\<exists>es v'. scanExpansionsLoop (ht_table h) (DICTHT_SIZE_MASK e0) (DICTHT_SIZE_MASK (ht_size_exp h)) v = Inr (es, v') \<and>
    set es \<subseteq> set (concat (ht_table h)) \<and>
    (\<forall>e\<in>set (concat (ht_table h)). e \<in> set es \<longleftrightarrow>
      place v div w1 * w1 \<le> place_of ty e \<and> place_of ty e < place v div w0 * w0 + w0) \<and>
    (v' = 0 \<and> place v div w0 * w0 + w0 = 2 ^ 64 \<or> v' \<noteq> 0 \<and> place v' = place v div w0 * w0 + w0)"
proof (induction "2 ^ 64 - place v" arbitrary: v rule: less_induct)
  case less
  let ?e1 = "ht_size_exp h" and ?m0 = "DICTHT_SIZE_MASK e0" and ?m1 = "DICTHT_SIZE_MASK (ht_size_exp h)"
  have ex: "0 \<le> ?e1" "?e1 \<le> 63" using ht_ok_exp [OF assms(1)] by simp_all
  let ?c = "ht_table h ! dictBucket v ?e1" and ?v = "next_cursor v ?m1"
  define E where "E = place v div w0 * w0 + w0"
  define F where "F = place v div w1 * w1"
  have "w0 dvd 2 ^ 64" unfolding w0_def by (rule le_imp_power_dvd) simp
  then have w: "0 < w0" "0 < w1" "w1 dvd w0" "w0 dvd 2 ^ 64" "w0 dvd E" "w1 dvd F"
    using assms(2,3) ex by (auto simp: w0_def w1_def E_def F_def intro: le_imp_power_dvd)
  note bc = bucket_at_cursor [OF assms(1), where v = v]
  have cin: "\<forall>e\<in>set (concat (ht_table h)). e \<in> set ?c \<longleftrightarrow> F \<le> place_of ty e \<and> place_of ty e < F + w1"
    using bc(3) same_floor [OF w(2)] by (auto simp: F_def w1_def simp del: set_concat)
  have csub: "set ?c \<subseteq> set (concat (ht_table h))"
    using ht_ok_bucket [OF assms(1), of v] by (auto simp: in_concat_nth simp del: set_concat)
  have nx: "?v = 0 \<and> F + w1 = 2 ^ 64 \<or> ?v \<noteq> 0 \<and> place ?v = F + w1"
    using next_cursor_place [OF ex, of v] by (simp add: F_def w1_def)
  have FE: "F + w1 \<le> E" using floor_next [OF w(2), of E "place v"] w floor_gt [OF w(1), of "place v"]
    by (auto simp: E_def F_def intro: dvd_trans)
  have Fv: "F \<le> place v" "place v < F + w1" using floor_gt [OF w(2)] by (auto simp: F_def)
  have run: "scanExpansionsLoop (ht_table h) ?m0 ?m1 v =
    (if ?v AND (?m0 XOR ?m1) \<noteq> 0 then
       res_bind (scanExpansionsLoop (ht_table h) ?m0 ?m1 ?v) (\<lambda>(es, v''). Inr (?c @ es, v''))
     else Inr (?c, ?v))"
    by (subst scanExpansionsLoop.simps) (simp only: bc(1,2) Let_def res_bind_simps)
  show ?case
  proof (cases "?v AND (?m0 XOR ?m1) \<noteq> 0")
    case True
    then have v0: "?v \<noteq> 0" by auto
    then have pv: "place ?v = F + w1" using nx by simp
    have ndvd: "\<not> w0 dvd place ?v"
      using True expansion_exit [OF assms(2,3) ex(2), of ?v] pv w by (simp add: w0_def w1_def F_def)
    then have "place ?v < E" using pv FE w(5) by (metis order_le_less)
    then have same: "place ?v div w0 = place v div w0"
      using same_floor [OF w(1), of "place ?v" "place v"] pv Fv floor_le [of "place v" w0] by (simp add: E_def)
    have fl: "place ?v div w1 * w1 = F + w1" using pv w by (simp add: F_def)
    have "2 ^ 64 - place ?v < 2 ^ 64 - place v" using pv Fv place_less [of ?v] by simp
    from less(1) [OF this] obtain es v' where ih:
      "scanExpansionsLoop (ht_table h) ?m0 ?m1 ?v = Inr (es, v')" "set es \<subseteq> set (concat (ht_table h))"
      "\<forall>e\<in>set (concat (ht_table h)). e \<in> set es \<longleftrightarrow> F + w1 \<le> place_of ty e \<and> place_of ty e < E"
      "v' = 0 \<and> E = 2 ^ 64 \<or> v' \<noteq> 0 \<and> place v' = E"
      unfolding same fl E_def [symmetric] by blast
    show ?thesis unfolding run E_def [symmetric] F_def [symmetric]
      using True ih csub cin FE by (auto simp del: set_concat)
  next
    case False
    have "F + w1 = E"
    proof (cases "?v = 0")
      case True
      then have "E \<le> F + w1" using nx floor_next [OF w(1,4), of "place v"] place_less [of v] by (simp add: E_def)
      then show ?thesis using FE by simp
    next
      case nz: False
      then have "w0 dvd F + w1" using False expansion_exit [OF assms(2,3) ex(2), of ?v] nx w by (simp add: w0_def w1_def)
      then have "E \<le> F + w1" using floor_next [OF w(1), of "F + w1" "place v"] Fv by (simp add: E_def)
      then show ?thesis using FE by simp
    qed
    then show ?thesis unfolding run E_def [symmetric] F_def [symmetric]
      using False cin csub nx by auto
  qed
qed

definition dict_entries :: "('s, 'v) dict \<Rightarrow> ('s, 'v) dictEntry list" where
  "dict_entries d = concat (ht_table (ht0 d)) @ concat (ht_table (ht1 d))"

lemma dictSize_entries: "dict_inv ty d \<Longrightarrow> dictSize d = length (dict_entries d)"
  by (auto simp: dict_inv_def rehash_inv_def dictSize_def dict_entries_def ht_ok_def dictht_null_def split: if_splits)

lemma pause_resume: "pauserehash d < 2 ^ 32 - 1 \<Longrightarrow> dictResumeRehashing (dictPauseRehashing d) = d"
  by (simp add: dictResumeRehashing_def dictPauseRehashing_def)

text \<open>
  One call returns every entry whose place is between the cursor and the next cursor, and the cursor moves on.
\<close>

lemma dictScan_one_run:
  assumes "dict_inv ty d" "pauserehash d < 2 ^ 32 - 1" "dict_entries d \<noteq> []" "\<not> dictIsRehashing d"
  shows "ht_ok ty (ht0 d)"
    and "dictScan d v = Inr (d, ht_table (ht0 d) ! dictBucket v (ht_size_exp (ht0 d)),
      next_cursor v (DICTHT_SIZE_MASK (ht_size_exp (ht0 d))))"
proof -
  show ok: "ht_ok ty (ht0 d)" using assms by (auto simp: dict_inv_def dict_entries_def dictht_null_def)
  note bc = bucket_at_cursor [OF ok, where v = v]
  have "dictSize d \<noteq> 0" using dictSize_entries [OF assms(1)] assms(3) by simp
  moreover have "ht0 (dictPauseRehashing d) = ht0 d" "dictIsRehashing (dictPauseRehashing d) = dictIsRehashing d"
    by (simp_all add: dictPauseRehashing_def dictIsRehashing_def)
  ultimately show "dictScan d v = Inr (d, ht_table (ht0 d) ! dictBucket v (ht_size_exp (ht0 d)),
      next_cursor v (DICTHT_SIZE_MASK (ht_size_exp (ht0 d))))"
    using assms(4) pause_resume [OF assms(2)] unfolding dictScan_def Let_def
    by (simp only: if_False if_True not_False_eq_True bc(1,2) res_bind_simps prod.case)
qed

lemma dictScan_one:
  assumes "dict_inv ty d" "pauserehash d < 2 ^ 32 - 1" "dict_entries d \<noteq> []" "\<not> dictIsRehashing d"
  shows "\<exists>es v'. dictScan d v = Inr (d, es, v') \<and> set es \<subseteq> set (dict_entries d) \<and>
    (v' \<noteq> 0 \<longrightarrow> place v < place v' \<and> 2 ^ (64 - nat (ht_size_exp (ht0 d))) dvd place v') \<and>
    (\<forall>e\<in>set (dict_entries d). place v \<le> place_of ty e \<and> (v' = 0 \<or> place_of ty e < place v') \<longrightarrow> e \<in> set es)"
proof -
  note ok = dictScan_one_run(1) [OF assms] and run = dictScan_one_run(2) [OF assms, of v]
  have h1: "ht1 d = dictht_null" using assms(1,4) by (simp add: dict_inv_def)
  let ?e = "ht_size_exp (ht0 d)" and ?v = "next_cursor v (DICTHT_SIZE_MASK (ht_size_exp (ht0 d)))"
  let ?c = "ht_table (ht0 d) ! dictBucket v ?e"
  define w :: nat where "w = 2 ^ (64 - nat ?e)"
  have w: "0 < w" by (simp add: w_def)
  note bc = bucket_at_cursor [OF ok, where v = v]
  have ex: "0 \<le> ?e" "?e \<le> 63" using ht_ok_exp [OF ok] by simp_all
  have nx: "?v = 0 \<and> place v div w * w + w = 2 ^ 64 \<or> ?v \<noteq> 0 \<and> place ?v = place v div w * w + w"
    using next_cursor_place [OF ex, of v] by (simp add: w_def)
  have "set ?c \<subseteq> set (dict_entries d)"
    using ht_ok_bucket [OF ok, of v] by (auto simp: dict_entries_def in_concat_nth simp del: set_concat)
  moreover have "e \<in> set ?c" if "e \<in> set (dict_entries d)" "place v \<le> place_of ty e" "?v = 0 \<or> place_of ty e < place ?v" for e
  proof -
    have "e \<in> set (concat (ht_table (ht0 d)))" using that(1) h1 by (simp add: dict_entries_def dictht_null_def)
    moreover have "place_of ty e < place v div w * w + w"
      using that(3) nx place_less [of "hashFunction ty (entry_key ty e)"] by (auto simp: place_of_def)
    moreover have "place v div w * w \<le> place_of ty e" using floor_le that(2) by (rule le_trans)
    ultimately show ?thesis using bc(3) [of e] same_floor [OF w, of "place_of ty e" "place v"] unfolding w_def by blast
  qed
  moreover have "?v \<noteq> 0 \<longrightarrow> place v < place ?v \<and> 2 ^ (64 - nat (ht_size_exp (ht0 d))) dvd place ?v"
    using next_cursor_progress nx by (auto simp: w_def)
  ultimately show ?thesis using run by blast
qed

lemma dictScan_two:
  assumes "dict_inv ty d" "pauserehash d < 2 ^ 32 - 1" "dict_entries d \<noteq> []" "dictIsRehashing d"
  shows "\<exists>es v'. dictScan d v = Inr (d, es, v') \<and> set es \<subseteq> set (dict_entries d) \<and>
    (v' \<noteq> 0 \<longrightarrow> place v < place v' \<and> 2 ^ (64 - nat (ht_size_exp (ht0 d))) dvd place v') \<and>
    (\<forall>e\<in>set (dict_entries d). place v \<le> place_of ty e \<and> (v' = 0 \<or> place_of ty e < place v') \<longrightarrow> e \<in> set es)"
proof -
  note True = assms(4)
  define t0 t1 where "t0 = (if DICTHT_SIZE (ht_size_exp (ht0 d)) > DICTHT_SIZE (ht_size_exp (ht1 d)) then ht1 d else ht0 d)"
    and "t1 = (if DICTHT_SIZE (ht_size_exp (ht0 d)) > DICTHT_SIZE (ht_size_exp (ht1 d)) then ht0 d else ht1 d)"
  have oks: "ht_ok ty (ht0 d)" "ht_ok ty (ht1 d)" using dict_inv_rehashing [OF assms(1) True] by (simp_all add: rehash_inv_def)
  then have ok: "ht_ok ty t0" "ht_ok ty t1" by (simp_all add: t0_def t1_def)
  have le: "0 \<le> ht_size_exp t0" "ht_size_exp t0 \<le> ht_size_exp t1"
    using oks ht_ok_exp [OF oks(1)] ht_ok_exp [OF oks(2)]
    by (auto simp: t0_def t1_def DICTHT_SIZE_def not_less split: if_splits)
  let ?m0 = "DICTHT_SIZE_MASK (ht_size_exp t0)" and ?m1 = "DICTHT_SIZE_MASK (ht_size_exp t1)"
  let ?c = "ht_table t0 ! dictBucket v (ht_size_exp t0)"
  define w0 w1 :: nat where "w0 = 2 ^ (64 - nat (ht_size_exp t0))" and "w1 = 2 ^ (64 - nat (ht_size_exp t1))"
  have w: "0 < w0" by (simp add: w0_def)
  obtain es v' where ex: "scanExpansionsLoop (ht_table t1) ?m0 ?m1 v = Inr (es, v')" "set es \<subseteq> set (concat (ht_table t1))"
    "\<forall>e\<in>set (concat (ht_table t1)). e \<in> set es \<longleftrightarrow>
      place v div w1 * w1 \<le> place_of ty e \<and> place_of ty e < place v div w0 * w0 + w0"
    "v' = 0 \<and> place v div w0 * w0 + w0 = 2 ^ 64 \<or> v' \<noteq> 0 \<and> place v' = place v div w0 * w0 + w0"
    using scanExpansionsLoop_ok [OF ok(2) le, of v] unfolding w0_def w1_def by blast
  note bc = bucket_at_cursor [OF ok(1), where v = v]
  have ents: "set (dict_entries d) = set (concat (ht_table t0)) \<union> set (concat (ht_table t1))"
    by (auto simp: dict_entries_def t0_def t1_def)
  have run: "dictScan d v = Inr (d, ?c @ es, v')"
  proof -
    have "dictSize d \<noteq> 0" using dictSize_entries [OF assms(1)] assms(3) by simp
    moreover have p: "ht0 (dictPauseRehashing d) = ht0 d" "ht1 (dictPauseRehashing d) = ht1 d"
      "dictIsRehashing (dictPauseRehashing d) = dictIsRehashing d"
      by (simp_all add: dictPauseRehashing_def dictIsRehashing_def)
    have "(if DICTHT_SIZE (ht_size_exp (ht0 d)) > DICTHT_SIZE (ht_size_exp (ht1 d)) then (ht1 d, ht0 d) else (ht0 d, ht1 d)) = (t0, t1)"
      by (simp add: t0_def t1_def)
    with calculation show ?thesis using True pause_resume [OF assms(2)] unfolding dictScan_def Let_def p
      by (simp only: if_False if_True not_True_eq_False prod.case bc(1,2) ex(1) res_bind_simps)
  qed
  have "e \<in> set (?c @ es)" if "e \<in> set (dict_entries d)" "place v \<le> place_of ty e" "v' = 0 \<or> place_of ty e < place v'" for e
  proof -
    have hi: "place_of ty e < place v div w0 * w0 + w0"
      using that(3) ex(4) place_less [of "hashFunction ty (entry_key ty e)"] by (auto simp: place_of_def)
    show ?thesis
    proof (cases "e \<in> set (concat (ht_table t0))")
      case True
      moreover have "place v div w0 * w0 \<le> place_of ty e" using floor_le that(2) by (rule le_trans)
      ultimately have "e \<in> set ?c"
        using bc(3) [of e] hi same_floor [OF w, of "place_of ty e" "place v"] unfolding w0_def by blast
      then show ?thesis by simp
    next
      case False
      then have "e \<in> set (concat (ht_table t1))" using that(1) ents by blast
      moreover have "place v div w1 * w1 \<le> place_of ty e" using floor_le that(2) by (rule le_trans)
      ultimately have "e \<in> set es" using ex(3) hi by blast
      then show ?thesis by simp
    qed
  qed
  moreover have "set (?c @ es) \<subseteq> set (dict_entries d)"
    using ht_ok_bucket [OF ok(1), of v] ex(2) by (auto simp: ents in_concat_nth simp del: set_concat)
  moreover have "2 ^ (64 - nat (ht_size_exp (ht0 d))) dvd w0"
    using le ht_ok_exp [OF oks(1)] ht_ok_exp [OF oks(2)]
    by (auto simp: w0_def t0_def DICTHT_SIZE_def intro!: le_imp_power_dvd)
  then have "v' \<noteq> 0 \<longrightarrow> place v < place v' \<and> 2 ^ (64 - nat (ht_size_exp (ht0 d))) dvd place v'"
    using ex(4) floor_gt [OF w, of "place v"] by auto
  ultimately show ?thesis using run by blast
qed

lemmas dictScan_ok = dictScan_one dictScan_two

section \<open>A sequence of calls\<close>

text \<open>
  A scan: each call finds the dict in the state the calls in between left it in, and gets the cursor of the
  call before. The result tells whether the cursor came back to 0.
\<close>

fun scan_run :: "('s, 'v) dict list \<Rightarrow> u64 \<Rightarrow> (('s, 'v) dictEntry list \<times> bool) result" where
  "scan_run [] v = Inr ([], False)"
| "scan_run (d # ds) v =
     res_bind (dictScan d v) (\<lambda>(_, es, v').
     if v' = 0 then Inr (es, True)
     else res_bind (scan_run ds v') (\<lambda>(es', fin). Inr (es @ es', fin)))"

lemma scan_run_covers:
  assumes "\<forall>d\<in>set ds. dict_inv ty d \<and> pauserehash d < 2 ^ 32 - 1 \<and>
      (\<exists>e\<in>set (dict_entries d). entry_key ty e = k)"
    and "place v \<le> place (hashFunction ty k)" "scan_run ds v = Inr (es, True)"
  shows "\<exists>e\<in>set es. entry_key ty e = k"
  using assms
proof (induction ds arbitrary: v es)
  case (Cons d ds)
  obtain e where e: "e \<in> set (dict_entries d)" "entry_key ty e = k" using Cons.prems(1) by auto
  have d: "dict_inv ty d" "pauserehash d < 2 ^ 32 - 1" "dict_entries d \<noteq> []" using Cons.prems(1) e by auto
  obtain es1 v1 where s: "dictScan d v = Inr (d, es1, v1)"
    "\<forall>e\<in>set (dict_entries d). place v \<le> place_of ty e \<and> (v1 = 0 \<or> place_of ty e < place v1) \<longrightarrow> e \<in> set es1"
    using dictScan_ok [OF d] by blast
  show ?case
  proof (cases "v1 = 0 \<or> place (hashFunction ty k) < place v1")
    case True
    then have "e \<in> set es1" using s(2) e Cons.prems(2) by (auto simp: place_of_def)
    then show ?thesis using e(2) Cons.prems(3) s(1) by (auto split: if_splits)
  next
    case False
    then obtain es2 where "scan_run ds v1 = Inr (es2, True)" "es = es1 @ es2"
      using Cons.prems(3) s(1) by auto
    then show ?thesis using Cons.IH [of v1 es2] Cons.prems(1) False by auto
  qed
qed simp

text \<open>
  However the table is resized in between, the scan ends after at most as many calls as the largest
  table had buckets.
\<close>

lemma dictScan_empty: "dict_inv ty d \<Longrightarrow> dict_entries d = [] \<Longrightarrow> dictScan d v = Inr (d, [], 0)"
  using dictSize_entries [of ty d] by (simp add: dictScan_def)

lemma scan_run_ends:
  assumes "\<forall>d\<in>set ds. dict_inv ty d \<and> pauserehash d < 2 ^ 32 - 1 \<and> nat (ht_size_exp (ht0 d)) \<le> E"
    and "E \<le> 63" "2 ^ (64 - E) dvd place v" "2 ^ 64 \<le> place v + length ds * 2 ^ (64 - E)"
  shows "\<exists>es. scan_run ds v = Inr (es, True)"
  using assms
proof (induction ds arbitrary: v)
  case Nil
  then show ?case using place_less [of v] by simp
next
  case (Cons d ds)
  have d: "dict_inv ty d" "pauserehash d < 2 ^ 32 - 1" "nat (ht_size_exp (ht0 d)) \<le> E" using Cons.prems(1) by auto
  show ?case
  proof (cases "dict_entries d = []")
    case True
    then show ?thesis using dictScan_empty [OF d(1), of v] by auto
  next
    case False
    then obtain es1 v1 where s: "dictScan d v = Inr (d, es1, v1)"
      "v1 \<noteq> 0 \<longrightarrow> place v < place v1 \<and> 2 ^ (64 - nat (ht_size_exp (ht0 d))) dvd place v1"
      using dictScan_ok [OF d(1,2)] by blast
    show ?thesis
    proof (cases "v1 = 0")
      case True
      then show ?thesis using s(1) by auto
    next
      case v1: False
      have "(2 :: nat) ^ (64 - E) dvd 2 ^ (64 - nat (ht_size_exp (ht0 d)))" using d(3) by (intro le_imp_power_dvd) simp
      then have dv: "2 ^ (64 - E) dvd place v1" using s(2) v1 dvd_trans by blast
      then have "place v + 2 ^ (64 - E) \<le> place v1"
        using s(2) v1 floor_next [OF _ dv, of "place v"] Cons.prems(3) by simp
      then have "\<exists>es. scan_run ds v1 = Inr (es, True)"
        using Cons.IH [of v1] Cons.prems dv by simp
      then show ?thesis using s(1) v1 by auto
    qed
  qed
qed

text \<open>Without changes in between, the calls visit the buckets in the order of their places.\<close>

definition cursor_at :: "nat \<Rightarrow> nat \<Rightarrow> u64" where
  "cursor_at e i = rev_ul (of_nat (i * 2 ^ (64 - e)))"

lemma place_cursor_at:
  assumes "e \<le> 63" "i < 2 ^ e"
  shows "place (cursor_at e i) = i * 2 ^ (64 - e)"
proof -
  have "i * 2 ^ (64 - e) < 2 ^ e * 2 ^ (64 - e)" using assms(2) by simp
  also have "\<dots> = (2 :: nat) ^ 64" using assms(1) by (simp flip: power_add)
  finally have "unat (of_nat (i * 2 ^ (64 - e)) :: u64) = i * 2 ^ (64 - e)"
    by (simp add: unat_of_nat del: of_nat_mult)
  then show ?thesis by (simp add: place_def cursor_at_def del: of_nat_mult)
qed

lemma place_inj: "place v = place w \<Longrightarrow> v = w"
  by (metis place_def rev_rev_ul word_unat_eq_iff)

lemma cursor_at_next:
  assumes "0 \<le> e" "e \<le> 63" "i < 2 ^ nat e"
  shows "next_cursor (cursor_at (nat e) i) (DICTHT_SIZE_MASK e) =
    (if Suc i = 2 ^ nat e then 0 else cursor_at (nat e) (Suc i))"
proof -
  let ?w = "2 ^ (64 - nat e) :: nat"
  have top: "2 ^ nat e * ?w = (2 :: nat) ^ 64" using assms(2) by (simp flip: power_add)
  have pl: "place (cursor_at (nat e) i) div ?w * ?w + ?w = Suc i * ?w"
    using place_cursor_at [of "nat e" i] assms by (simp add: algebra_simps)
  note nx = next_cursor_place [OF assms(1,2), of "cursor_at (nat e) i", unfolded pl]
  show ?thesis
  proof (cases "Suc i = 2 ^ nat e")
    case True
    then have "Suc i * ?w = 2 ^ 64" using top by simp
    then show ?thesis using True nx place_less by (metis less_irrefl)
  next
    case False
    then have i: "Suc i < 2 ^ nat e" using assms(3) by simp
    then have "Suc i * ?w < 2 ^ 64" unfolding top [symmetric] by (intro mult_less_mono1) simp_all
    then have "place (next_cursor (cursor_at (nat e) i) (DICTHT_SIZE_MASK e)) = place (cursor_at (nat e) (Suc i))"
      using nx place_cursor_at [OF _ i] assms by auto
    then show ?thesis using False place_inj by simp
  qed
qed

lemma scan_run_still:
  assumes "dict_inv ty d" "pauserehash d < 2 ^ 32 - 1" "dict_entries d \<noteq> []" "\<not> dictIsRehashing d"
    and "e = ht_size_exp (ht0 d)" "n \<le> 2 ^ nat e" "0 < n"
  shows "scan_run (replicate n d) (cursor_at (nat e) (2 ^ nat e - n)) =
    Inr (concat (map (\<lambda>i. ht_table (ht0 d) ! dictBucket (cursor_at (nat e) i) e) [2 ^ nat e - n..<2 ^ nat e]), True)"
  using assms(6,7)
proof (induction n)
  case (Suc n)
  let ?i = "2 ^ nat e - Suc n"
  have ok: "ht_ok ty (ht0 d)" by (rule dictScan_one_run(1) [OF assms(1-4)])
  have i: "?i < 2 ^ nat e" "Suc ?i = 2 ^ nat e - n" using Suc.prems by simp_all
  have up: "[?i..<2 ^ nat e] = ?i # [2 ^ nat e - n..<2 ^ nat e]" using i upt_conv_Cons [OF i(1)] by simp
  have nx: "next_cursor (cursor_at (nat e) ?i) (DICTHT_SIZE_MASK e) =
    (if n = 0 then 0 else cursor_at (nat e) (2 ^ nat e - n))"
    using cursor_at_next [of e ?i] ht_ok_exp [OF ok] assms(5) i Suc.prems by auto
  have nz: "cursor_at (nat e) (2 ^ nat e - n) \<noteq> 0" if "n \<noteq> 0"
    using place_cursor_at [of "nat e" "2 ^ nat e - n"] that Suc.prems ht_ok_exp [OF ok] assms(5)
    by (auto simp: place_eq_0 [symmetric])
  note sc = dictScan_one_run(2) [OF assms(1-4), of "cursor_at (nat e) ?i", folded assms(5)]
  show ?case unfolding up
    using sc nx nz Suc.IH Suc.prems by (cases "n = 0") simp_all
qed simp

lemma scan_order_bij:
  assumes "0 \<le> e" "e \<le> 63"
  shows "bij_betw (\<lambda>i. dictBucket (cursor_at (nat e) i) e) {0..<2 ^ nat e} {0..<2 ^ nat e}"
proof -
  have "inj_on (\<lambda>i. dictBucket (cursor_at (nat e) i) e) {0..<2 ^ nat e}"
    using assms by (auto simp: inj_on_def same_bucket place_cursor_at)
  moreover have "(\<lambda>i. dictBucket (cursor_at (nat e) i) e) ` {0..<2 ^ nat e} \<subseteq> {0..<2 ^ nat e}"
    using dictBucket_less [OF assms] by auto
  ultimately show ?thesis unfolding bij_betw_def by (intro conjI endo_inj_surj) auto
qed

lemma mset_concat_reorder:
  assumes "bij_betw f {0..<length t} {0..<length t}"
  shows "mset (concat (map (\<lambda>i. t ! f i) [0..<length t])) = mset (concat t)"
proof -
  have "mset (concat (map (\<lambda>i. t ! f i) [0..<length t])) = (\<Sum>i\<in>{0..<length t}. mset (t ! f i))"
    by (simp add: mset_concat comp_def interv_sum_list_conv_sum_set_nat)
  also have "\<dots> = (\<Sum>i\<in>{0..<length t}. mset (t ! i))"
    using sum.reindex_bij_betw [OF assms, of "\<lambda>i. mset (t ! i)"] by simp
  also have "\<dots> = mset (concat (map (\<lambda>i. t ! i) [0..<length t]))"
    by (simp add: mset_concat comp_def interv_sum_list_conv_sum_set_nat del: map_nth)
  finally show ?thesis by (simp add: map_nth)
qed

section \<open>Iterators\<close>

text \<open>
  \<^verbatim>\<open>entry\<close> and \<^verbatim>\<open>nextEntry\<close> point into a chain: they are the rest of the chain from there on, empty for
  NULL. The addresses of the two tables go into the fingerprint and are parameters.
\<close>

record ('s, 'v) dictIterator =
  it_index :: int
  it_table :: nat
  it_safe :: bool
  it_entry :: "('s, 'v) dictEntry list"
  it_nextEntry :: "('s, 'v) dictEntry list"
  it_fingerprint :: u64

definition fingerprint_round :: "u64 \<Rightarrow> u64 \<Rightarrow> u64" where
  "fingerprint_round hash i =
     (let hash = hash + i;
          hash = NOT hash + push_bit 21 hash;
          hash = hash XOR drop_bit 24 hash;
          hash = (hash + push_bit 3 hash) + push_bit 8 hash;
          hash = hash XOR drop_bit 14 hash;
          hash = (hash + push_bit 2 hash) + push_bit 4 hash;
          hash = hash XOR drop_bit 28 hash
      in hash + push_bit 31 hash)"

definition dictFingerprint :: "u64 \<Rightarrow> u64 \<Rightarrow> ('s, 'v) dict \<Rightarrow> u64" where
  "dictFingerprint addr0 addr1 d =
     foldl fingerprint_round 0
       [addr0, word_of_int (ht_size_exp (ht0 d)), of_nat (ht_used (ht0 d)),
        addr1, word_of_int (ht_size_exp (ht1 d)), of_nat (ht_used (ht1 d))]"

definition dictInitIterator :: "('s, 'v) dictIterator" where
  "dictInitIterator =
     \<lparr>it_index = -1, it_table = 0, it_safe = False, it_entry = [], it_nextEntry = [], it_fingerprint = 0\<rparr>"

definition dictInitSafeIterator :: "('s, 'v) dictIterator" where
  "dictInitSafeIterator = dictInitIterator\<lparr>it_safe := True\<rparr>"

definition dictResetIterator :: "(('s, 'v) dict \<Rightarrow> u64) \<Rightarrow> ('s, 'v) dictIterator \<Rightarrow> ('s, 'v) dict \<Rightarrow> ('s, 'v) dict result" where
  "dictResetIterator fingerprint it d =
     (if \<not> (it_index it = -1 \<and> it_table it = 0) then
        if it_safe it then Inr (dictResumeRehashing d)
        else res_bind (res_assert (it_fingerprint it = fingerprint d)) (\<lambda>_. Inr d)
      else Inr d)"

text \<open>The first visit: pause rehashing or take the fingerprint, and skip the buckets already rehashed.\<close>

definition iterStart ::
  "(('s, 'v) dict \<Rightarrow> u64) \<Rightarrow> ('s, 'v) dictIterator \<Rightarrow> ('s, 'v) dict \<Rightarrow> ('s, 'v) dictIterator \<times> ('s, 'v) dict" where
  "iterStart fingerprint it d =
     (if it_index it = -1 \<and> it_table it = 0 then
        let (it, d) = (if it_safe it then (it, dictPauseRehashing d)
                       else (it\<lparr>it_fingerprint := fingerprint d\<rparr>, d));
            it = (if dictIsRehashing d then it\<lparr>it_index := rehashidx d - 1\<rparr> else it)
        in (it, d)
      else (it, d))"

function dictNext ::
  "(('s, 'v) dict \<Rightarrow> u64) \<Rightarrow> ('s, 'v) dictIterator \<Rightarrow> ('s, 'v) dict \<Rightarrow>
   (('s, 'v) dictIterator \<times> ('s, 'v) dict \<times> ('s, 'v) dictEntry option) result" where
  "dictNext fingerprint it d =
     (if it_entry it = [] then
        let (it0, d0) = iterStart fingerprint it d;
            idx = it_index it0 + 1;
            t = it_table it0;
            over = idx \<ge> int (DICTHT_SIZE (ht_size_exp (dict_ht d0 t)));
            t' = (if over then t + 1 else t); idx' = (if over then 0 else idx)
        in
        if over \<and> \<not> (dictIsRehashing d0 \<and> t = 0) then Inr (it0\<lparr>it_index := idx\<rparr>, d0, None)
        else
          res_bind (rd (ht_table (dict_ht d0 t')) idx') (\<lambda>chain.
          let it1 = it0\<lparr>it_index := idx', it_table := t', it_entry := chain\<rparr> in
          case chain of
            de # rest \<Rightarrow> Inr (it1\<lparr>it_nextEntry := dictGetNext de rest\<rparr>, d0, Some de)
          | [] \<Rightarrow> dictNext fingerprint it1 d0)
      else
        let it1 = it\<lparr>it_entry := it_nextEntry it\<rparr> in
        case it_nextEntry it of
          de # rest \<Rightarrow> Inr (it1\<lparr>it_nextEntry := dictGetNext de rest\<rparr>, d, Some de)
        | [] \<Rightarrow> dictNext fingerprint it1 d)"
  by auto
termination
proof (relation "measures
    [\<lambda>(f, it, d). 2 - it_table it, \<lambda>(f, it, d). nat (int (length (ht_table (dict_ht d (it_table it)))) - it_index it),
     \<lambda>(f, it, d). if it_entry it = [] then 0 else 1]", goal_cases)
  case 1
  then show ?case by simp
next
  case (2 f it d p it0 d0 idx t over t' idx' chain it1)
  have tb: "ht_table (dict_ht d0 j) = ht_table (dict_ht d j)" "it_table it0 = it_table it"
    "it_index it0 = it_index it \<or> it_index it = -1 \<and> it_table it = 0" for j
    using 2(2,3) by (auto simp: iterStart_def Let_def dict_ht_def dictPauseRehashing_def split: if_splits)
  have rng: "0 \<le> idx'" "idx' < int (length (ht_table (dict_ht d0 t')))"
    using 2(10) by (auto simp: rd_def split: if_splits)
  show ?case
  proof (cases over)
    case True
    then show ?thesis using 2 tb by auto
  next
    case False
    then have "it_index it < idx'" using 2 tb(3) rng by auto
    then show ?thesis using False 2 tb rng by auto
  qed
next
  case (3 f it d it1)
  then show ?case by auto
qed

declare dictNext.simps [simp del]

text \<open>The entries from bucket \<open>i\<close> of a table on, and what an iterator has still to return.\<close>

definition from_bucket :: "('s, 'v) dict \<Rightarrow> nat \<Rightarrow> int \<Rightarrow> ('s, 'v) dictEntry list" where
  "from_bucket d t i = concat (drop (nat i) (ht_table (dict_ht d t))) @
     (if t = 0 \<and> dictIsRehashing d then concat (ht_table (ht1 d)) else [])"

definition iter_fresh :: "('s, 'v) dictIterator \<Rightarrow> bool" where
  "iter_fresh it \<longleftrightarrow> it_index it = -1 \<and> it_table it = 0"

definition iter_rest :: "('s, 'v) dictIterator \<Rightarrow> ('s, 'v) dict \<Rightarrow> ('s, 'v) dictEntry list" where
  "iter_rest it d =
     (if iter_fresh it then from_bucket d 0 (if dictIsRehashing d then rehashidx d else 0)
      else (if it_entry it = [] then [] else it_nextEntry it) @ from_bucket d (it_table it) (it_index it + 1))"

definition iter_ok :: "('s, 'k, 'v) dictType \<Rightarrow> ('s, 'v) dictIterator \<Rightarrow> ('s, 'v) dict \<Rightarrow> bool" where
  "iter_ok ty it d \<longleftrightarrow> it_table it \<le> 1 \<and> (it_table it = 1 \<longrightarrow> dictIsRehashing d) \<and> -1 \<le> it_index it \<and>
     chain_ok ty (it_nextEntry it) \<and> (iter_fresh it \<longrightarrow> it_entry it = [])"

lemma from_bucket_step:
  "0 \<le> i \<Longrightarrow> i < int (length (ht_table (dict_ht d t))) \<Longrightarrow>
   from_bucket d t i = ht_table (dict_ht d t) ! nat i @ from_bucket d t (i + 1)"
  by (simp add: from_bucket_def nat_add_distrib Cons_nth_drop_Suc [symmetric])

lemma from_bucket_over:
  "int (length (ht_table (dict_ht d t))) \<le> i \<Longrightarrow>
   from_bucket d t i = (if t = 0 \<and> dictIsRehashing d then from_bucket d 1 0 else [])"
  by (auto simp: from_bucket_def dict_ht_def)

text \<open>What the first visit changes.\<close>

definition iter_dict :: "('s, 'v) dictIterator \<Rightarrow> ('s, 'v) dict \<Rightarrow> ('s, 'v) dict" where
  "iter_dict it d = (if iter_fresh it \<and> it_safe it then dictPauseRehashing d else d)"

lemma pause_same [simp]:
  "dict_ht (dictPauseRehashing d) t = dict_ht d t" "dictIsRehashing (dictPauseRehashing d) = dictIsRehashing d"
  "rehashidx (dictPauseRehashing d) = rehashidx d" "ht1 (dictPauseRehashing d) = ht1 d" "ht0 (dictPauseRehashing d) = ht0 d"
  by (simp_all add: dictPauseRehashing_def dict_ht_def dictIsRehashing_def)

lemma pause_inv: "dict_inv ty (dictPauseRehashing d) = dict_inv ty d"
  by (simp add: dict_inv_def rehash_inv_def dictIsRehashing_def dictPauseRehashing_def)

lemma iter_dict_same [simp]:
  "dict_ht (iter_dict it d) t = dict_ht d t" "dictIsRehashing (iter_dict it d) = dictIsRehashing d"
  "from_bucket (iter_dict it d) t i = from_bucket d t i" "dict_inv ty (iter_dict it d) = dict_inv ty d"
  by (simp_all add: iter_dict_def from_bucket_def pause_inv)

lemma dict_ht_bounds:
  assumes "dict_inv ty d" "t \<le> 1" "t = 1 \<longrightarrow> dictIsRehashing d"
  shows "DICTHT_SIZE (ht_size_exp (dict_ht d t)) = length (ht_table (dict_ht d t))"
    and "i < length (ht_table (dict_ht d t)) \<Longrightarrow> chain_ok ty (ht_table (dict_ht d t) ! i)"
proof -
  have "ht_ok ty (dict_ht d t) \<or> dict_ht d t = dictht_null"
    using assms by (auto simp: dict_inv_def rehash_inv_def dict_ht_def split: if_splits)
  then show "DICTHT_SIZE (ht_size_exp (dict_ht d t)) = length (ht_table (dict_ht d t))"
    "i < length (ht_table (dict_ht d t)) \<Longrightarrow> chain_ok ty (ht_table (dict_ht d t) ! i)"
    by (auto simp: ht_ok_size) (auto simp: ht_ok_def dictht_null_def DICTHT_SIZE_def)
qed

lemma from_bucket_move:
  assumes "dict_inv ty d" "t \<le> 1" "t = 1 \<longrightarrow> dictIsRehashing d" "0 \<le> idx"
    and "\<not> (int (length (ht_table (dict_ht d t))) \<le> idx \<and> \<not> (dictIsRehashing d \<and> t = 0))"
  defines "t' \<equiv> if int (length (ht_table (dict_ht d t))) \<le> idx then t + 1 else t"
    and "idx' \<equiv> if int (length (ht_table (dict_ht d t))) \<le> idx then 0 else idx"
  shows "t' \<le> 1" "t' = 1 \<longrightarrow> dictIsRehashing d" "0 \<le> idx'" "idx' < int (length (ht_table (dict_ht d t')))"
    "from_bucket d t idx = from_bucket d t' idx'"
proof -
  have "dictIsRehashing d \<Longrightarrow> 0 < length (ht_table (dict_ht d 1))"
    using dict_inv_ht1 [OF assms(1)] ht_ok_bucket [of ty "ht1 d" 0] by (force simp: dict_ht_def)
  then show "t' \<le> 1" "t' = 1 \<longrightarrow> dictIsRehashing d" "0 \<le> idx'" "idx' < int (length (ht_table (dict_ht d t')))"
    "from_bucket d t idx = from_bucket d t' idx'"
    using assms(2-5) from_bucket_over [of d t idx] unfolding t'_def idx'_def by (auto split: if_splits)
qed

lemma iterStart_ok:
  assumes "iter_ok ty it d" "dict_inv ty d" "iterStart fp it d = (it0, d0)"
  shows "d0 = iter_dict it d" "it_table it0 = it_table it" "it_safe it0 = it_safe it" "it_entry it0 = it_entry it"
    "it_nextEntry it0 = it_nextEntry it" "-1 \<le> it_index it0"
    "it_fingerprint it0 = (if iter_fresh it \<and> \<not> it_safe it then fp d else it_fingerprint it)"
    "it_entry it = [] \<Longrightarrow> iter_rest it d = from_bucket d (it_table it) (it_index it0 + 1)"
  using assms dict_inv_bound [of ty d]
  by (auto simp: iterStart_def iter_dict_def iter_fresh_def iter_rest_def iter_ok_def Let_def
      split: if_splits)

text \<open>The state of an iterator after a call, relative to the one before.\<close>

definition iter_next_ok ::
  "('s, 'k, 'v) dictType \<Rightarrow> (('s, 'v) dict \<Rightarrow> u64) \<Rightarrow> ('s, 'v) dictIterator \<Rightarrow> ('s, 'v) dict \<Rightarrow>
   (('s, 'v) dictIterator \<times> ('s, 'v) dict \<times> ('s, 'v) dictEntry option) \<Rightarrow> bool" where
  "iter_next_ok ty fp it d r \<longleftrightarrow>
     (case r of (it', d', e) \<Rightarrow>
        iter_ok ty it' d' \<and> d' = iter_dict it d \<and> \<not> iter_fresh it' \<and> it_safe it' = it_safe it \<and>
        it_fingerprint it' = (if iter_fresh it \<and> \<not> it_safe it then fp d else it_fingerprint it) \<and>
        (case e of None \<Rightarrow> iter_rest it d = [] | Some de \<Rightarrow> iter_rest it d = de # iter_rest it' d'))"

lemma iter_next_ok_cong:
  assumes "iter_rest it1 d1 = iter_rest it d" "iter_dict it1 d1 = iter_dict it d" "it_safe it1 = it_safe it"
    "(if iter_fresh it1 \<and> \<not> it_safe it1 then fp d1 else it_fingerprint it1) =
     (if iter_fresh it \<and> \<not> it_safe it then fp d else it_fingerprint it)"
  shows "iter_next_ok ty fp it1 d1 r = iter_next_ok ty fp it d r"
  using assms by (cases r) (simp only: iter_next_ok_def prod.case)

lemma chain_ok_next: "chain_ok ty (de # rest) \<Longrightarrow> dictGetNext de rest = rest \<and> chain_ok ty rest"
  using chain_ok_Cons_key [of ty de rest] chain_ok_tl [of ty de rest] by (auto simp: dictGetNext_def)

lemma dictNext_ok:
  assumes "dict_inv ty d" "iter_ok ty it d"
  shows "\<exists>r. dictNext fp it d = Inr r \<and> iter_next_ok ty fp it d r"
  using assms
proof (induction fp it d rule: dictNext.induct)
  case (1 fp it d)
  note unf = dictNext.simps [of fp it d]
  show ?case
  proof (cases "it_entry it = []")
    case False
    then have nf: "\<not> iter_fresh it" using 1(4) by (auto simp: iter_ok_def)
    show ?thesis
    proof (cases "it_nextEntry it")
      case Nil
      let ?it = "it\<lparr>it_entry := []\<rparr>"
      have ok: "iter_ok ty ?it d" "\<not> iter_fresh ?it" using 1(4) nf Nil by (auto simp: iter_ok_def iter_fresh_def)
      have "iter_rest ?it d = iter_rest it d" using nf Nil by (auto simp: iter_rest_def iter_fresh_def)
      then have "iter_next_ok ty fp ?it d r = iter_next_ok ty fp it d r" for r
        using nf ok(2) by (intro iter_next_ok_cong) (simp_all add: iter_dict_def)
      then show ?thesis using 1(2) [OF False _ Nil 1(3)] ok False Nil unf by simp
    next
      case (Cons de rest)
      then have c: "chain_ok ty (de # rest)" using 1(4) by (simp add: iter_ok_def)
      show ?thesis using unf False Cons nf 1(4) chain_ok_next [OF c]
        by (auto simp: iter_next_ok_def iter_ok_def iter_fresh_def iter_rest_def iter_dict_def Let_def)
    qed
  next
    case True
    obtain it0 d0 where st: "iterStart fp it d = (it0, d0)" by fastforce
    note s = iterStart_ok [OF 1(4,3) st]
    have tt: "it_table it \<le> 1" "it_table it = 1 \<longrightarrow> dictIsRehashing d" using 1(4) by (simp_all add: iter_ok_def)
    define idx t where "idx = it_index it0 + 1" and "t = it_table it0"
    define over where "over \<longleftrightarrow> idx \<ge> int (DICTHT_SIZE (ht_size_exp (dict_ht d0 t)))"
    define t' idx' where "t' = (if over then t + 1 else t)" and "idx' = (if over then 0 else idx)"
    have t: "t = it_table it" using s(2) by (simp add: t_def)
    have i0: "0 \<le> idx" using s(6) by (simp add: idx_def)
    have rest: "iter_rest it d = from_bucket d t idx" using s(8) [OF True] s(2) by (simp add: t_def idx_def)
    have over: "over \<longleftrightarrow> idx \<ge> int (length (ht_table (dict_ht d t)))"
      using dict_ht_bounds(1) [OF 1(3) tt] s(1,2) by (simp add: over_def t_def)
    let ?it1 = "\<lambda>c. it0\<lparr>it_index := idx', it_table := t', it_entry := c\<rparr>"
    have run: "dictNext fp it d =
      (if over \<and> \<not> (dictIsRehashing d0 \<and> t = 0) then Inr (it0\<lparr>it_index := idx\<rparr>, d0, None)
       else res_bind (rd (ht_table (dict_ht d0 t')) idx') (\<lambda>chain.
         case chain of de # rest \<Rightarrow> Inr ((?it1 chain)\<lparr>it_nextEntry := dictGetNext de rest\<rparr>, d0, Some de)
         | [] \<Rightarrow> dictNext fp (?it1 chain) d0))"
      unfolding idx'_def t'_def over_def idx_def t_def
      by (subst unf [unfolded Let_def]) (simp only: True simp_thms if_True st prod.case)
    have h: "dict_ht d0 j = dict_ht d j" "dictIsRehashing d0 = dictIsRehashing d" for j using s(1) by simp_all
    show ?thesis
    proof (cases "over \<and> \<not> (dictIsRehashing d \<and> t = 0)")
      case fin: True
      then have "iter_rest it d = []" using rest from_bucket_over [of d t idx] by (auto simp: over)
      moreover have "dictNext fp it d = Inr (it0\<lparr>it_index := idx\<rparr>, d0, None)" using run fin h by simp
      moreover have "iter_ok ty (it0\<lparr>it_index := idx\<rparr>) d0" "\<not> iter_fresh (it0\<lparr>it_index := idx\<rparr>)"
        using i0 1(4) s(2,4,5) h by (simp_all add: iter_ok_def iter_fresh_def)
      ultimately show ?thesis using s(1,3,7) by (simp add: iter_next_ok_def)
    next
      case more: False
      have ex: "\<not> (int (length (ht_table (dict_ht d t))) \<le> idx \<and> \<not> (dictIsRehashing d \<and> t = 0))"
        using more unfolding over .
      note mv = from_bucket_move [OF 1(3) tt [folded t] i0 ex, folded over, folded t'_def idx'_def]
      have t': "t' \<le> 1" "t' = 1 \<longrightarrow> dictIsRehashing d" and rng: "0 \<le> idx'" "idx' < int (length (ht_table (dict_ht d t')))"
        and rest': "iter_rest it d = from_bucket d t' idx'"
        using mv rest by simp_all
      let ?c = "ht_table (dict_ht d t') ! nat idx'"
      have c: "chain_ok ty ?c" using dict_ht_bounds(2) [OF 1(3) t'] rng by simp
      have rest2: "iter_rest it d = ?c @ from_bucket d t' (idx' + 1)" using rest' from_bucket_step [OF rng] by simp
      have nf: "\<not> iter_fresh (?it1 x)" "\<not> iter_fresh ((?it1 x)\<lparr>it_nextEntry := y\<rparr>)" for x y
        using rng by (simp_all add: iter_fresh_def)
      show ?thesis
      proof (cases ?c)
        case Nil
        have ok: "iter_ok ty (?it1 []) d0" using t' rng 1(4) s(5) h by (simp add: iter_ok_def)
        have same: "iter_rest (?it1 []) d0 = iter_rest it d" "iter_dict (?it1 []) d0 = iter_dict it d"
          using nf(1) [of "[]"] rest2 Nil s(1) by (simp_all add: iter_rest_def iter_dict_def [of "?it1 []"])
        have "iter_next_ok ty fp (?it1 []) d0 r = iter_next_ok ty fp it d r" for r
          by (rule iter_next_ok_cong [OF same]) (use nf(1) [of "[]"] s(3,7) in simp_all)
        moreover have "\<exists>r. dictNext fp (?it1 []) d0 = Inr r \<and> iter_next_ok ty fp (?it1 []) d0 r"
        proof (rule 1(1) [OF True st [symmetric] refl refl refl refl refl, folded idx_def t_def, folded over_def, folded t'_def idx'_def])
        qed (use more h Nil rng ok 1(3) s(1) in \<open>auto simp: rd_ok\<close>)
        moreover have "dictNext fp it d = dictNext fp (?it1 []) d0" using run more Nil rng h by (auto simp: rd_ok)
        ultimately show ?thesis by simp
      next
        case (Cons de rest)
        let ?it' = "(?it1 ?c)\<lparr>it_nextEntry := rest\<rparr>"
        have g: "dictGetNext de rest = rest" "chain_ok ty rest" using chain_ok_next [of ty de rest] c Cons by simp_all
        have "dictNext fp it d = Inr (?it', d0, Some de)" using run more rng h Cons g by (auto simp: rd_ok)
        moreover have "iter_ok ty ?it' d0" using t' rng g nf(2) h by (simp add: iter_ok_def)
        moreover have "iter_rest it d = de # iter_rest ?it' d0"
          using rest2 nf(2) [of rest ?c] Cons s(1) by (simp add: iter_rest_def)
        ultimately show ?thesis using nf(2) s(1,3,7) by (simp add: iter_next_ok_def)
      qed
    qed
  qed
qed

text \<open>A client's loop over an iterator, until \<^verbatim>\<open>dictNext\<close> returns NULL.\<close>

fun iter_run ::
  "nat \<Rightarrow> (('s, 'v) dict \<Rightarrow> u64) \<Rightarrow> ('s, 'v) dictIterator \<Rightarrow> ('s, 'v) dict \<Rightarrow>
   (('s, 'v) dictIterator \<times> ('s, 'v) dict \<times> ('s, 'v) dictEntry list) result" where
  "iter_run 0 fp it d = Inl Diverges"
| "iter_run (Suc n) fp it d =
     res_bind (dictNext fp it d) (\<lambda>(it, d, e).
     case e of
       None \<Rightarrow> Inr (it, d, [])
     | Some de \<Rightarrow> res_bind (iter_run n fp it d) (\<lambda>(it, d, es). Inr (it, d, de # es)))"

lemma iter_run_ok:
  assumes "dict_inv ty d" "iter_ok ty it d" "length (iter_rest it d) < n"
  shows "\<exists>it'. iter_run n fp it d = Inr (it', iter_dict it d, iter_rest it d) \<and> \<not> iter_fresh it' \<and> it_safe it' = it_safe it \<and>
    it_fingerprint it' = (if iter_fresh it \<and> \<not> it_safe it then fp d else it_fingerprint it)"
  using assms
proof (induction n arbitrary: it d)
  case (Suc n)
  obtain it' e where s: "dictNext fp it d = Inr (it', iter_dict it d, e)"
    and ok: "iter_ok ty it' (iter_dict it d)" "\<not> iter_fresh it'" "it_safe it' = it_safe it"
    "it_fingerprint it' = (if iter_fresh it \<and> \<not> it_safe it then fp d else it_fingerprint it)"
    and e: "case e of None \<Rightarrow> iter_rest it d = [] | Some de \<Rightarrow> iter_rest it d = de # iter_rest it' (iter_dict it d)"
    using dictNext_ok [OF Suc.prems(1,2), of fp] by (auto simp: iter_next_ok_def)
  show ?case
  proof (cases e)
    case None
    then show ?thesis using s ok e by simp
  next
    case (Some de)
    have "iter_dict it' (iter_dict it d) = iter_dict it d" using ok(2) by (simp add: iter_dict_def [of it'])
    then show ?thesis using Suc.IH [of "iter_dict it d" it'] Suc.prems(1,3) s ok e Some by auto
  qed
qed simp

lemma iter_fresh_rest:
  assumes "dict_inv ty d" "iter_fresh it"
  shows "iter_rest it d = dict_entries d"
proof (cases "dictIsRehashing d")
  case True
  have r: "rehash_inv ty d" using dict_inv_rehashing [OF assms(1) True] .
  have "concat (take (nat (rehashidx d)) (ht_table (ht0 d))) = []"
    using r by (auto simp: rehash_inv_def in_set_conv_nth)
  then have "concat (ht_table (ht0 d)) = concat (drop (nat (rehashidx d)) (ht_table (ht0 d)))"
    by (metis append_Nil append_take_drop_id concat_append)
  then show ?thesis using True assms(2) by (simp add: iter_rest_def from_bucket_def dict_entries_def dict_ht_def)
next
  case False
  then show ?thesis using assms
    by (simp add: iter_rest_def from_bucket_def dict_entries_def dict_ht_def dict_inv_def dictht_null_def)
qed

section \<open>Properties\<close>

text \<open>The same entry in a dict that is not being rehashed.\<close>

definition dict_still :: "(nat, nat) dict" where
  "dict_still = dict_example\<lparr>ht1 := dictht_null, rehashidx := -1\<rparr>"

lemma dict_still_inv: "dict_inv (nat_dict_type False) dict_still"
  using dict_example_inv by (auto simp: dict_inv_def rehash_inv_def dict_still_def dict_example_def dictIsRehashing_def)

text \<open>
  C3: The guarantee of SCAN. Let a scan start at cursor 0 and follow the returned cursors back to 0 while the
  dict goes through any sequence of states between the calls: growing, shrinking, in the middle of a
  rehash, entries coming and going. A key that was there at every call is returned.
\<close>

theorem dict_scan_guarantee:
  assumes "\<forall>d\<in>set ds. dict_inv ty d \<and> pauserehash d < 2 ^ 32 - 1 \<and>
      (\<exists>e\<in>set (dict_entries d). entry_key ty e = k)"
    and "scan_run ds 0 = Inr (es, True)"
  shows "\<exists>e\<in>set es. entry_key ty e = k"
  using scan_run_covers [of ds ty k 0 es] assms by simp

theorem dict_scan_guarantee_witness:
  "\<exists>es. scan_run (replicate 4 dict_example) 0 = Inr (es, True) \<and>
     (\<exists>e\<in>set es. entry_key (nat_dict_type False) e = 4)"
proof -
  have e: "\<forall>d\<in>set (replicate 4 dict_example). dict_inv (nat_dict_type False) d \<and> pauserehash d < 2 ^ 32 - 1 \<and>
      nat (ht_size_exp (ht0 d)) \<le> 2"
    "\<exists>e\<in>set (dict_entries dict_example). entry_key (nat_dict_type False) e = 4"
    using dict_example_inv by (simp_all add: dict_example_def dict_entries_def entry_key_def nat_dict_type_def)
  obtain es where "scan_run (replicate 4 dict_example) 0 = Inr (es, True)"
    using scan_run_ends [OF e(1), of 0] by auto
  moreover from this have "\<exists>e\<in>set es. entry_key (nat_dict_type False) e = 4"
    using e by (intro dict_scan_guarantee [of "replicate 4 dict_example"]) auto
  ultimately show ?thesis by blast
qed

text \<open>
  CN: A scan ends. Whatever the dict does between the calls, as long as its tables never have more than
  \<open>2 ^ E\<close> buckets the cursor is back at 0 after at most \<open>2 ^ E\<close> calls.
\<close>

theorem dict_scan_ends:
  assumes "\<forall>d\<in>set ds. dict_inv ty d \<and> pauserehash d < 2 ^ 32 - 1 \<and> nat (ht_size_exp (ht0 d)) \<le> E"
    and "E \<le> 63" "2 ^ E \<le> length ds"
  shows "\<exists>es. scan_run ds 0 = Inr (es, True)"
proof (rule scan_run_ends [OF assms(1,2)])
  have "(2 :: nat) ^ 64 = 2 ^ E * 2 ^ (64 - E)" using assms(2) by (simp flip: power_add)
  then show "2 ^ 64 \<le> place 0 + length ds * 2 ^ (64 - E)"
    using mult_le_mono1 [OF assms(3), of "2 ^ (64 - E)"] by simp
qed simp

theorem dict_scan_ends_witness:
  "\<exists>es. scan_run (replicate 2 dict_still @ replicate 2 dict_example) 0 = Inr (es, True)"
proof -
  have "\<forall>d\<in>set (replicate 2 dict_still @ replicate 2 dict_example). dict_inv (nat_dict_type False) d \<and>
      pauserehash d < 2 ^ 32 - 1 \<and> nat (ht_size_exp (ht0 d)) \<le> 2"
    using dict_example_inv dict_still_inv by (auto simp: dict_example_def dict_still_def)
  then show ?thesis by (rule dict_scan_ends) simp_all
qed



text \<open>
  CN: \<^verbatim>\<open>rev\<close>, computed by swapping halves of halving width, reverses the 64 bits of a cursor, and undoes
  itself.
\<close>

theorem dict_rev_reverses_bits:
  "(bit (rev_ul v) n = (n < 64 \<and> bit v (63 - n))) \<and> rev_ul (rev_ul v) = v"
  by (simp add: bit_rev_ul)

text \<open>
  C10: An iterator, safe or not, over a dict that the loop does not change returns every entry of both tables
  exactly once, even in the middle of a rehash, and releasing it restores the dict and trips no assertion.
\<close>

theorem dict_iterator_complete:
  assumes "dict_inv ty d" "pauserehash d < 2 ^ 32 - 1" "it = dictInitIterator \<or> it = dictInitSafeIterator"
  shows "\<exists>it' d'. iter_run (Suc (dictSize d)) fp it d = Inr (it', d', dict_entries d) \<and>
    dictResetIterator fp it' d' = Inr d"
proof -
  have fr: "iter_fresh it" "iter_ok ty it d"
    using assms(3) by (auto simp: iter_fresh_def iter_ok_def dictInitIterator_def dictInitSafeIterator_def chain_ok_def)
  note rest = iter_fresh_rest [OF assms(1) fr(1)]
  obtain it' where it': "iter_run (Suc (dictSize d)) fp it d = Inr (it', iter_dict it d, dict_entries d)"
    "\<not> iter_fresh it'" "it_safe it' = it_safe it" "\<not> it_safe it \<longrightarrow> it_fingerprint it' = fp d"
    using iter_run_ok [OF assms(1) fr(2), of "Suc (dictSize d)" fp] dictSize_entries [OF assms(1)] rest fr(1) by auto
  have "dictResetIterator fp it' (iter_dict it d) = Inr d"
    using it' fr(1) pause_resume [OF assms(2)]
    by (auto simp: dictResetIterator_def iter_dict_def iter_fresh_def res_assert_def)
  then show ?thesis using it'(1) by blast
qed

theorem dict_iterator_complete_witness:
  "\<exists>it' d'. iter_run 2 (\<lambda>_. 5) dictInitSafeIterator dict_example = Inr (it', d', [NormalEntry 4 7]) \<and>
     dictResetIterator (\<lambda>_. 5) it' d' = Inr dict_example"
proof -
  have c: "Suc (dictSize dict_example) = 2" "dict_entries dict_example = [NormalEntry 4 7]" "pauserehash dict_example < 2 ^ 32 - 1"
    by (simp_all add: dict_example_def dictSize_def dict_entries_def)
  show ?thesis
    using dict_iterator_complete [OF dict_example_inv c(3) disjI2 [OF refl], of "\<lambda>_. 5", unfolded c(1,2)] .
qed

end
