(* ===== verification/Numerals.thy ===== *)
theory Numerals
  imports Prelude
begin

text \<open>
  The decimal conversions of \<^verbatim>\<open>src/redis-stable/src/util.c\<close>: \<^verbatim>\<open>digits10\<close>, \<^verbatim>\<open>ull2string\<close>,
  \<^verbatim>\<open>ll2string\<close>, \<^verbatim>\<open>string2ll\<close> and \<^verbatim>\<open>memtoull\<close>. Characters are bytes. An \<^verbatim>\<open>unsigned long long\<close> is a
  number below \<open>2^64\<close> with the wrap around written out, a \<^verbatim>\<open>long long\<close> an \<^typ>\<open>int\<close>. Output buffers are
  written through checked stores.
\<close>

section \<open>Printing\<close>

function digits10 :: "nat \<Rightarrow> nat" where
  "digits10 v =
     (if v < 10 then 1
      else if v < 100 then 2
      else if v < 1000 then 3
      else if v < 1000000000000 then
        (if v < 100000000 then
           (if v < 1000000 then
              (if v < 10000 then 4 else 5 + (if 100000 \<le> v then 1 else 0))
            else 7 + (if 10000000 \<le> v then 1 else 0))
         else if v < 10000000000 then 9 + (if 1000000000 \<le> v then 1 else 0)
         else 11 + (if 100000000000 \<le> v then 1 else 0))
      else 12 + digits10 (v div 1000000000000))"
  by auto
termination
  by (relation "measure id") auto

declare digits10.simps [simp del]

definition sdigits10 :: "int \<Rightarrow> nat" where
  "sdigits10 v =
     (if v < 0 then
        (let uv = (if v \<noteq> - (2 ^ 63) then nat (- v) else nat (2 ^ 63 - 1) + 1) in digits10 uv + 1)
      else digits10 (nat v))"

definition digits :: buffer where
  "digits = map of_char
     (''0001020304050607080910111213141516171819'' @
      ''2021222324252627282930313233343536373839'' @
      ''4041424344454647484950515253545556575859'' @
      ''6061626364656667686970717273747576777879'' @
      ''8081828384858687888990919293949596979899'')"

text \<open>The loop that writes two digits at a time from the end, with \<^verbatim>\<open>next\<close> a \<^verbatim>\<open>uint32_t\<close>.\<close>

function ull2stringLoop :: "buffer \<Rightarrow> int \<Rightarrow> nat \<Rightarrow> (buffer \<times> int \<times> nat) result" where
  "ull2stringLoop dst nxt value =
     (if 100 \<le> value then
        let i = int (value mod 100) * 2 in
        res_bind (rd digits (i + 1)) (\<lambda>c1.
        res_bind (wr dst nxt c1) (\<lambda>dst.
        res_bind (rd digits i) (\<lambda>c0.
        res_bind (wr dst ((nxt - 1) mod 2 ^ 32) c0) (\<lambda>dst.
        ull2stringLoop dst ((nxt - 2) mod 2 ^ 32) (value div 100)))))
      else Inr (dst, nxt, value))"
  by auto
termination
  by (relation "measure (\<lambda>(dst, nxt, value). value)") auto

declare ull2stringLoop.simps [simp del]

definition ull2string :: "buffer \<Rightarrow> nat \<Rightarrow> nat \<Rightarrow> (buffer \<times> nat) result" where
  "ull2string dst dstlen value =
     (let len = digits10 value in
      if dstlen \<le> len then
        (if 0 < dstlen then res_bind (wr dst 0 0) (\<lambda>dst. Inr (dst, 0)) else Inr (dst, 0))
      else
        let nxt = int len - 1 in
        res_bind (wr dst (nxt + 1) 0) (\<lambda>dst.
        res_bind (ull2stringLoop dst nxt value) (\<lambda>(dst, nxt, value).
        res_bind
          (if value < 10 then wr dst nxt (48 + of_nat value)
           else
             let i = int value * 2 in
             res_bind (rd digits (i + 1)) (\<lambda>c1.
             res_bind (wr dst nxt c1) (\<lambda>dst.
             res_bind (rd digits i) (\<lambda>c0.
             wr dst ((nxt - 1) mod 2 ^ 32) c0))))
          (\<lambda>dst. Inr (dst, len)))))"

text \<open>
  \<^verbatim>\<open>ll2string\<close> hands the buffer behind the sign to \<^verbatim>\<open>ull2string\<close>: the pointer \<^verbatim>\<open>dst++\<close> is the buffer
  without its first byte.
\<close>

definition ll2string :: "buffer \<Rightarrow> nat \<Rightarrow> int \<Rightarrow> (buffer \<times> nat) result" where
  "ll2string dst dstlen svalue =
     (if svalue < 0 then
        let value = (if svalue \<noteq> - (2 ^ 63) then nat (- svalue) else nat (2 ^ 63 - 1) + 1) in
        if dstlen < 2 then
          (if 0 < dstlen then res_bind (wr dst 0 0) (\<lambda>dst. Inr (dst, 0)) else Inr (dst, 0))
        else
          res_bind (wr dst 0 45) (\<lambda>dst.
          res_bind (ull2string (tl dst) (dstlen - 1) value) (\<lambda>(rest, len).
          Inr (hd dst # rest, if len = 0 then 0 else len + 1)))
      else ull2string dst dstlen (nat svalue))"

section \<open>Parsing\<close>

abbreviation ULLONG_MAX :: nat where "ULLONG_MAX \<equiv> 2 ^ 64 - 1"
abbreviation LONG_STR_SIZE :: nat where "LONG_STR_SIZE \<equiv> 21"

definition isdigit :: "byte \<Rightarrow> bool" where
  "isdigit c \<longleftrightarrow> 48 \<le> c \<and> c \<le> 57"

definition digit_val :: "byte \<Rightarrow> nat" where
  "digit_val c = unat c - 48"

text \<open>The digit loop: \<^const>\<open>None\<close> for an overflow, otherwise \<^verbatim>\<open>plen\<close> and \<^verbatim>\<open>v\<close>.\<close>

function string2llLoop :: "buffer \<Rightarrow> nat \<Rightarrow> nat \<Rightarrow> nat \<Rightarrow> (nat \<times> nat) option result" where
  "string2llLoop s slen plen v =
     (if plen < slen then
        res_bind (rd s (int plen)) (\<lambda>c.
        if isdigit c then
          (if v > ULLONG_MAX div 10 then Inr None
           else
             let v = v * 10 mod 2 ^ 64 in
             if v > ULLONG_MAX - digit_val c then Inr None
             else string2llLoop s slen (plen + 1) ((v + digit_val c) mod 2 ^ 64))
        else Inr (Some (plen, v)))
      else Inr (Some (plen, v)))"
  by auto
termination
  by (relation "measure (\<lambda>(s, slen, plen, v). slen - plen)") auto

declare string2llLoop.simps [simp del]

text \<open>The bits of an \<^verbatim>\<open>unsigned long long\<close> read as a \<^verbatim>\<open>long long\<close>.\<close>

definition to_ll :: "nat \<Rightarrow> int" where
  "to_ll n = (if n < 2 ^ 63 then int n else int n - 2 ^ 64)"

definition string2ll :: "buffer \<Rightarrow> nat \<Rightarrow> int option result" where
  "string2ll s slen =
     (if slen = 0 \<or> LONG_STR_SIZE \<le> slen then Inr None
      else
        res_bind (rd s 0) (\<lambda>c.
        if slen = 1 \<and> c = 48 then Inr (Some 0)
        else
          let negative = (c = 45); plen = (if negative then 1 else 0 :: nat) in
          if negative \<and> plen = slen then Inr None
          else
            res_bind (rd s (int plen)) (\<lambda>c.
            if 49 \<le> c \<and> c \<le> 57 then
              res_bind (string2llLoop s slen (plen + 1) (digit_val c)) (\<lambda>r.
              Inr (case r of
                None \<Rightarrow> None
              | Some (plen, v) \<Rightarrow>
                  if plen < slen then None
                  else if negative then
                    (if v > nat (2 ^ 63 - 1) + 1 then None else Some (to_ll ((2 ^ 64 - v) mod 2 ^ 64)))
                  else if v > 2 ^ 63 - 1 then None else Some (int v)))
            else Inr None)))"

definition string2l :: "buffer \<Rightarrow> nat \<Rightarrow> int option result" where
  "string2l s slen =
     res_bind (string2ll s slen) (\<lambda>r.
     Inr (case r of
       None \<Rightarrow> None
     | Some llval \<Rightarrow> if llval < - (2 ^ 63) \<or> llval > 2 ^ 63 - 1 then None else Some llval))"

section \<open>Decimal numerals\<close>

text \<open>The reference: the usual numeral of a number, and of an integer.\<close>

fun dec :: "nat \<Rightarrow> buffer" where
  "dec n = (if n < 10 then [48 + of_nat n] else dec (n div 10) @ [48 + of_nat (n mod 10)])"

declare dec.simps [simp del]

definition dec_int :: "int \<Rightarrow> buffer" where
  "dec_int v = (if v < 0 then 45 # dec (nat (- v)) else dec (nat v))"

fun num :: "nat \<Rightarrow> buffer \<Rightarrow> nat" where
  "num a [] = a"
| "num a (c # cs) = num (10 * a + digit_val c) cs"

lemma num_append: "num a (xs @ ys) = num (num a xs) ys"
  by (induction xs arbitrary: a) simp_all

lemma unat_digit: "n < 10 \<Longrightarrow> unat (48 + of_nat n :: byte) = 48 + n"
  by (simp add: unat_word_ariths unat_of_nat)

lemma digit_of_nat [simp]: "n < 10 \<Longrightarrow> isdigit (48 + of_nat n)" "n < 10 \<Longrightarrow> digit_val (48 + of_nat n) = n"
  by (simp_all add: isdigit_def digit_val_def word_le_nat_alt unat_digit)

lemma digit_val_less: "isdigit c \<Longrightarrow> digit_val c < 10"
  by (auto simp: isdigit_def digit_val_def word_le_nat_alt)

lemma digit_val_inverse: "isdigit c \<Longrightarrow> 48 + of_nat (digit_val c) = c"
  by (simp add: isdigit_def digit_val_def word_le_nat_alt of_nat_diff)

lemma dec_digits: "c \<in> set (dec n) \<Longrightarrow> isdigit c"
proof (induction n rule: dec.induct)
  case (1 n)
  then show ?case by (subst (asm) (2) dec.simps) (auto split: if_splits)
qed

lemma num_dec: "num 0 (dec n) = n"
proof (induction n rule: dec.induct)
  case (1 n)
  then show ?case by (subst dec.simps) (auto simp: num_append)
qed

lemma dec_nonempty [simp]: "dec n \<noteq> []"
  by (subst dec.simps) simp

lemma dec_hd: "0 < n \<Longrightarrow> hd (dec n) \<noteq> 48"
proof (induction n rule: dec.induct)
  case (1 n)
  show ?case
  proof (cases "n < 10")
    case True
    then have "unat (hd (dec n)) = 48 + n" by (subst dec.simps) (simp add: unat_digit)
    then show ?thesis using 1(2) by auto
  next
    case False
    then have "hd (dec n) = hd (dec (n div 10))" by (subst dec.simps) simp
    then show ?thesis using 1(1) False by simp
  qed
qed

lemma dec_num:
  assumes "ds \<noteq> []" "\<forall>c\<in>set ds. isdigit c" "hd ds \<noteq> 48 \<or> length ds = 1"
  shows "dec (num 0 ds) = ds"
  using assms
proof (induction ds rule: rev_induct)
  case (snoc d ds)
  have d: "digit_val d < 10" "48 + of_nat (digit_val d) = d" using snoc.prems digit_val_less digit_val_inverse by auto
  show ?case
  proof (cases "ds = []")
    case True
    then show ?thesis using d by (subst dec.simps) simp
  next
    case False
    have "hd ds \<noteq> 48" using snoc.prems(3) False by auto
    then have IH: "dec (num 0 ds) = ds" using snoc.IH snoc.prems(2) False by simp
    have "num 0 ds \<noteq> 0"
    proof
      assume "num 0 ds = 0"
      then have "ds = [48]" using IH by (simp add: dec.simps)
      then show False using \<open>hd ds \<noteq> 48\<close> by simp
    qed
    then show ?thesis using d IH by (subst dec.simps) (simp add: num_append)
  qed
qed simp

section \<open>Printing writes the numeral\<close>

lemma length_dec_div: "10 ^ k \<le> n \<Longrightarrow> length (dec n) = k + length (dec (n div 10 ^ k))"
proof (induction k arbitrary: n)
  case (Suc k)
  then have n: "10 \<le> n" by (simp add: order_trans [of 10 "10 * 10 ^ k"])
  moreover have "10 ^ k \<le> n div 10" using Suc.prems by (simp add: less_eq_div_iff_mult_less_eq mult.commute)
  ultimately show ?case using Suc.IH [of "n div 10"] dec.simps [of n] by (simp add: div_mult2_eq)
qed simp

lemma length_dec_eq: "10 ^ k \<le> n \<Longrightarrow> n < 10 ^ Suc k \<Longrightarrow> length (dec n) = Suc k"
  using length_dec_div [of k n] dec.simps [of "n div 10 ^ k"] by (simp add: less_mult_imp_div_less)

lemma length_dec_1: "n < 10 \<Longrightarrow> length (dec n) = 1"
  by (simp add: dec.simps)

lemma digits10_dec: "digits10 v = length (dec v)"
proof (induction v rule: digits10.induct)
  case (1 v)
  note k = length_dec_eq [of 1 v] length_dec_eq [of 2 v] length_dec_eq [of 3 v] length_dec_eq [of 4 v]
    length_dec_eq [of 5 v] length_dec_eq [of 6 v] length_dec_eq [of 7 v] length_dec_eq [of 8 v]
    length_dec_eq [of 9 v] length_dec_eq [of 10 v] length_dec_eq [of 11 v]
  show ?case
  proof (cases "v < 1000000000000")
    case True
    then show ?thesis using k length_dec_1 [of v] by (subst digits10.simps) auto
  next
    case False
    then show ?thesis using 1 length_dec_div [of 12 v] by (subst digits10.simps) simp
  qed
qed

lemma nth_concat_pairs:
  "k < n \<Longrightarrow> concat (map (\<lambda>k. [f k, g k]) [0..<n]) ! (2 * k) = f k \<and>
    concat (map (\<lambda>k. [f k, g k]) [0..<n]) ! Suc (2 * k) = g k"
proof (induction n)
  case (Suc n)
  have "length (concat (map (\<lambda>k. [f k, g k]) [0..<n])) = 2 * n" by (induction n) simp_all
  then show ?case using Suc by (cases "k = n") (auto simp: nth_append)
qed simp

lemma digits_pairs: "digits = concat (map (\<lambda>k. [48 + of_nat (k div 10), 48 + of_nat (k mod 10)]) [0..<100])"
  by (simp add: digits_def upt_rec)

lemma digits_nth:
  assumes "k < 100"
  shows "rd digits (int k * 2) = Inr (48 + of_nat (k div 10))" "rd digits (int k * 2 + 1) = Inr (48 + of_nat (k mod 10))"
proof -
  have "length digits = 200" by (simp add: digits_def)
  moreover have "digits ! (2 * k) = 48 + of_nat (k div 10) \<and> digits ! Suc (2 * k) = 48 + of_nat (k mod 10)"
    unfolding digits_pairs by (rule nth_concat_pairs [OF assms])
  moreover have "int k * 2 = int (2 * k)" "int k * 2 + 1 = int (Suc (2 * k))" by simp_all
  ultimately show "rd digits (int k * 2) = Inr (48 + of_nat (k div 10))" "rd digits (int k * 2 + 1) = Inr (48 + of_nat (k mod 10))"
    using assms by (simp_all only: rd_nat)
qed

lemma dec_100:
  assumes "100 \<le> v"
  shows "dec v = dec (v div 100) @ [48 + of_nat (v mod 100 div 10), 48 + of_nat (v mod 100 mod 10)]"
proof -
  have "v div 10 mod 10 = v mod 100 div 10" using mod_mult2_eq [of v 10 10] by simp
  moreover have "v mod 10 = v mod 100 mod 10" using mod_mod_cancel [of 10 100 v] by simp
  moreover have "dec v = dec (v div 10) @ [48 + of_nat (v mod 10)]"
    "dec (v div 10) = dec (v div 100) @ [48 + of_nat (v div 10 mod 10)]"
    using assms dec.simps [of v] dec.simps [of "v div 10"] by (simp_all add: div_mult2_eq [symmetric])
  ultimately show ?thesis by simp
qed

lemma drop_Cons2: "Suc k < length ys \<Longrightarrow> drop k ys = ys ! k # ys ! Suc k # drop (Suc (Suc k)) ys"
  by (simp add: Cons_nth_drop_Suc)

lemma drop_two_updates:
  "Suc k < length xs \<Longrightarrow> drop k (xs[Suc k := b, k := a]) = a # b # drop (Suc (Suc k)) xs"
  using drop_Cons2 [of k "xs[Suc k := b, k := a]"] by simp

text \<open>The loop and the digits that are left write the numeral in front of what follows it.\<close>

lemma ull2stringLoop_ok:
  assumes "length (dec v) = Suc k" "Suc k \<le> length dst" "k < 2 ^ 32"
  shows "\<exists>dst' k' v'. ull2stringLoop dst (int k) v = Inr (dst', int k', v') \<and> v' < 100 \<and> length (dec v') = Suc k' \<and>
    k' \<le> k \<and> length dst' = length dst \<and> dec v' @ drop (Suc k') dst' = dec v @ drop (Suc k) dst"
  using assms
proof (induction v arbitrary: k dst rule: less_induct)
  case (less v)
  show ?case
  proof (cases "100 \<le> v")
    case False
    then show ?thesis using less.prems by (subst ull2stringLoop.simps) simp
  next
    case True
    note d = dec_100 [OF True]
    obtain j where j: "k = Suc (Suc j)" "length (dec (v div 100)) = Suc j"
      using less.prems(1) d by (cases "length (dec (v div 100))") auto
    let ?a = "48 + of_nat (v mod 100 div 10) :: byte" and ?b = "48 + of_nat (v mod 100 mod 10) :: byte"
    let ?dst = "dst[k := ?b, Suc j := ?a]"
    have "(int k - 1) mod 2 ^ 32 = int (Suc j)" "(int k - 2) mod 2 ^ 32 = int j"
      using less.prems(3) j(1) by (simp_all add: mod_pos_pos_trivial)
    moreover have "k < length dst" "Suc j < length dst" using less.prems(2) j(1) by simp_all
    ultimately have "ull2stringLoop dst (int k) v = ull2stringLoop ?dst (int j) (v div 100)"
      using True digits_nth [of "v mod 100"] by (subst ull2stringLoop.simps) (simp add: Let_def del: of_nat_Suc)
    moreover have "drop (Suc j) ?dst = [?a, ?b] @ drop (Suc k) dst"
      using less.prems(2) j(1) drop_two_updates [of "Suc j" dst ?b ?a] by simp
    moreover obtain dst' k' v' where "ull2stringLoop ?dst (int j) (v div 100) = Inr (dst', int k', v')" "v' < 100"
      "length (dec v') = Suc k'" "k' \<le> j" "length dst' = length dst"
      "dec v' @ drop (Suc k') dst' = dec (v div 100) @ drop (Suc j) ?dst"
      using less.IH [of "v div 100" j ?dst] less.prems(2,3) j True by auto
    ultimately show ?thesis using j(1) d by (intro exI [of _ dst'] exI [of _ k'] exI [of _ v']) simp
  qed
qed

lemma ull2string_ok:
  assumes "length (dec v) < dstlen" "dstlen \<le> length dst" "length (dec v) < 2 ^ 32"
  shows "ull2string dst dstlen v = Inr (dec v @ 0 # drop (Suc (length (dec v))) dst, length (dec v))"
proof -
  let ?l = "length (dec v)"
  obtain k where k: "?l = Suc k" by (cases "?l") auto
  let ?dst = "dst[Suc k := 0]"
  obtain dst' k' v' where l: "ull2stringLoop ?dst (int k) v = Inr (dst', int k', v')" "v' < 100" "length (dec v') = Suc k'"
    "k' \<le> k" "length dst' = length dst" "dec v' @ drop (Suc k') dst' = dec v @ drop (Suc k) ?dst"
    using ull2stringLoop_ok [OF k, of ?dst] assms k by auto
  have tail: "drop (Suc k) ?dst = 0 # drop (Suc ?l) dst"
    using assms k Cons_nth_drop_Suc [of "Suc k" ?dst] by simp
  have fin: "(if v' < 10 then wr dst' (int k') (48 + of_nat v')
      else let i = int v' * 2 in res_bind (rd digits (i + 1)) (\<lambda>c1. res_bind (wr dst' (int k') c1) (\<lambda>dst.
        res_bind (rd digits i) (\<lambda>c0. wr dst ((int k' - 1) mod 2 ^ 32) c0)))) = Inr (dec v' @ drop (Suc k') dst')"
  proof (cases "v' < 10")
    case True
    then have "dec v' = [48 + of_nat v']" by (simp add: dec.simps)
    moreover from this have "k' = 0" using l(3) by simp
    moreover obtain x xs where "dst' = x # xs" using l(5) assms k by (cases dst') auto
    ultimately show ?thesis using True by (simp add: wr_def)
  next
    case False
    have d: "dec v' = [48 + of_nat (v' div 10), 48 + of_nat (v' mod 10)]"
      using False l(2) dec.simps [of v'] dec.simps [of "v' div 10"] by simp
    have k': "k' = 1" using l(3) d by simp
    have len: "Suc 0 < length dst'" using l(4,5) assms k k' by simp
    have "wr dst' (int k') c = Inr (dst'[Suc 0 := c])" "wr (dst'[Suc 0 := c]) ((int k' - 1) mod 2 ^ 32) c2 = Inr (dst'[Suc 0 := c, 0 := c2])" for c c2
      using len k' by (auto simp: wr_def)
    moreover have "dst'[Suc 0 := b, 0 := a] = a # b # drop 2 dst'" for a b
      using drop_two_updates [OF len, of b a] by (simp add: numeral_2_eq_2)
    ultimately show ?thesis using False digits_nth [of v'] l(2) d k' by (simp add: Let_def numeral_2_eq_2)
  qed
  have nn: "int ?l - 1 = int k" "wr dst (int ?l - 1 + 1) 0 = Inr ?dst" using k assms by (simp_all add: wr_def nat_add_distrib)
  have big: "\<not> dstlen \<le> ?l" using assms(1) by simp
  show ?thesis unfolding ull2string_def digits10_dec Let_def
    by (simp only: big if_False nn(1) nn(2) [unfolded nn(1)] res_bind_simps l(1) prod.case fin [unfolded Let_def] l(6) tail)
qed

lemma dec_64: "v < 10 ^ Suc k \<Longrightarrow> length (dec v) \<le> Suc k"
proof (induction k arbitrary: v)
  case (Suc k)
  then show ?case using Suc.IH [of "v div 10"] dec.simps [of v] by (simp add: less_mult_imp_div_less)
qed (simp add: dec.simps)

lemma dec_u64: "v < 2 ^ 64 \<Longrightarrow> length (dec v) \<le> 20"
  using dec_64 [of v 19] by simp

lemma ll2string_ok:
  assumes "- (2 ^ 63) \<le> v" "v < 2 ^ 63" "length (dec_int v) < dstlen" "dstlen \<le> length dst"
  shows "ll2string dst dstlen v = Inr (dec_int v @ 0 # drop (Suc (length (dec_int v))) dst, length (dec_int v))"
proof (cases "v < 0")
  case True
  have val: "(if v \<noteq> - (2 ^ 63) then nat (- v) else nat (2 ^ 63 - 1) + 1) = nat (- v)" by simp
  have "nat (- v) < 2 ^ 64" using assms(1) True by (simp add: nat_less_iff)
  then have "length (dec (nat (- v))) \<le> 20" by (rule dec_u64)
  moreover have len: "length (dec (nat (- v))) < dstlen - 1" "length (dec (nat (- v))) \<noteq> 0"
    using assms(3) True by (auto simp: dec_int_def)
  moreover have "\<not> dstlen < 2" using len by linarith
  moreover obtain x xs where "dst = x # xs" using assms(3,4) by (cases dst) auto
  ultimately show ?thesis
    using True assms(4) ull2string_ok [of "nat (- v)" "dstlen - 1" xs] unfolding ll2string_def Let_def val
    by (simp add: wr_def dec_int_def)
next
  case False
  have "nat v < 2 ^ 64" using assms(2) by (simp add: nat_less_iff)
  then have "length (dec (nat v)) < 2 ^ 32" using dec_u64 [of "nat v"] by simp
  then show ?thesis using False assms(3,4) ull2string_ok [of "nat v" dstlen dst] by (simp add: ll2string_def dec_int_def)
qed

section \<open>Parsing reads the numeral\<close>

fun parse :: "nat \<Rightarrow> buffer \<Rightarrow> (nat \<times> nat) option" where
  "parse v [] = Some (0, v)"
| "parse v (c # cs) =
     (if isdigit c then
        if 2 ^ 64 \<le> 10 * v + digit_val c then None
        else map_option (\<lambda>(n, w). (Suc n, w)) (parse (10 * v + digit_val c) cs)
      else Some (0, v))"

lemma string2llLoop_parse:
  assumes "v < 2 ^ 64" "slen \<le> length s" "plen \<le> slen"
  shows "string2llLoop s slen plen v =
    Inr (map_option (\<lambda>(n, w). (plen + n, w)) (parse v (drop plen (take slen s))))"
  using assms
proof (induction s slen plen v rule: string2llLoop.induct)
  case (1 s slen plen v)
  show ?case
  proof (cases "plen < slen")
    case False
    then show ?thesis using 1(2-) by (subst string2llLoop.simps) simp
  next
    case True
    let ?c = "s ! plen"
    have dr: "drop plen (take slen s) = ?c # drop (plen + 1) (take slen s)"
      using True 1(3) Cons_nth_drop_Suc [of plen "take slen s"] by simp
    have c: "rd s (int plen) = Inr ?c" using True 1(3) by simp
    have d: "isdigit ?c \<Longrightarrow> digit_val ?c < 10" by (rule digit_val_less)
    have ov: "v > ULLONG_MAX div 10 \<Longrightarrow> 2 ^ 64 \<le> 10 * v + digit_val ?c" by simp
    have m: "\<not> v > ULLONG_MAX div 10 \<Longrightarrow> v * 10 mod 2 ^ 64 = 10 * v" by simp
    have cmp: "isdigit ?c \<Longrightarrow> \<not> v > ULLONG_MAX div 10 \<Longrightarrow> 10 * v > ULLONG_MAX - digit_val ?c \<longleftrightarrow> 2 ^ 64 \<le> 10 * v + digit_val ?c"
      using d by auto
    show ?thesis
    proof (cases "isdigit ?c \<and> \<not> 2 ^ 64 \<le> 10 * v + digit_val ?c")
      case False
      then show ?thesis using True c dr ov m cmp by (subst string2llLoop.simps) (auto simp: Let_def)
    next
      case ok: True
      then have nv: "\<not> v > ULLONG_MAX div 10" using ov by blast
      have IH: "string2llLoop s slen (plen + 1) (10 * v + digit_val ?c) =
        Inr (map_option (\<lambda>(n, w). (plen + 1 + n, w)) (parse (10 * v + digit_val ?c) (drop (plen + 1) (take slen s))))"
        using 1(1) [OF True c _ nv refl] ok nv m [OF nv] cmp [OF _ nv] 1(3) True
        by (simp add: mult.commute [of v 10])
      show ?thesis using True c dr ok nv m [OF nv] cmp [OF _ nv] IH
        by (subst string2llLoop.simps) (simp add: Let_def option.map_comp comp_def case_prod_unfold mult.commute [of v 10])
    qed
  qed
qed

lemma num_ge: "a \<le> num a cs"
proof (induction cs arbitrary: a)
  case (Cons c cs)
  show ?case using Cons [of "10 * a + digit_val c"] by simp
qed simp

lemma parse_all:
  "\<forall>c\<in>set cs. isdigit c \<Longrightarrow> num v cs < 2 ^ 64 \<Longrightarrow> parse v cs = Some (length cs, num v cs)"
proof (induction cs arbitrary: v)
  case (Cons c cs)
  then show ?case using num_ge [of "10 * v + digit_val c" cs] by simp
qed simp

lemma parse_some:
  "parse v cs = Some (n, w) \<Longrightarrow> n \<le> length cs \<and> (n = length cs \<longrightarrow> (\<forall>c\<in>set cs. isdigit c) \<and> w = num v cs)"
proof (induction cs arbitrary: v n)
  case (Cons c cs)
  then show ?case by (auto split: if_splits)
qed simp

text \<open>\<^verbatim>\<open>string2ll\<close> on the characters \<open>t\<close> it is given.\<close>

definition read_digits :: "bool \<Rightarrow> buffer \<Rightarrow> int option" where
  "read_digits negative ds =
     (if ds = [] \<or> \<not> (49 \<le> hd ds \<and> hd ds \<le> 57) then None
      else case parse (digit_val (hd ds)) (tl ds) of
        None \<Rightarrow> None
      | Some (n, v) \<Rightarrow>
          if n < length (tl ds) then None
          else if negative then if v > 2 ^ 63 then None else Some (- int v)
          else if v > 2 ^ 63 - 1 then None else Some (int v))"

lemma to_ll_neg: "0 < v \<Longrightarrow> v \<le> 2 ^ 63 \<Longrightarrow> to_ll ((2 ^ 64 - v) mod 2 ^ 64) = - int v"
  by (simp add: to_ll_def of_nat_diff)

lemma parse_pos: "0 < v \<Longrightarrow> parse v cs = Some (n, w) \<Longrightarrow> 0 < w"
proof (induction cs arbitrary: v n)
  case (Cons c cs)
  then show ?case using Cons.IH [of "10 * v + digit_val c"] by (auto split: if_splits)
qed simp

lemma string2ll_read:
  assumes "slen \<le> length s" "0 < slen" "slen < LONG_STR_SIZE" "t = take slen s"
  shows "string2ll s slen =
    Inr (if t = [48] then Some 0 else read_digits (hd t = 45) (if hd t = 45 then tl t else t))"
proof -
  have "t \<noteq> []" using assms by auto
  then obtain c t' where t: "t = c # t'" by (cases t) auto
  have "length t = slen" using assms(1,4) by simp
  then have len: "slen = Suc (length t')" using t by simp
  have nth: "rd s (int i) = Inr (t ! i)" if "i < slen" for i using that assms(1,4) by simp
  note c0 = nth [of 0, OF assms(2)]
  have loop: "string2llLoop s slen p v = Inr (map_option (\<lambda>(n, w). (p + n, w)) (parse v (drop p t)))"
    if "v < 2 ^ 64" "p \<le> slen" for p v
    using string2llLoop_parse [OF that(1) assms(1) that(2)] assms(4) by simp
  have dv: "digit_val x < 2 ^ 64" for x by (simp add: digit_val_def less_imp_diff_less [OF unsigned_less [THEN less_trans]])
  have pos: "0 < digit_val x" if "49 \<le> x" for x using that by (simp add: digit_val_def word_le_nat_alt)
  show ?thesis
  proof (cases "c = 45")
    case False
    then show ?thesis using assms(2,3) c0 t len loop [OF dv, of 1]
      by (auto simp: string2ll_def read_digits_def Let_def option.map_comp comp_def split: option.splits)
  next
    case True
    show ?thesis
    proof (cases t')
      case Nil
      then show ?thesis using assms(2,3) c0 t len True by (simp add: string2ll_def read_digits_def)
    next
      case (Cons x xs)
      then have c1: "rd s (int 1) = Inr x" using nth [of 1] t len by simp
      show ?thesis using assms(2,3) c0 c1 t len loop [OF dv, of "Suc (Suc 0)"] True Cons to_ll_neg parse_pos [OF pos]
        by (auto simp: string2ll_def read_digits_def Let_def option.map_comp comp_def split: option.splits)
    qed
  qed
qed

lemma first_digit: "49 \<le> c \<and> c \<le> 57 \<longleftrightarrow> isdigit c \<and> c \<noteq> (48 :: byte)"
  by (auto simp: isdigit_def word_le_nat_alt word_unat_eq_iff)

lemma isdigit_sign [simp]: "\<not> isdigit 45"
  by (simp add: isdigit_def)

lemma read_digits_dec:
  assumes "0 < n" "n < 2 ^ 64"
  shows "read_digits negative (dec n) =
    (if negative then if n > 2 ^ 63 then None else Some (- int n) else if n > 2 ^ 63 - 1 then None else Some (int n))"
proof -
  obtain c cs where c: "dec n = c # cs" by (cases "dec n") auto
  have "num (digit_val c) cs = n" using num_dec [of n] c by simp
  moreover have "\<forall>c\<in>set cs. isdigit c" "isdigit c" "c \<noteq> 48" using dec_digits [of _ n] dec_hd [OF assms(1)] c by auto
  ultimately show ?thesis using parse_all [of cs "digit_val c"] assms(2) first_digit [of c]
    by (simp add: read_digits_def c)
qed

lemma read_digits_some:
  assumes "read_digits negative ds = Some v"
  shows "\<exists>n>0. ds = dec n \<and> v = (if negative then - int n else int n) \<and> - (2 ^ 63) \<le> v \<and> v < 2 ^ 63"
proof -
  obtain c cs where ds: "ds = c # cs" using assms by (cases ds) (auto simp: read_digits_def)
  obtain n w where p: "parse (digit_val c) cs = Some (n, w)" "\<not> n < length cs" "49 \<le> c" "c \<le> 57"
    "v = (if negative then - int w else int w)" "w \<le> (if negative then 2 ^ 63 else 2 ^ 63 - 1)"
    using assms unfolding ds read_digits_def by (auto split: if_splits option.splits)
  have d: "\<forall>c\<in>set ds. isdigit c" "hd ds \<noteq> 48" "num 0 ds = w"
    using parse_some [OF p(1)] p(2-4) first_digit [of c] ds by auto
  then have "dec w = ds" using dec_num [of ds] ds by simp
  moreover have "0 < w" using parse_pos [OF _ p(1)] p(3) by (simp add: digit_val_def word_le_nat_alt)
  ultimately show ?thesis using p(5,6) by (auto split: if_splits)
qed

lemma dec_0: "dec 0 = [48]"
  by (simp add: dec.simps)

lemma hd_dec_sign: "hd (dec n) \<noteq> 45"
  using dec_digits [of "hd (dec n)" n] by auto

lemma string2ll_dec_int:
  assumes "- (2 ^ 63) \<le> v" "v < 2 ^ 63" "take slen s = dec_int v" "slen \<le> length s"
  shows "string2ll s slen = Inr (Some v)"
proof -
  have "length (take slen s) = slen" using assms(4) by simp
  then have len: "slen = length (dec_int v)" using assms(3) by simp
  have "nat (- v) < 2 ^ 64" "nat v < 2 ^ 64" using assms(1,2) by (simp_all add: nat_less_iff)
  moreover have "v < 0 \<Longrightarrow> length (dec (nat (- v))) \<le> 19" using dec_64 [of "nat (- v)" 18] assms(1) by (simp add: nat_less_iff)
  ultimately have b: "0 < slen" "slen < LONG_STR_SIZE" using len dec_u64 [of "nat v"] by (auto simp: dec_int_def)
  show ?thesis
  proof (cases "v = 0")
    case True
    then show ?thesis using string2ll_read [OF assms(4) b assms(3) [symmetric]] by (simp add: dec_int_def dec_0)
  next
    case False
    have "v > 0 \<Longrightarrow> dec (nat v) \<noteq> [48]" using num_dec [of "nat v"] by (auto simp: digit_val_def)
    then show ?thesis using string2ll_read [OF assms(4) b assms(3) [symmetric]] False assms(1,2)
        read_digits_dec [of "nat v" False] read_digits_dec [of "nat (- v)" True] hd_dec_sign [of "nat v"]
      by (auto simp: dec_int_def nat_less_iff)
  qed
qed

lemma string2ll_some:
  assumes "string2ll s slen = Inr (Some v)" "slen \<le> length s"
  shows "take slen s = dec_int v \<and> - (2 ^ 63) \<le> v \<and> v < 2 ^ 63"
proof -
  have b: "0 < slen" "slen < LONG_STR_SIZE" using assms(1) by (auto simp: string2ll_def split: if_splits)
  define t where "t = take slen s"
  have "t \<noteq> []" using b assms(2) by (auto simp: t_def)
  moreover have r: "Some v = (if t = [48] then Some 0 else read_digits (hd t = 45) (if hd t = 45 then tl t else t))"
    using string2ll_read [OF assms(2) b t_def] assms(1) by simp
  ultimately have "t = dec_int v \<and> - (2 ^ 63) \<le> v \<and> v < 2 ^ 63"
  proof (cases "t = [48]")
    case True
    then show ?thesis using r by (simp add: dec_int_def dec_0)
  next
    case False
    with \<open>t \<noteq> []\<close> show ?thesis using r read_digits_some [of "hd t = 45" "if hd t = 45 then tl t else t" v]
      by (cases t) (auto simp: dec_int_def split: if_splits)
  qed
  then show ?thesis by (simp add: t_def)
qed

lemma string2ll_total:
  assumes "slen \<le> length s"
  shows "\<exists>r. string2ll s slen = Inr r"
proof (cases "slen = 0 \<or> LONG_STR_SIZE \<le> slen")
  case True
  then show ?thesis unfolding string2ll_def by (simp only: if_True) blast
next
  case False
  then show ?thesis using string2ll_read [OF assms _ _ refl] by (metis neq0_conv not_le)
qed

section \<open>Amounts of memory\<close>

text \<open>
  \<^verbatim>\<open>memtoull\<close> on a C string, given without its terminating zero. \<^verbatim>\<open>strtoull\<close> on a string of digits gives its
  value, or \<^verbatim>\<open>ULLONG_MAX\<close> when that is too large; the caller does not look at \<^verbatim>\<open>ERANGE\<close>, and as in glibc no digits at all give 0 without
  an error. The result is
  \<^const>\<open>None\<close> where \<^verbatim>\<open>*err\<close> is set.
\<close>

definition strtoull_digits :: "buffer \<Rightarrow> nat" where
  "strtoull_digits ds = min (num 0 ds) ULLONG_MAX"

definition tolower :: "byte \<Rightarrow> byte" where
  "tolower c = (if 65 \<le> c \<and> c \<le> 90 then c + 32 else c)"

definition strcaseeq :: "buffer \<Rightarrow> string \<Rightarrow> bool" where
  "strcaseeq u w \<longleftrightarrow> map tolower u = map of_char w"

definition mem_unit :: "buffer \<Rightarrow> nat option" where
  "mem_unit u =
     (if u = [] \<or> strcaseeq u ''b'' then Some 1
      else if strcaseeq u ''k'' then Some 1000
      else if strcaseeq u ''kb'' then Some 1024
      else if strcaseeq u ''m'' then Some (1000 * 1000)
      else if strcaseeq u ''mb'' then Some (1024 * 1024)
      else if strcaseeq u ''g'' then Some (1000 * 1000 * 1000)
      else if strcaseeq u ''gb'' then Some (1024 * 1024 * 1024)
      else None)"

definition memtoull :: "buffer \<Rightarrow> nat option" where
  "memtoull p =
     (if p \<noteq> [] \<and> hd p = 45 then None
      else
        let ds = takeWhile isdigit p; u = dropWhile isdigit p in
        case mem_unit u of
          None \<Rightarrow> None
        | Some mul \<Rightarrow> if 128 \<le> length ds then None else Some (strtoull_digits ds * mul mod 2 ^ 64))"

lemma mem_unit_cases:
  assumes "mem_unit u = Some mul"
  shows "u = [] \<or> \<not> isdigit (hd u)"
proof (cases u)
  case (Cons c cs)
  have False if d: "isdigit c"
  proof -
    have "tolower c = c" using d by (auto simp: isdigit_def tolower_def word_le_nat_alt)
    moreover have "c \<noteq> 98" "c \<noteq> 107" "c \<noteq> 109" "c \<noteq> 103" using d by (auto simp: isdigit_def)
    ultimately have "mem_unit u = None" by (simp add: mem_unit_def strcaseeq_def Cons)
    then show False using assms by simp
  qed
  then show ?thesis using Cons by auto
qed simp

section \<open>Properties\<close>

text \<open>
  CN: Printing and parsing are inverse. \<^verbatim>\<open>ll2string\<close> of any 64 bit integer into a buffer of 21 bytes or more
  writes its numeral with a terminating zero and leaves the rest of the buffer alone, and \<^verbatim>\<open>string2ll\<close>
  reads the number back.
\<close>

theorem ll2string_string2ll:
  assumes "- (2 ^ 63) \<le> v" "v < 2 ^ 63" "LONG_STR_SIZE \<le> dstlen" "dstlen \<le> length dst"
  shows "\<exists>dst' n. ll2string dst dstlen v = Inr (dst', n) \<and> 0 < n \<and> n < LONG_STR_SIZE \<and> dst' ! n = 0 \<and>
    drop (Suc n) dst' = drop (Suc n) dst \<and> string2ll dst' n = Inr (Some v)"
proof -
  have "nat v < 2 ^ 64" "v < 0 \<Longrightarrow> length (dec (nat (- v))) \<le> 19"
    using assms(1,2) dec_64 [of "nat (- v)" 18] by (simp_all add: nat_less_iff)
  then have len: "length (dec_int v) < LONG_STR_SIZE" "0 < length (dec_int v)"
    using dec_u64 [of "nat v"] by (auto simp: dec_int_def)
  have n: "length (dec_int v) < dstlen" using len assms(3) by simp
  let ?dst = "dec_int v @ 0 # drop (Suc (length (dec_int v))) dst"
  have "string2ll ?dst (length (dec_int v)) = Inr (Some v)"
    using string2ll_dec_int [OF assms(1,2), of "length (dec_int v)" ?dst] by simp
  then show ?thesis using ll2string_ok [OF assms(1,2) n assms(4)] len
    by (intro exI [of _ ?dst] exI [of _ "length (dec_int v)"]) simp
qed

theorem ll2string_string2ll_witness:
  "\<exists>dst' n. ll2string (replicate 32 7) 32 (- 9223372036854775808) = Inr (dst', n) \<and>
     string2ll dst' n = Inr (Some (- 9223372036854775808))"
  using ll2string_string2ll [of "- 9223372036854775808" 32 "replicate 32 7"] by auto

text \<open>
  CN: \<^verbatim>\<open>string2ll\<close> never reads outside the string, and it accepts a string only when the string is exactly
  what \<^verbatim>\<open>ll2string\<close> prints for the number: no spaces, signs, leading zeros or overflow. Converting back
  loses nothing, as its comment promises.
\<close>

theorem string2ll_canonical:
  assumes "slen \<le> length s" "slen < dstlen" "dstlen \<le> length dst"
  shows "\<exists>r. string2ll s slen = Inr r \<and>
    (\<forall>v. r = Some v \<longrightarrow> (\<exists>dst'. ll2string dst dstlen v = Inr (dst', slen) \<and> take slen dst' = take slen s))"
proof -
  obtain r where r: "string2ll s slen = Inr r" using string2ll_total [OF assms(1)] by blast
  have "\<exists>dst'. ll2string dst dstlen v = Inr (dst', slen) \<and> take slen dst' = take slen s" if "r = Some v" for v
  proof -
    have v: "take slen s = dec_int v" "- (2 ^ 63) \<le> v" "v < 2 ^ 63"
      using string2ll_some [of s slen v] r that assms(1) by simp_all
    have "length (take slen s) = slen" using assms(1) by simp
    then have "length (dec_int v) = slen" using v(1) by simp
    then show ?thesis using ll2string_ok [OF v(2,3), of dstlen dst] assms v(1) by auto
  qed
  with r show ?thesis by blast
qed

theorem string2ll_canonical_witness:
  "\<exists>dst'. ll2string (replicate 8 0) 8 (- 45) = Inr (dst', 3) \<and> take 3 dst' = [45, 52, 53]"
proof -
  have "dec_int (- 45) = [45, 52, 53]" by (simp add: dec_int_def dec.simps)
  then have "string2ll [45, 52, 53] 3 = Inr (Some (- 45))" using string2ll_dec_int [of "- 45" 3] by simp
  then show ?thesis using string2ll_canonical [of 3 "[45, 52, 53]" 8 "replicate 8 0"] by auto
qed

text \<open>
  CN: The comparisons of \<^verbatim>\<open>digits10\<close> count the decimal digits, and \<^verbatim>\<open>sdigits10\<close> the characters of a signed
  number with its sign.
\<close>

theorem digits10_counts:
  "digits10 v = length (dec v) \<and> sdigits10 w = length (dec_int w)"
  by (simp add: digits10_dec sdigits10_def dec_int_def Let_def)



end
