(* ===== verification/Glob.thy ===== *)
theory Glob
  imports Numerals "HOL-Library.Sublist"
begin

text \<open>
  Glob style matching of \<^verbatim>\<open>src/redis-stable/src/util.c\<close>, used by KEYS, SCAN MATCH, PSUBSCRIBE and the ACL
  rules: \<^verbatim>\<open>stringmatchlen_impl\<close> with its early termination flag and nesting limit, \<^verbatim>\<open>prefixmatch\<close>, and a
  reference matcher on parsed patterns. A pattern pointer with its length is the list of the remaining
  bytes; the byte behind the pattern is the terminating zero of the sds or C string it lies in.
\<close>

section \<open>The matcher\<close>

text \<open>Collapse of adjacent stars; the pattern begins with a star.\<close>

fun skipStars :: "buffer \<Rightarrow> buffer" where
  "skipStars (a # b # p) = (if b = 42 then skipStars (b # p) else a # b # p)"
| "skipStars p = p"

lemma skipStars_length: "length (skipStars p) \<le> length p"
  by (induction p rule: skipStars.induct) auto

text \<open>
  The loop over a character class: whether \<^verbatim>\<open>string[0]\<close> matched, and the pattern behind the class. Ranges
  compare \<^verbatim>\<open>char\<close> values, which are signed.
\<close>

definition lower_int :: "int \<Rightarrow> int" where
  "lower_int c = (if 65 \<le> c \<and> c \<le> 90 then c + 32 else c)"

definition in_range :: "bool \<Rightarrow> byte \<Rightarrow> byte \<Rightarrow> byte \<Rightarrow> bool" where
  "in_range nocase a b c =
     (let start = sint a; end' = sint b; c = sint c;
          (start, end') = (if start > end' then (end', start) else (start, end'));
          (start, end', c) = (if nocase then (lower_int start, lower_int end', lower_int c) else (start, end', c))
      in c \<ge> start \<and> c \<le> end')"

definition same_char :: "bool \<Rightarrow> byte \<Rightarrow> byte \<Rightarrow> bool" where
  "same_char nocase a c = (if \<not> nocase then a = c else lower_int (sint a) = lower_int (sint c))"

function classLoop :: "bool \<Rightarrow> byte \<Rightarrow> buffer \<Rightarrow> bool \<Rightarrow> bool \<times> buffer" where
  "classLoop nocase c p mtch =
     (if length p \<ge> 2 \<and> hd p = 92 then
        classLoop nocase c (drop 2 p) (if p ! 1 = c then True else mtch)
      else if p = [] then (mtch, [])
      else if hd p = 93 then (mtch, tl p)
      else if length p \<ge> 3 \<and> p ! 1 = 45 then
        classLoop nocase c (drop 3 p) (if in_range nocase (hd p) (p ! 2) c then True else mtch)
      else classLoop nocase c (tl p) (if same_char nocase (hd p) c then True else mtch))"
  by auto
termination
  by (relation "measure (\<lambda>(nocase, c, p, mtch). length p)") (auto simp: neq_Nil_conv)

declare classLoop.simps [simp del]

lemma classLoop_length: "length (snd (classLoop nocase c p mtch)) \<le> length p"
proof (induction nocase c p mtch rule: classLoop.induct)
  case (1 nocase c p mtch)
  show ?case
    by (subst classLoop.simps) (use 1 in \<open>auto intro: le_trans\<close>)
qed

text \<open>The cases of the switch that consume one character: whether it matched, and the pattern behind.\<close>

definition matchChar :: "bool \<Rightarrow> buffer \<Rightarrow> byte \<Rightarrow> bool \<times> buffer" where
  "matchChar nocase p c =
     (if hd p = 63 then (True, tl p)
      else if hd p = 91 then
        (let p = tl p; neg = (p \<noteq> [] \<and> hd p = 94); p = (if neg then tl p else p);
             (mtch, p) = classLoop nocase c p False
         in (if neg then \<not> mtch else mtch, p))
      else
        (let p = (if hd p = 92 \<and> length p \<ge> 2 then tl p else p)
         in (same_char nocase (hd p) c, tl p)))"

lemma matchChar_shorter: "p \<noteq> [] \<Longrightarrow> length (snd (matchChar nocase p c)) < length p"
proof -
  assume "p \<noteq> []"
  then obtain a q where p: "p = a # q" by (cases p) auto
  show ?thesis
    using classLoop_length [of nocase c q False] classLoop_length [of nocase c "tl q" False]
    by (auto simp: p matchChar_def Let_def case_prod_beta)
qed

text \<open>
  \<^verbatim>\<open>stringmatchlen_impl\<close>: \<open>matchLoop\<close> is the outer loop and \<open>starLoop\<close> the loop of the star case over the
  positions of the string. Both return the result and \<^verbatim>\<open>*skipLongerMatches\<close>. The check of \<^verbatim>\<open>nesting\<close>
  stands at the head of a call.
\<close>

function matchLoop :: "bool \<Rightarrow> buffer \<Rightarrow> buffer \<Rightarrow> bool \<Rightarrow> nat \<Rightarrow> bool \<times> bool"
  and starLoop :: "bool \<Rightarrow> buffer \<Rightarrow> buffer \<Rightarrow> bool \<Rightarrow> nat \<Rightarrow> bool \<times> bool" where
  "matchLoop nocase p s skip nesting =
     (if p = [] \<or> s = [] then (p = [] \<and> s = [], skip)
      else if hd p = 42 then
        (let q = skipStars p in
         if length q = 1 then (True, skip) else starLoop nocase (tl q) s skip nesting)
      else
        (let (ok, q) = matchChar nocase p (hd s) in
         if \<not> ok then (False, skip)
         else if tl s = [] then (dropWhile (\<lambda>c. c = 42) q = [], skip)
         else matchLoop nocase q (tl s) skip nesting))"
| "starLoop nocase p s skip nesting =
     (case s of
        [] \<Rightarrow> (False, True)
      | c # s' \<Rightarrow>
          (let (r, skip) = (if nesting + 1 > 1000 then (False, skip) else matchLoop nocase p s skip (nesting + 1))
           in if r then (True, skip)
              else if skip then (False, skip)
              else starLoop nocase p s' skip nesting))"
  by pat_completeness auto

termination
proof (relation "measures
    [\<lambda>x. case x of Inl (nocase, p, s, skip, n) \<Rightarrow> length p | Inr (nocase, p, s, skip, n) \<Rightarrow> length p,
     \<lambda>x. case x of Inl (nocase, p, s, skip, n) \<Rightarrow> length s | Inr (nocase, p, s, skip, n) \<Rightarrow> length s,
     \<lambda>x. case x of Inl _ \<Rightarrow> 0 | Inr _ \<Rightarrow> 1]", goal_cases)
  case (2 nocase p s skip n q)
  then obtain a r where "p = a # r" by (cases p) auto
  then have "length (tl q) < length p" using 2 skipStars_length [of p] by simp
  then show ?case by simp
next
  case (3 nocase p s skip n x ok q)
  then have "length q < length p" using matchChar_shorter [of p nocase "hd s"] by (metis sndI de_Morgan_disj)
  then show ?case by simp
qed auto

declare matchLoop.simps [simp del]
declare starLoop.simps [simp del]

definition stringmatchlen :: "buffer \<Rightarrow> buffer \<Rightarrow> bool \<Rightarrow> bool" where
  "stringmatchlen p s nocase = fst (matchLoop nocase p s False 0)"

definition prefixmatch :: "buffer \<Rightarrow> buffer \<Rightarrow> bool \<Rightarrow> bool" where
  "prefixmatch p prefixStr nocase =
     (if \<not> fst (matchLoop nocase p prefixStr False 0) then False
      else if p = [] \<or> last p \<noteq> 42 then False
      else even (length (takeWhile (\<lambda>c. c = 92) (tl (rev p)))))"

section \<open>The meaning of a pattern\<close>

text \<open>
  A pattern is a sequence of stars and of single character tests. A class is a list of single characters,
  escaped characters, which are compared exactly, and ranges.
\<close>

datatype class_item = Single byte | Escaped byte | Range byte byte

datatype token = AnyString | AnyChar | CharClass bool "class_item list" | Literal byte

function class_items :: "buffer \<Rightarrow> class_item list \<times> buffer" where
  "class_items p =
     (if length p \<ge> 2 \<and> hd p = 92 then apfst ((#) (Escaped (p ! 1))) (class_items (drop 2 p))
      else if p = [] then ([], [])
      else if hd p = 93 then ([], tl p)
      else if length p \<ge> 3 \<and> p ! 1 = 45 then apfst ((#) (Range (hd p) (p ! 2))) (class_items (drop 3 p))
      else apfst ((#) (Single (hd p))) (class_items (tl p)))"
  by auto
termination
  by (relation "measure length") (auto simp: neq_Nil_conv)

declare class_items.simps [simp del]

fun item_matches :: "bool \<Rightarrow> byte \<Rightarrow> class_item \<Rightarrow> bool" where
  "item_matches nocase c (Single a) = same_char nocase a c"
| "item_matches nocase c (Escaped a) = (a = c)"
| "item_matches nocase c (Range a b) = in_range nocase a b c"

fun token_matches :: "bool \<Rightarrow> byte \<Rightarrow> token \<Rightarrow> bool" where
  "token_matches nocase c AnyString = False"
| "token_matches nocase c AnyChar = True"
| "token_matches nocase c (CharClass neg items) = ((\<exists>i\<in>set items. item_matches nocase c i) \<noteq> neg)"
| "token_matches nocase c (Literal a) = same_char nocase a c"

definition next_token :: "byte \<Rightarrow> buffer \<Rightarrow> token \<times> buffer" where
  "next_token a q =
     (if a = 42 then (AnyString, q)
      else if a = 63 then (AnyChar, q)
      else if a = 91 then
        (if q \<noteq> [] \<and> hd q = 94 then apfst (CharClass True) (class_items (tl q)) else apfst (CharClass False) (class_items q))
      else if a = 92 \<and> q \<noteq> [] then (Literal (hd q), tl q)
      else (Literal a, q))"

lemma class_items_length: "length (snd (class_items p)) \<le> length p"
proof (induction p rule: class_items.induct)
  case (1 p)
  show ?case by (subst class_items.simps) (use 1 in \<open>auto intro: le_trans\<close>)
qed

lemma next_token_length: "length (snd (next_token a q)) \<le> length q"
proof -
  have "length (snd (class_items (tl q))) \<le> length q" using class_items_length [of "tl q"] by simp
  then show ?thesis using class_items_length [of q] by (simp add: next_token_def)
qed

function tokens :: "buffer \<Rightarrow> token list" where
  "tokens [] = []"
| "tokens (a # q) = (case next_token a q of (t, r) \<Rightarrow> t # tokens r)"
  by pat_completeness auto
termination
proof (relation "measure length", goal_cases)
  case (2 a q t r)
  then show ?case using next_token_length [of a q] by (metis in_measure le_imp_less_Suc length_Cons snd_conv)
qed simp

fun glob :: "bool \<Rightarrow> token list \<Rightarrow> buffer \<Rightarrow> bool" where
  "glob nocase [] s = (s = [])"
| "glob nocase (AnyString # ts) [] = glob nocase ts []"
| "glob nocase (AnyString # ts) (c # s) = (glob nocase ts (c # s) \<or> glob nocase (AnyString # ts) s)"
| "glob nocase (t # ts) [] = False"
| "glob nocase (t # ts) (c # s) = (token_matches nocase c t \<and> glob nocase ts s)"

section \<open>The matcher implements the meaning\<close>

lemma classLoop_items:
  "classLoop nocase c p mtch =
   (mtch \<or> (\<exists>i\<in>set (fst (class_items p)). item_matches nocase c i), snd (class_items p))"
proof (induction nocase c p mtch rule: classLoop.induct)
  case (1 nocase c p mtch)
  show ?case by (subst classLoop.simps, subst (1 2) class_items.simps) (use 1 in auto)
qed

lemma matchChar_token:
  assumes "a \<noteq> 42"
  shows "matchChar nocase (a # q) c = (token_matches nocase c (fst (next_token a q)), snd (next_token a q))"
  using assms by (cases q) (auto simp: matchChar_def next_token_def classLoop_items Let_def)

lemma next_token_star: "fst (next_token a q) = AnyString \<longleftrightarrow> a = 42"
  by (simp add: next_token_def)

lemma glob_one:
  "t \<noteq> AnyString \<Longrightarrow> glob nocase (t # ts) s \<longleftrightarrow> (\<exists>c s'. s = c # s' \<and> token_matches nocase c t \<and> glob nocase ts s')"
  by (cases t; cases s) auto

lemma glob_star: "glob nocase (AnyString # ts) s \<longleftrightarrow> (\<exists>s'. suffix s' s \<and> glob nocase ts s')"
proof (induction s)
  case (Cons c s)
  show ?case by (auto simp: Cons suffix_Cons)
qed simp

lemma glob_stars: "glob nocase (AnyString # AnyString # ts) = glob nocase (AnyString # ts)"
proof
  fix s
  show "glob nocase (AnyString # AnyString # ts) s = glob nocase (AnyString # ts) s"
    unfolding glob_star [of _ "AnyString # ts"] glob_star [of _ ts] using suffix_order.trans by blast
qed

lemma tokens_star: "tokens (42 # q) = AnyString # tokens q"
  by (simp add: next_token_def)

lemma tokens_char:
  "a \<noteq> 42 \<Longrightarrow> tokens (a # q) = fst (next_token a q) # tokens (snd (next_token a q))"
  by (simp add: case_prod_beta)

declare tokens.simps(2) [simp del]

lemma glob_empty: "glob nocase (tokens p) [] \<longleftrightarrow> dropWhile (\<lambda>c. c = 42) p = []"
proof (induction p rule: tokens.induct)
  case (2 a q)
  show ?case
  proof (cases "a = 42")
    case True
    then show ?thesis using 2 [of AnyString q] by (simp add: tokens_star next_token_def)
  next
    case False
    then show ?thesis using glob_one [of "fst (next_token a q)" nocase _ "[]"] next_token_star [of a q]
      by (simp add: tokens_char)
  qed
qed simp

lemma skipStars_glob:
  "\<exists>q. skipStars (42 # p) = 42 # q \<and> (q = [] \<or> hd q \<noteq> 42) \<and> length q \<le> length p \<and>
    (\<forall>s. glob nocase (tokens (42 # p)) s = glob nocase (AnyString # tokens q) s) \<and>
    count_list (tokens q) AnyString \<le> count_list (tokens p) AnyString"
proof (induction p)
  case (Cons b p)
  show ?case
  proof (cases "b = 42")
    case True
    then obtain q where q: "skipStars (42 # p) = 42 # q" "q = [] \<or> hd q \<noteq> 42" "length q \<le> length p"
      "\<forall>s. glob nocase (tokens (42 # p)) s = glob nocase (AnyString # tokens q) s"
      "count_list (tokens q) AnyString \<le> count_list (tokens p) AnyString"
      using Cons by blast
    then show ?thesis using True by (intro exI [of _ q]) (simp add: tokens_star glob_stars)
  next
    case False
    then show ?thesis by (simp add: tokens_star)
  qed
qed (simp add: tokens_star)

text \<open>
  The result is the meaning. When \<^verbatim>\<open>*skipLongerMatches\<close> is set the result is negative, and no later
  position of the string could have given a match.
\<close>

definition match_ok :: "(buffer \<Rightarrow> bool) \<Rightarrow> buffer \<Rightarrow> bool \<times> bool \<Rightarrow> bool" where
  "match_ok M s r \<longleftrightarrow> fst r = M s \<and> (snd r \<longrightarrow> (\<forall>s'. suffix s' s \<longrightarrow> \<not> M s'))"

lemma match_ok_char:
  assumes "t \<noteq> AnyString" "token_matches nocase c t" "match_ok (glob nocase ts) s r"
  shows "match_ok (glob nocase (t # ts)) (c # s) r"
  using assms unfolding match_ok_def by (auto simp: glob_one suffix_Cons dest: suffix_ConsD)

lemma match_ok_star_later:
  assumes "\<not> glob nocase ts (c # s)" "match_ok (glob nocase (AnyString # ts)) s r"
  shows "match_ok (glob nocase (AnyString # ts)) (c # s) r"
  using assms unfolding match_ok_def by (auto simp: suffix_Cons)

lemma match_ok_star_now:
  assumes "match_ok (glob nocase ts) s r" "fst r \<or> snd r"
  shows "match_ok (glob nocase (AnyString # ts)) s r"
proof (cases "snd r")
  case True
  then have "\<forall>s'. suffix s' s \<longrightarrow> \<not> glob nocase ts s'" "\<not> fst r" using assms(1) by (auto simp: match_ok_def)
  then show ?thesis unfolding match_ok_def glob_star using suffix_order.trans by blast
next
  case False
  then show ?thesis using assms by (auto simp: match_ok_def glob_star)
qed

lemma matchLoop_ok:
  "s \<noteq> [] \<Longrightarrow> nesting + count_list (tokens p) AnyString \<le> 1000 \<Longrightarrow>
     match_ok (glob nocase (tokens p)) s (matchLoop nocase p s False nesting)"
  and starLoop_ok:
  "p \<noteq> [] \<Longrightarrow> hd p \<noteq> 42 \<Longrightarrow> Suc nesting + count_list (tokens p) AnyString \<le> 1000 \<Longrightarrow>
     match_ok (glob nocase (AnyString # tokens p)) s (starLoop nocase p s False nesting)"
proof (induction nocase p s "False" nesting and nocase p s "False" nesting rule: matchLoop_starLoop.induct)
  case (1 nocase p s nesting)
  then obtain c t where s: "s = c # t" by (cases s) auto
  show ?case
  proof (cases p)
    case Nil
    then show ?thesis using s by (simp add: matchLoop.simps match_ok_def)
  next
    case (Cons a q)
    show ?thesis
    proof (cases "a = 42")
      case True
      obtain q' where q': "skipStars (42 # q) = 42 # q'" "q' = [] \<or> hd q' \<noteq> 42"
        "glob nocase (tokens (42 # q)) = glob nocase (AnyString # tokens q')"
        "count_list (tokens q') AnyString \<le> count_list (tokens q) AnyString"
        using skipStars_glob [of q nocase] by blast
      show ?thesis
      proof (cases "q' = []")
        case star: True
        have "glob nocase (AnyString # tokens []) s" by (simp only: glob_star) (auto intro: exI [of _ "[]"])
        then show ?thesis using True Cons s q' star by (simp add: matchLoop.simps match_ok_def)
      next
        case False
        have "count_list (tokens p) AnyString = Suc (count_list (tokens q) AnyString)"
          by (simp add: Cons True tokens_star)
        then have "match_ok (glob nocase (AnyString # tokens q')) s (starLoop nocase q' s False nesting)"
          using 1(1) [of "42 # q'"] 1(3,4) False q' Cons True by simp
        then show ?thesis using True Cons s q' False by (simp add: matchLoop.simps)
      qed
    next
      case False
      let ?t = "fst (next_token a q)" and ?r = "snd (next_token a q)"
      have m: "matchChar nocase p (hd s) = (token_matches nocase c ?t, ?r)"
        using matchChar_token [OF False, of nocase q c] s Cons by simp
      have tk: "tokens p = ?t # tokens ?r" "?t \<noteq> AnyString" using False tokens_char next_token_star Cons by auto
      have run: "matchLoop nocase p s False nesting =
        (if \<not> token_matches nocase c ?t then (False, False)
         else if t = [] then (dropWhile (\<lambda>c. c = 42) ?r = [], False) else matchLoop nocase ?r t False nesting)"
        using m s Cons False by (subst matchLoop.simps) simp
      show ?thesis
      proof (cases "token_matches nocase c ?t")
        case True
        have "t \<noteq> [] \<Longrightarrow> match_ok (glob nocase (tokens ?r)) t (matchLoop nocase ?r t False nesting)"
          using 1(2) [OF _ _ refl m [symmetric]] 1(4) tk True s Cons False by simp
        moreover have "match_ok (glob nocase (tokens ?r)) [] (dropWhile (\<lambda>c. c = 42) ?r = [], False)"
          by (simp add: match_ok_def glob_empty)
        ultimately show ?thesis unfolding run unfolding s tk(1) using match_ok_char [OF tk(2) True] True by auto
      next
        case False
        then show ?thesis unfolding run unfolding s tk(1) by (simp add: match_ok_def glob_one [OF tk(2)])
      qed
    qed
  qed
next
  case (2 nocase p s nesting)
  show ?case
  proof (cases s)
    case Nil
    then show ?thesis using 2(3,4) by (subst starLoop.simps) (cases p; simp add: match_ok_def glob_empty)
  next
    case (Cons c t)
    let ?m = "matchLoop nocase p s False (nesting + 1)"
    have m: "match_ok (glob nocase (tokens p)) s ?m" using 2 Cons by simp
    have run: "starLoop nocase p s False nesting =
      (if fst ?m \<or> snd ?m then ?m else starLoop nocase p t False nesting)"
      using 2(5) Cons by (subst starLoop.simps) (auto simp: case_prod_beta prod_eq_iff)
    show ?thesis
    proof (cases "fst ?m \<or> snd ?m")
      case True
      then show ?thesis using run match_ok_star_now [OF m] by simp
    next
      case False
      then have "?m = (False, False)" by (simp add: prod_eq_iff)
      then have "match_ok (glob nocase (AnyString # tokens p)) t (starLoop nocase p t False nesting)"
        using 2 Cons by auto
      moreover have "\<not> glob nocase (tokens p) (c # t)" using m False Cons by (simp add: match_ok_def)
      ultimately show ?thesis using run False Cons match_ok_star_later by simp
    qed
  qed
qed

lemma stringmatchlen_glob:
  "s \<noteq> [] \<Longrightarrow> count_list (tokens p) AnyString \<le> 1000 \<Longrightarrow> stringmatchlen p s nocase = glob nocase (tokens p) s"
  using matchLoop_ok [of s 0 p nocase] by (simp add: stringmatchlen_def match_ok_def)

section \<open>Patterns that cover a prefix\<close>

lemma glob_append_star:
  "glob nocase (ts @ [AnyString]) s \<Longrightarrow> glob nocase (ts @ [AnyString]) (s @ u)"
proof (induction ts arbitrary: s)
  case Nil
  show ?case unfolding append_Nil glob_star by (intro exI [of _ "[]"]) simp
next
  case (Cons t ts)
  show ?case
  proof (cases "t = AnyString")
    case True
    then obtain s' where "suffix s' s" "glob nocase (ts @ [AnyString]) s'" using Cons.prems by (auto simp: glob_star)
    then show ?thesis using True Cons.IH by (auto simp: glob_star intro: exI [of _ "s' @ u"])
  next
    case False
    then show ?thesis using Cons by (auto simp: glob_one)
  qed
qed

text \<open>Without classes, a star at the end with an even number of backslashes before it is the last token.\<close>

lemma takeWhile_rev_all: "\<forall>x\<in>set q. P x \<Longrightarrow> length (takeWhile P (rev q)) = length q"
  by (metis length_rev set_rev takeWhile_eq_all_conv)

lemma takeWhile_rev_Cons:
  "length (takeWhile P (rev (a # q))) =
   (if \<forall>x\<in>set q. P x then length q + (if P a then 1 else 0) else length (takeWhile P (rev q)))"
  by (auto simp: takeWhile_append takeWhile_rev_all)

lemma tokens_final_star:
  assumes "91 \<notin> set p" "even (length (takeWhile (\<lambda>c. c = 92) (rev p)))"
  shows "\<exists>ts. tokens (p @ [42]) = ts @ [AnyString]"
  using assms
proof (induction p rule: tokens.induct)
  case 1
  then show ?case by (simp add: tokens_star)
next
  case (2 a q)
  have nt: "next_token a (q @ [42]) = apsnd (\<lambda>r. r @ [42]) (next_token a q)" if "\<not> (a = 92 \<and> q = [])"
    using that 2(2) by (auto simp: next_token_def neq_Nil_conv)
  have esc: "\<not> (a = 92 \<and> q = [])" using 2(3) by auto
  obtain t r where tr: "next_token a q = (t, r)" by fastforce
  have r: "a \<noteq> 92 \<and> r = q \<or> a = 92 \<and> (\<exists>b. q = b # r)"
    using tr 2(2) esc by (cases q) (auto simp: next_token_def split: if_splits)
  have "even (length (takeWhile (\<lambda>c. c = 92) (rev r)))"
    using r
  proof
    assume "a \<noteq> 92 \<and> r = q"
    then show ?thesis using 2(3) takeWhile_rev_all [of q "\<lambda>c. c = 92"]
      unfolding takeWhile_rev_Cons by (auto split: if_splits)
  next
    assume "a = 92 \<and> (\<exists>b. q = b # r)"
    then obtain b where q: "q = b # r" "a = 92" by blast
    show ?thesis using 2(3) takeWhile_rev_all [of r "\<lambda>c. c = 92"]
      unfolding q takeWhile_rev_Cons by (auto split: if_splits)
  qed
  moreover have "91 \<notin> set r" using r 2(2) by auto
  ultimately obtain ts where "tokens (r @ [42]) = ts @ [AnyString]" using 2(1) [OF tr [symmetric]] by blast
  then have "tokens ((a # q) @ [42]) = (t # ts) @ [AnyString]" using nt [OF esc] tr by (simp add: tokens.simps)
  then show ?case by blast
qed

section \<open>Properties\<close>



text \<open>
  CN: A pattern without character classes that passes \<^verbatim>\<open>prefixmatch\<close> for a prefix matches every string
  with that prefix.
\<close>

theorem prefixmatch_sound:
  assumes "91 \<notin> set p" "count_list (tokens p) AnyString \<le> 1000" "s \<noteq> []" "prefixmatch p s nocase"
  shows "stringmatchlen p (s @ u) nocase"
proof -
  have "p \<noteq> []" "last p = 42" and m: "stringmatchlen p s nocase"
    and e: "even (length (takeWhile (\<lambda>c. c = 92) (tl (rev p))))"
    using assms(4) by (auto simp: prefixmatch_def stringmatchlen_def split: if_splits)
  then obtain q where p: "p = q @ [42]" by (metis append_butlast_last_id)
  have "\<exists>ts. tokens p = ts @ [AnyString]" using tokens_final_star [of q] e assms(1) unfolding p by simp
  then show ?thesis
    using m stringmatchlen_glob [OF assms(3,2), of nocase] stringmatchlen_glob [of "s @ u" p nocase] assms(2,3)
      glob_append_star by fastforce
qed

theorem prefixmatch_sound_witness: "stringmatchlen [97, 42] ([97, 98] @ [99]) False"
proof -
  have t: "tokens [97, 42] = [Literal 97, AnyString]" by (simp add: tokens.simps next_token_def)
  then have "stringmatchlen [97, 42] [97, 98] False"
    using stringmatchlen_glob [of "[97, 98]" "[97, 42]" False] by (simp add: same_char_def)
  then have "prefixmatch [97, 42] [97, 98] False" by (simp add: prefixmatch_def stringmatchlen_def)
  then show ?thesis using prefixmatch_sound [of "[97, 42]" "[97, 98]" False "[99]"] t by simp
qed

text \<open>
  Inside an unterminated class the final star is a member of the class: the pattern \<^verbatim>\<open>[*\<close> passes
  \<^verbatim>\<open>prefixmatch\<close> for the prefix \<^verbatim>\<open>*\<close> and does not match the longer string \<^verbatim>\<open>*x\<close>.
\<close>

lemma prefixmatch_open_class:
  "prefixmatch [91, 42] [42] False \<and> \<not> stringmatchlen [91, 42] [42, 120] False"
proof -
  have "class_items [42] = ([Single 42], [])" by (simp add: class_items.simps)
  then have t: "tokens [91, 42] = [CharClass False [Single 42]]" by (simp add: tokens.simps next_token_def)
  have "stringmatchlen [91, 42] [42] False" "\<not> stringmatchlen [91, 42] [42, 120] False"
    using stringmatchlen_glob [of _ "[91, 42]" False] t by (simp_all add: same_char_def)
  then show ?thesis by (simp add: prefixmatch_def stringmatchlen_def)
qed

text \<open>
  Without regard to case the bounds of a range are put in order before they are converted to lower case:
  \<^verbatim>\<open>[Z-a]\<close> matches \<^verbatim>\<open>Z\<close> case sensitively and nothing at all otherwise.
\<close>

lemma nocase_range_empty:
  "stringmatchlen [91, 90, 45, 97, 93] [90] False \<and> \<not> stringmatchlen [91, 90, 45, 97, 93] [c] True"
proof -
  have "class_items [90, 45, 97, 93] = ([Range 90 97], [])" by (simp add: class_items.simps)
  then have t: "tokens [91, 90, 45, 97, 93] = [CharClass False [Range 90 97]]" by (simp add: tokens.simps next_token_def)
  show ?thesis
    using stringmatchlen_glob [of _ "[91, 90, 45, 97, 93]"] t by (simp add: in_range_def lower_int_def Let_def)
qed

text \<open>A star does not match the empty string, which ends the loop before the first pattern character.\<close>

lemma stringmatchlen_empty: "stringmatchlen p [] nocase = (p = [])"
  by (simp add: stringmatchlen_def matchLoop.simps)

end
