(* ===== verification/Listpack.thy ===== *)
theory Listpack
  imports Numerals
begin

text \<open>
  The listpacks of \<^verbatim>\<open>src/redis-stable/src/listpack.c\<close>: lists of strings and integers serialised into one
  block of bytes. A listpack is its allocation; its length is the usable size. An element pointer is an
  offset into the block, NULL is \<^const>\<open>None\<close>. All accesses are checked. Multi byte integers of the format
  are little endian and read and written with \<^const>\<open>le_val\<close> and \<^const>\<open>le_bytes\<close>. What the allocator
  chooses, the usable size of a request and the contents of fresh memory, is a parameter.
\<close>

section \<open>Encodings\<close>

abbreviation LP_HDR_SIZE :: int where "LP_HDR_SIZE \<equiv> 6"
abbreviation LP_HDR_NUMELE_UNKNOWN :: nat where "LP_HDR_NUMELE_UNKNOWN \<equiv> 65535"
abbreviation LP_INTBUF_SIZE :: nat where "LP_INTBUF_SIZE \<equiv> 21"
abbreviation LP_EOF :: byte where "LP_EOF \<equiv> 0xFF"

definition LP_ENCODING_IS_7BIT_UINT :: "byte \<Rightarrow> bool" where
  "LP_ENCODING_IS_7BIT_UINT b \<longleftrightarrow> b AND 0x80 = 0"

definition LP_ENCODING_IS_6BIT_STR :: "byte \<Rightarrow> bool" where
  "LP_ENCODING_IS_6BIT_STR b \<longleftrightarrow> b AND 0xC0 = 0x80"

definition LP_ENCODING_IS_13BIT_INT :: "byte \<Rightarrow> bool" where
  "LP_ENCODING_IS_13BIT_INT b \<longleftrightarrow> b AND 0xE0 = 0xC0"

definition LP_ENCODING_IS_12BIT_STR :: "byte \<Rightarrow> bool" where
  "LP_ENCODING_IS_12BIT_STR b \<longleftrightarrow> b AND 0xF0 = 0xE0"

definition LP_ENCODING_6BIT_STR_LEN :: "buffer \<Rightarrow> int \<Rightarrow> nat result" where
  "LP_ENCODING_6BIT_STR_LEN lp p = res_bind (rd lp p) (\<lambda>b. Inr (unat (b AND 0x3F)))"

definition LP_ENCODING_12BIT_STR_LEN :: "buffer \<Rightarrow> int \<Rightarrow> nat result" where
  "LP_ENCODING_12BIT_STR_LEN lp p =
     res_bind (rd lp p) (\<lambda>b0. res_bind (rd lp (p + 1)) (\<lambda>b1.
     Inr (push_bit 8 (unat (b0 AND 0xF)) OR unat b1)))"

definition LP_ENCODING_32BIT_STR_LEN :: "buffer \<Rightarrow> int \<Rightarrow> nat result" where
  "LP_ENCODING_32BIT_STR_LEN lp p = res_bind (rdn lp (p + 1) 4) (\<lambda>b. Inr (nat (le_val b)))"

definition lpGetTotalBytes :: "buffer \<Rightarrow> nat result" where
  "lpGetTotalBytes lp = res_bind (rdn lp 0 4) (\<lambda>b. Inr (nat (le_val b)))"

definition lpGetNumElements :: "buffer \<Rightarrow> nat result" where
  "lpGetNumElements lp = res_bind (rdn lp 4 2) (\<lambda>b. Inr (nat (le_val b)))"

definition lpSetTotalBytes :: "buffer \<Rightarrow> int \<Rightarrow> buffer result" where
  "lpSetTotalBytes lp v = wrn lp 0 (le_bytes 4 v)"

definition lpSetNumElements :: "buffer \<Rightarrow> int \<Rightarrow> buffer result" where
  "lpSetNumElements lp v = wrn lp 4 (le_bytes 2 v)"

definition ASSERT_INTEGRITY :: "buffer \<Rightarrow> int \<Rightarrow> unit result" where
  "ASSERT_INTEGRITY lp p =
     res_bind (lpGetTotalBytes lp) (\<lambda>n. res_assert (p \<ge> LP_HDR_SIZE \<and> p < int n))"

definition ASSERT_INTEGRITY_LEN :: "buffer \<Rightarrow> int \<Rightarrow> nat \<Rightarrow> unit result" where
  "ASSERT_INTEGRITY_LEN lp p len =
     res_bind (lpGetTotalBytes lp) (\<lambda>n. res_assert (p \<ge> LP_HDR_SIZE \<and> p + int len < int n))"

definition lpSafeToAdd :: "buffer option \<Rightarrow> nat \<Rightarrow> bool result" where
  "lpSafeToAdd lp add =
     res_bind (case lp of Some lp \<Rightarrow> lpGetTotalBytes lp | None \<Rightarrow> Inr 0) (\<lambda>len.
     Inr (\<not> (len + add) mod 2 ^ 64 > 2 ^ 30))"

text \<open>\<^verbatim>\<open>lpStringToInt64\<close> repeats the code of \<^verbatim>\<open>string2ll\<close>.\<close>

definition lpStringToInt64 :: "buffer \<Rightarrow> nat \<Rightarrow> int option result" where
  "lpStringToInt64 s slen = string2ll s slen"

text \<open>What the allocator chooses.\<close>

record allocator =
  usable_size :: "nat \<Rightarrow> nat"
  fresh_byte :: "nat \<Rightarrow> byte"

definition lp_malloc :: "allocator \<Rightarrow> nat \<Rightarrow> buffer" where
  "lp_malloc A n = map (fresh_byte A) [0..<usable_size A n]"

definition lp_realloc :: "allocator \<Rightarrow> buffer \<Rightarrow> nat \<Rightarrow> buffer" where
  "lp_realloc A lp n = zrealloc (fresh_byte A) lp (usable_size A n)"

definition lpNew :: "allocator \<Rightarrow> nat \<Rightarrow> buffer result" where
  "lpNew A capacity =
     (let lp = lp_malloc A (if capacity > 7 then capacity else 7) in
      res_bind (lpSetTotalBytes lp 7) (\<lambda>lp.
      res_bind (lpSetNumElements lp 0) (\<lambda>lp.
      wr lp LP_HDR_SIZE LP_EOF)))"

definition lpShrinkToFit :: "allocator \<Rightarrow> buffer \<Rightarrow> buffer result" where
  "lpShrinkToFit A lp =
     res_bind (lpGetTotalBytes lp) (\<lambda>sz.
     Inr (if sz < length lp then lp_realloc A lp sz else lp))"

definition lpEncodeIntegerGetType :: "int \<Rightarrow> buffer" where
  "lpEncodeIntegerGetType v =
     (if v \<ge> 0 \<and> v \<le> 127 then [word_of_int v]
      else if v \<ge> -4096 \<and> v \<le> 4095 then
        (let v = (if v < 0 then 2 ^ 13 + v else v)
         in [word_of_int (drop_bit 8 v OR 0xC0), word_of_int (v AND 0xff)])
      else if v \<ge> -32768 \<and> v \<le> 32767 then
        (let v = (if v < 0 then 2 ^ 16 + v else v) in 0xF1 # le_bytes 2 v)
      else if v \<ge> -8388608 \<and> v \<le> 8388607 then
        (let v = (if v < 0 then 2 ^ 24 + v else v) in 0xF2 # le_bytes 3 v)
      else if v \<ge> -2147483648 \<and> v \<le> 2147483647 then
        (let v = (if v < 0 then 2 ^ 32 + v else v) in 0xF3 # le_bytes 4 v)
      else 0xF4 # le_bytes 8 v)"

text \<open>The integer encoding, if there is one, and the length of the encoded element.\<close>

definition lpEncodeGetType :: "buffer \<Rightarrow> nat \<Rightarrow> (buffer option \<times> nat) result" where
  "lpEncodeGetType ele sz =
     res_bind (lpStringToInt64 ele sz) (\<lambda>r.
     case r of
       Some v \<Rightarrow> Inr (Some (lpEncodeIntegerGetType v), length (lpEncodeIntegerGetType v))
     | None \<Rightarrow> Inr (None, if sz < 64 then 1 + sz else if sz < 4096 then 2 + sz else 5 + sz))"

definition lpEncodeBacklen :: "nat \<Rightarrow> buffer" where
  "lpEncodeBacklen l =
     (if l \<le> 127 then [of_nat l]
      else if l < 16383 then [of_nat (drop_bit 7 l), of_nat ((l AND 127) OR 128)]
      else if l < 2097151 then
        [of_nat (drop_bit 14 l), of_nat ((drop_bit 7 l AND 127) OR 128), of_nat ((l AND 127) OR 128)]
      else if l < 268435455 then
        [of_nat (drop_bit 21 l), of_nat ((drop_bit 14 l AND 127) OR 128),
         of_nat ((drop_bit 7 l AND 127) OR 128), of_nat ((l AND 127) OR 128)]
      else
        [of_nat (drop_bit 28 l), of_nat ((drop_bit 21 l AND 127) OR 128),
         of_nat ((drop_bit 14 l AND 127) OR 128), of_nat ((drop_bit 7 l AND 127) OR 128),
         of_nat ((l AND 127) OR 128)])"

definition lpEncodeBacklenBytes :: "nat \<Rightarrow> nat" where
  "lpEncodeBacklenBytes l =
     (if l \<le> 127 then 1 else if l < 16383 then 2 else if l < 2097151 then 3
      else if l < 268435455 then 4 else 5)"

definition lpDecodeBacklen :: "buffer \<Rightarrow> int \<Rightarrow> nat result" where
  "lpDecodeBacklen lp p =
     res_bind (rd lp p) (\<lambda>b0.
     if b0 AND 128 = 0 then Inr (unat (b0 AND 127))
     else
       let val = unat (b0 AND 127) in
       res_bind (rd lp (p - 1)) (\<lambda>b1.
       if b1 AND 128 = 0 then Inr (val OR push_bit 7 (unat (b1 AND 127)))
       else
         let val = val OR push_bit 7 (unat (b1 AND 127)) in
         res_bind (rd lp (p - 2)) (\<lambda>b2.
         if b2 AND 128 = 0 then Inr (val OR push_bit 14 (unat (b2 AND 127)))
         else
           let val = val OR push_bit 14 (unat (b2 AND 127)) in
           res_bind (rd lp (p - 3)) (\<lambda>b3.
           if b3 AND 128 = 0 then Inr (val OR push_bit 21 (unat (b3 AND 127)))
           else
             let val = val OR push_bit 21 (unat (b3 AND 127)) in
             res_bind (rd lp (p - 4)) (\<lambda>b4.
             if b4 AND 128 = 0 then Inr (val OR push_bit 28 (unat (b4 AND 127)))
             else Inr (2 ^ 64 - 1))))))"

text \<open>The bytes that \<^verbatim>\<open>lpEncodeString\<close> stores for a string.\<close>

definition lpEncodeString :: "buffer \<Rightarrow> buffer" where
  "lpEncodeString s =
     (let len = length s in
      if len < 64 then of_nat (len OR 0x80) # s
      else if len < 4096 then of_nat (drop_bit 8 len OR 0xE0) # of_nat (len AND 0xff) # s
      else 0xF0 # le_bytes 4 (int len) @ s)"

definition lpCurrentEncodedSizeUnsafe :: "buffer \<Rightarrow> int \<Rightarrow> nat result" where
  "lpCurrentEncodedSizeUnsafe lp p =
     res_bind (rd lp p) (\<lambda>b.
     if LP_ENCODING_IS_7BIT_UINT b then Inr 1
     else if LP_ENCODING_IS_6BIT_STR b then res_bind (LP_ENCODING_6BIT_STR_LEN lp p) (\<lambda>n. Inr (1 + n))
     else if LP_ENCODING_IS_13BIT_INT b then Inr 2
     else if b = 0xF1 then Inr 3
     else if b = 0xF2 then Inr 4
     else if b = 0xF3 then Inr 5
     else if b = 0xF4 then Inr 9
     else if LP_ENCODING_IS_12BIT_STR b then res_bind (LP_ENCODING_12BIT_STR_LEN lp p) (\<lambda>n. Inr (2 + n))
     else if b = 0xF0 then res_bind (LP_ENCODING_32BIT_STR_LEN lp p) (\<lambda>n. Inr ((5 + n) mod 2 ^ 32))
     else if b = LP_EOF then Inr 1
     else Inr 0)"

definition lpCurrentEncodedSizeBytes :: "byte \<Rightarrow> nat" where
  "lpCurrentEncodedSizeBytes b =
     (if LP_ENCODING_IS_7BIT_UINT b then 1
      else if LP_ENCODING_IS_6BIT_STR b then 1
      else if LP_ENCODING_IS_13BIT_INT b then 1
      else if b = 0xF1 then 1
      else if b = 0xF2 then 1
      else if b = 0xF3 then 1
      else if b = 0xF4 then 1
      else if LP_ENCODING_IS_12BIT_STR b then 2
      else if b = 0xF0 then 5
      else if b = LP_EOF then 1
      else 0)"

definition lpSkip :: "buffer \<Rightarrow> int \<Rightarrow> int result" where
  "lpSkip lp p =
     res_bind (lpCurrentEncodedSizeUnsafe lp p) (\<lambda>n. Inr (p + int (n + lpEncodeBacklenBytes n)))"

section \<open>Validation and navigation\<close>

text \<open>The entry at \<open>pp\<close> and the reference advanced to the next one.\<close>

definition lpValidateNext :: "buffer \<Rightarrow> int option \<Rightarrow> nat \<Rightarrow> (int option \<times> bool) result" where
  "lpValidateNext lp pp lpbytes =
     (let out_of_range = (\<lambda>p. p < LP_HDR_SIZE \<or> p > int lpbytes - 1) in
      case pp of
        None \<Rightarrow> Inr (pp, False)
      | Some p \<Rightarrow>
          if out_of_range p then Inr (pp, False)
          else
            res_bind (rd lp p) (\<lambda>b.
            if b = LP_EOF then Inr (None, True)
            else
              let lenbytes = lpCurrentEncodedSizeBytes b in
              if lenbytes = 0 then Inr (pp, False)
              else if out_of_range (p + int lenbytes) then Inr (pp, False)
              else
                res_bind (lpCurrentEncodedSizeUnsafe lp p) (\<lambda>n.
                let encodedBacklen = lpEncodeBacklenBytes n; entrylen = n + encodedBacklen in
                if out_of_range (p + int entrylen) then Inr (pp, False)
                else
                  let p = p + int entrylen in
                  res_bind (lpDecodeBacklen lp (p - 1)) (\<lambda>prevlen.
                  if (prevlen + encodedBacklen) mod 2 ^ 64 \<noteq> entrylen then Inr (pp, False)
                  else Inr (Some p, True)))))"

definition lpAssertValidEntry :: "buffer \<Rightarrow> nat \<Rightarrow> int \<Rightarrow> unit result" where
  "lpAssertValidEntry lp lpbytes p =
     res_bind (lpValidateNext lp (Some p) lpbytes) (\<lambda>(_, ok). res_assert ok)"

definition lpBytes :: "buffer \<Rightarrow> nat result" where
  "lpBytes lp = lpGetTotalBytes lp"

definition lpNextWithBytes :: "buffer \<Rightarrow> int \<Rightarrow> nat \<Rightarrow> int option result" where
  "lpNextWithBytes lp p lpbytes =
     res_bind (lpSkip lp p) (\<lambda>p.
     res_bind (rd lp p) (\<lambda>b.
     if b = LP_EOF then Inr None
     else res_bind (lpAssertValidEntry lp lpbytes p) (\<lambda>_. Inr (Some p))))"

definition lpNext :: "buffer \<Rightarrow> int \<Rightarrow> int option result" where
  "lpNext lp p =
     res_bind (lpSkip lp p) (\<lambda>p.
     res_bind (rd lp p) (\<lambda>b.
     if b = LP_EOF then Inr None
     else res_bind (lpBytes lp) (\<lambda>n. res_bind (lpAssertValidEntry lp n p) (\<lambda>_. Inr (Some p)))))"

text \<open>
  A backlen that does not decode is \<^verbatim>\<open>UINT64_MAX\<close>, and the sum with its size wraps; the pointer arithmetic
  \<^verbatim>\<open>p -= prevlen-1\<close> is modulo \<open>2^64\<close> too.
\<close>

definition lpPrev :: "buffer \<Rightarrow> int \<Rightarrow> int option result" where
  "lpPrev lp p =
     (if p = LP_HDR_SIZE then Inr None
      else
        let p = p - 1 in
        res_bind (lpDecodeBacklen lp p) (\<lambda>prevlen.
        let prevlen = (prevlen + lpEncodeBacklenBytes prevlen) mod 2 ^ 64;
            p = p - to_ll (nat ((int prevlen - 1) mod 2 ^ 64)) in
        res_bind (lpBytes lp) (\<lambda>n.
        res_bind (lpAssertValidEntry lp n p) (\<lambda>_. Inr (Some p)))))"

definition lpFirst :: "buffer \<Rightarrow> int option result" where
  "lpFirst lp =
     res_bind (rd lp LP_HDR_SIZE) (\<lambda>b.
     if b = LP_EOF then Inr None
     else res_bind (lpBytes lp) (\<lambda>n. res_bind (lpAssertValidEntry lp n LP_HDR_SIZE) (\<lambda>_. Inr (Some LP_HDR_SIZE))))"

definition lpLast :: "buffer \<Rightarrow> int option result" where
  "lpLast lp = res_bind (lpGetTotalBytes lp) (\<lambda>n. lpPrev lp (int n - 1))"

lemma lpEncodeBacklenBytes_pos: "0 < lpEncodeBacklenBytes n"
  by (simp add: lpEncodeBacklenBytes_def)

lemma rd_range: "rd xs i = Inr x \<Longrightarrow> 0 \<le> i \<and> i < int (length xs)"
  by (simp add: rd_def split: if_splits)

lemma lpSkip_forward: "lpSkip lp p = Inr p' \<Longrightarrow> p < p'"
  using lpEncodeBacklenBytes_pos by (auto simp: lpSkip_def intro!: add_nonneg_pos)

lemma lpValidateNext_forward: "lpValidateNext lp (Some p) n = Inr (Some p', True) \<Longrightarrow> p < p'"
  using lpEncodeBacklenBytes_pos by (auto simp: lpValidateNext_def Let_def split: if_splits intro!: add_nonneg_pos)

lemma lpNext_forward: "lpNext lp p = Inr (Some p') \<Longrightarrow> p < p' \<and> p' < int (length lp)"
  using lpSkip_forward rd_range by (fastforce simp: lpNext_def split: if_splits)

function lpLengthLoop :: "buffer \<Rightarrow> int option \<Rightarrow> nat \<Rightarrow> nat result" where
  "lpLengthLoop lp None count = Inr count"
| "lpLengthLoop lp (Some p) count =
     res_bind (lpNext lp p) (\<lambda>p. lpLengthLoop lp p ((count + 1) mod 2 ^ 32))"
  by pat_completeness auto
termination
proof (relation "measure (\<lambda>(lp, p, count). case p of None \<Rightarrow> 0 | Some p \<Rightarrow> Suc (nat (int (length lp) - p)))", goal_cases)
  case (2 lp p count p')
  then show ?case using lpNext_forward [of lp p] by (cases p') auto
qed simp

definition lpLength :: "buffer \<Rightarrow> (buffer \<times> nat) result" where
  "lpLength lp =
     res_bind (lpGetNumElements lp) (\<lambda>numele.
     if numele \<noteq> LP_HDR_NUMELE_UNKNOWN then Inr (lp, numele)
     else
       res_bind (lpFirst lp) (\<lambda>p.
       res_bind (lpLengthLoop lp p 0) (\<lambda>count.
       if count < LP_HDR_NUMELE_UNKNOWN then res_bind (lpSetNumElements lp (int count)) (\<lambda>lp. Inr (lp, count))
       else Inr (lp, count))))"

fun seekForward :: "buffer \<Rightarrow> nat \<Rightarrow> int option \<Rightarrow> int option result" where
  "seekForward lp (Suc n) (Some ele) = res_bind (lpNext lp ele) (seekForward lp n)"
| "seekForward lp n ele = Inr ele"

fun seekBackward :: "buffer \<Rightarrow> nat \<Rightarrow> int option \<Rightarrow> int option result" where
  "seekBackward lp (Suc n) (Some ele) = res_bind (lpPrev lp ele) (seekBackward lp n)"
| "seekBackward lp n ele = Inr ele"

definition lpSeek :: "buffer \<Rightarrow> int \<Rightarrow> int option result" where
  "lpSeek lp index =
     res_bind (lpGetNumElements lp) (\<lambda>numele.
     let r =
       (if numele \<noteq> LP_HDR_NUMELE_UNKNOWN then
          (let index = (if index < 0 then int numele + index else index) in
           if index < 0 then None
           else if index \<ge> int numele then None
           else if index > int (numele div 2) then Some (False, index - int numele)
           else Some (True, index))
        else Some (\<not> index < 0, index)) in
     case r of
       None \<Rightarrow> Inr None
     | Some (forward, index) \<Rightarrow>
         if forward then res_bind (lpFirst lp) (seekForward lp (nat index))
         else res_bind (lpLast lp) (seekBackward lp (nat (- 1 - index))))"

function validateEntriesLoop :: "buffer \<Rightarrow> nat \<Rightarrow> int \<Rightarrow> nat \<Rightarrow> (int \<times> nat) option result" where
  "validateEntriesLoop lp bytes p count =
     res_bind (rd lp p) (\<lambda>b.
     if b = LP_EOF then Inr (Some (p, count))
     else
       res_bind (lpValidateNext lp (Some p) bytes) (\<lambda>(p', ok).
       if \<not> ok then Inr None
       else case p' of
         None \<Rightarrow> Inr None
       | Some p' \<Rightarrow> validateEntriesLoop lp bytes p' ((count + 1) mod 2 ^ 32)))"
  by pat_completeness auto
termination
  by (relation "measure (\<lambda>(lp, bytes, p, count). nat (int (length lp) - p))")
    (auto dest!: rd_range lpValidateNext_forward)

declare validateEntriesLoop.simps [simp del]

text \<open>
  \<^verbatim>\<open>lpValidateIntegrity\<close> without a callback.
\<close>

definition lpValidateIntegrity :: "buffer \<Rightarrow> nat \<Rightarrow> bool \<Rightarrow> bool result" where
  "lpValidateIntegrity lp sz deep =
     (if sz < 7 then Inr False
      else
        res_bind (lpGetTotalBytes lp) (\<lambda>bytes.
        if bytes \<noteq> sz then Inr False
        else
          res_bind (rd lp (int sz - 1)) (\<lambda>b.
          if b \<noteq> LP_EOF then Inr False
          else if \<not> deep then Inr True
          else
            res_bind (lpGetNumElements lp) (\<lambda>numele.
            res_bind (validateEntriesLoop lp bytes LP_HDR_SIZE 0) (\<lambda>r.
            Inr (case r of
              None \<Rightarrow> False
            | Some (p, count) \<Rightarrow>
                p = int sz - 1 \<and> \<not> (numele \<noteq> LP_HDR_NUMELE_UNKNOWN \<and> numele \<noteq> count)))))))"

section \<open>Reading elements\<close>

text \<open>
  What \<^verbatim>\<open>lpGet\<close> gives: a pointer into the listpack with a length, the caller's \<^verbatim>\<open>intbuf\<close> with a length, or
  NULL and an integer.
\<close>

datatype lp_got = GotPtr int nat | GotBuf nat | GotInt int

text \<open>The fields \<^verbatim>\<open>uval\<close>, \<^verbatim>\<open>negstart\<close> and \<^verbatim>\<open>negmax\<close> of an integer encoding.\<close>

definition lpIntFields :: "buffer \<Rightarrow> int \<Rightarrow> byte \<Rightarrow> (nat \<times> nat \<times> nat) result" where
  "lpIntFields lp p encoding =
     (if LP_ENCODING_IS_7BIT_UINT encoding then Inr (unat (encoding AND 0x7f), 2 ^ 64 - 1, 0)
      else if LP_ENCODING_IS_13BIT_INT encoding then
        res_bind (rd lp (p + 1)) (\<lambda>b1. Inr (push_bit 8 (unat (encoding AND 0x1f)) OR unat b1, 2 ^ 12, 8191))
      else if encoding = 0xF1 then res_bind (rdn lp (p + 1) 2) (\<lambda>b. Inr (nat (le_val b), 2 ^ 15, 2 ^ 16 - 1))
      else if encoding = 0xF2 then res_bind (rdn lp (p + 1) 3) (\<lambda>b. Inr (nat (le_val b), 2 ^ 23, 2 ^ 24 - 1))
      else if encoding = 0xF3 then res_bind (rdn lp (p + 1) 4) (\<lambda>b. Inr (nat (le_val b), 2 ^ 31, 2 ^ 32 - 1))
      else if encoding = 0xF4 then res_bind (rdn lp (p + 1) 8) (\<lambda>b. Inr (nat (le_val b), 2 ^ 63, 2 ^ 64 - 1))
      else Inr (12345678900000000 + unat encoding, 2 ^ 64 - 1, 0))"

definition lpSigned :: "nat \<times> nat \<times> nat \<Rightarrow> int" where
  "lpSigned r = (case r of (uval, negstart, negmax) \<Rightarrow>
     if uval \<ge> negstart then - to_ll (nat ((int negmax - int uval) mod 2 ^ 64)) - 1 else to_ll uval)"

definition lpGetWithBuf :: "buffer \<Rightarrow> int \<Rightarrow> buffer option \<Rightarrow> (lp_got \<times> buffer option) result" where
  "lpGetWithBuf lp p intbuf =
     res_bind (rd lp p) (\<lambda>encoding.
     if LP_ENCODING_IS_6BIT_STR encoding then
       res_bind (LP_ENCODING_6BIT_STR_LEN lp p) (\<lambda>n. Inr (GotPtr (p + 1) n, intbuf))
     else if LP_ENCODING_IS_12BIT_STR encoding then
       res_bind (LP_ENCODING_12BIT_STR_LEN lp p) (\<lambda>n. Inr (GotPtr (p + 2) n, intbuf))
     else if encoding = 0xF0 then
       res_bind (LP_ENCODING_32BIT_STR_LEN lp p) (\<lambda>n. Inr (GotPtr (p + 5) n, intbuf))
     else
       res_bind (lpIntFields lp p encoding) (\<lambda>r.
       let val = lpSigned r in
       case intbuf of
         Some buf \<Rightarrow> res_bind (ll2string buf LP_INTBUF_SIZE val) (\<lambda>(buf, n). Inr (GotBuf n, Some buf))
       | None \<Rightarrow> Inr (GotInt val, None)))"

definition lpGet :: "buffer \<Rightarrow> int \<Rightarrow> buffer option \<Rightarrow> (lp_got \<times> buffer option) result" where
  "lpGet lp p intbuf = lpGetWithBuf lp p intbuf"

definition lpGetValue :: "buffer \<Rightarrow> int \<Rightarrow> lp_got result" where
  "lpGetValue lp p = res_bind (lpGet lp p None) (\<lambda>(g, _). Inr g)"

definition lpGetIntegerValue :: "buffer \<Rightarrow> int \<Rightarrow> int option result" where
  "lpGetIntegerValue lp p =
     res_bind (lpGet lp p None) (\<lambda>(g, _). Inr (case g of GotInt v \<Rightarrow> Some v | _ \<Rightarrow> None))"

text \<open>
  \<^verbatim>\<open>lpGetWithSize\<close> without a buffer also gives the length of the entry; on an encoding that is not one
  \<^verbatim>\<open>entry_size\<close> keeps its value.
\<close>

definition lpGetWithSize :: "buffer \<Rightarrow> int \<Rightarrow> nat \<Rightarrow> (lp_got \<times> nat) result" where
  "lpGetWithSize lp p entry_size =
     res_bind (rd lp p) (\<lambda>b.
     let int_got = (\<lambda>n. res_bind (lpIntFields lp p b) (\<lambda>r. Inr (GotInt (lpSigned r), n))) in
     if LP_ENCODING_IS_7BIT_UINT b then int_got 2
     else if LP_ENCODING_IS_6BIT_STR b then
       res_bind (LP_ENCODING_6BIT_STR_LEN lp p) (\<lambda>n. Inr (GotPtr (p + 1) n, 1 + n + lpEncodeBacklenBytes (n + 1)))
     else if LP_ENCODING_IS_13BIT_INT b then int_got 3
     else if b = 0xF1 then int_got 4
     else if b = 0xF2 then int_got 5
     else if b = 0xF3 then int_got 6
     else if b = 0xF4 then int_got 10
     else if LP_ENCODING_IS_12BIT_STR b then
       res_bind (LP_ENCODING_12BIT_STR_LEN lp p) (\<lambda>n. Inr (GotPtr (p + 2) n, 2 + n + lpEncodeBacklenBytes (n + 2)))
     else if b = 0xF0 then
       res_bind (LP_ENCODING_32BIT_STR_LEN lp p) (\<lambda>n. Inr (GotPtr (p + 5) n, 5 + n + lpEncodeBacklenBytes (n + 5)))
     else int_got entry_size)"

section \<open>Search\<close>

text \<open>
  The loop of \<^verbatim>\<open>lpFindCbInternal\<close>. The comparator may change its own state \<open>user\<close>; it answers whether the
  element is the one.
\<close>

function lpFindLoop ::
  "('u \<Rightarrow> buffer \<Rightarrow> int \<Rightarrow> lp_got \<Rightarrow> ('u \<times> bool) result) \<Rightarrow> buffer \<Rightarrow> nat \<Rightarrow> nat \<Rightarrow> 'u \<Rightarrow> int \<Rightarrow> nat \<Rightarrow> nat \<Rightarrow>
   ('u \<times> int option) result" where
  "lpFindLoop cmp lp lp_bytes skip user p skipcnt entry_size =
     res_bind
       (if skipcnt = 0 then
          res_bind (lpGetWithSize lp p entry_size) (\<lambda>(value, entry_size).
          res_bind (case value of
              GotPtr _ _ \<Rightarrow> res_assert (p \<ge> LP_HDR_SIZE \<and> p + int entry_size < int lp_bytes)
            | _ \<Rightarrow> Inr ()) (\<lambda>_.
          res_bind (cmp user lp p value) (\<lambda>(user, found).
          Inr (user, if found then None else Some (p + int entry_size), skip, entry_size))))
        else
          res_bind (lpSkip lp p) (\<lambda>p. Inr (user, Some p, skipcnt - 1, entry_size)))
       (\<lambda>(user, p', skipcnt, entry_size).
        case p' of
          None \<Rightarrow> Inr (user, Some p)
        | Some p' \<Rightarrow>
            res_bind (if p' + 8 \<ge> int lp_bytes then lpAssertValidEntry lp lp_bytes p'
                      else res_assert (p' \<ge> LP_HDR_SIZE \<and> p' < int lp_bytes)) (\<lambda>_.
            res_bind (rd lp p') (\<lambda>b.
            if b = LP_EOF then Inr (user, None)
            else if p' \<le> p then Inl Diverges
            else lpFindLoop cmp lp lp_bytes skip user p' skipcnt entry_size)))"
  by pat_completeness auto
termination
  by (relation "measure (\<lambda>(cmp, lp, lp_bytes, skip, user, p, skipcnt, entry_size). nat (int (length lp) - p))")
    (auto dest!: rd_range)

declare lpFindLoop.simps [simp del]

definition lpFindCb ::
  "buffer \<Rightarrow> int option \<Rightarrow> 'u \<Rightarrow> ('u \<Rightarrow> buffer \<Rightarrow> int \<Rightarrow> lp_got \<Rightarrow> ('u \<times> bool) result) \<Rightarrow> nat \<Rightarrow> ('u \<times> int option) result" where
  "lpFindCb lp p user cmp skip =
     res_bind (lpBytes lp) (\<lambda>lp_bytes.
     res_bind (case p of None \<Rightarrow> lpFirst lp | Some p \<Rightarrow> Inr (Some p)) (\<lambda>p.
     case p of
       None \<Rightarrow> Inr (user, None)
     | Some p \<Rightarrow> lpFindLoop cmp lp lp_bytes skip user p 0 123456789))"

record lpFindArg =
  fa_s :: buffer
  fa_slen :: nat
  fa_vencoding :: nat
  fa_vll :: int

definition lpFindCmp :: "lpFindArg \<Rightarrow> buffer \<Rightarrow> int \<Rightarrow> lp_got \<Rightarrow> (lpFindArg \<times> bool) result" where
  "lpFindCmp arg lp p value =
     (case value of
        GotPtr s slen \<Rightarrow>
          if slen = fa_slen arg then
            res_bind (rdn lp s slen) (\<lambda>b. res_bind (rdn (fa_s arg) 0 slen) (\<lambda>b'. Inr (arg, b' = b)))
          else Inr (arg, False)
      | GotBuf _ \<Rightarrow> Inr (arg, False)
      | GotInt v \<Rightarrow>
          res_bind
            (if fa_vencoding arg = 0 then
               (if fa_slen arg \<ge> 32 \<or> fa_slen arg = 0 then Inr (arg\<lparr>fa_vencoding := 255\<rparr>)
                else res_bind (lpStringToInt64 (fa_s arg) (fa_slen arg)) (\<lambda>r.
                  Inr (case r of None \<Rightarrow> arg\<lparr>fa_vencoding := 255\<rparr>
                       | Some vll \<Rightarrow> arg\<lparr>fa_vencoding := 1, fa_vll := vll\<rparr>)))
             else Inr arg)
            (\<lambda>arg. Inr (arg, fa_vencoding arg \<noteq> 255 \<and> v = fa_vll arg)))"

definition lpFind :: "buffer \<Rightarrow> int option \<Rightarrow> buffer \<Rightarrow> nat \<Rightarrow> nat \<Rightarrow> int option result" where
  "lpFind lp p s slen skip =
     res_bind (lpFindCb lp p \<lparr>fa_s = s, fa_slen = slen, fa_vencoding = 0, fa_vll = 0\<rparr> lpFindCmp skip) (\<lambda>(_, r). Inr r)"

text \<open>\<^verbatim>\<open>lpCompare\<close>; the cache is NULL or the pair of \<^verbatim>\<open>*cached_valid\<close> and \<^verbatim>\<open>*cached_longval\<close>.\<close>

definition lpCompare :: "buffer \<Rightarrow> int \<Rightarrow> buffer \<Rightarrow> nat \<Rightarrow> (int \<times> int) option \<Rightarrow> (bool \<times> (int \<times> int) option) result" where
  "lpCompare lp p s slen cache =
     res_bind (rd lp p) (\<lambda>b.
     if b = LP_EOF then Inr (False, cache)
     else
       res_bind (lpGet lp p None) (\<lambda>(g, _).
       case g of
         GotPtr value sz \<Rightarrow>
           if slen = sz then
             res_bind (rdn lp value sz) (\<lambda>b. res_bind (rdn s 0 sz) (\<lambda>b'. Inr (b = b', cache)))
           else Inr (False, cache)
       | GotBuf _ \<Rightarrow> Inr (False, cache)
       | GotInt v \<Rightarrow>
           (case cache of
              Some (valid, longval) \<Rightarrow>
                res_bind
                  (if valid = 0 then
                     res_bind (lpStringToInt64 s slen) (\<lambda>r.
                     Inr (case r of Some l \<Rightarrow> (1, l) | None \<Rightarrow> (- 1, longval)))
                   else Inr (valid, longval))
                  (\<lambda>(valid, longval). Inr (valid = 1 \<and> v = longval, Some (valid, longval)))
            | None \<Rightarrow>
                res_bind (lpStringToInt64 s slen) (\<lambda>r.
                Inr (case r of Some sval \<Rightarrow> v = sval | None \<Rightarrow> False, None)))))"

section \<open>Changing a listpack\<close>

datatype lp_where = LP_BEFORE | LP_AFTER | LP_REPLACE

definition memmove :: "buffer \<Rightarrow> int \<Rightarrow> int \<Rightarrow> nat \<Rightarrow> buffer result" where
  "memmove lp dst src n = res_bind (rdn lp src n) (\<lambda>b. wrn lp dst b)"

text \<open>The bytes of the element: the integer encoding, or the string with its header.\<close>

definition lpInsertPayload :: "buffer option \<Rightarrow> buffer option \<Rightarrow> nat \<Rightarrow> nat \<Rightarrow> buffer result" where
  "lpInsertPayload elestr eleint sz enclen =
     (case eleint of
        Some b \<Rightarrow> rdn b 0 enclen
      | None \<Rightarrow>
          (case elestr of
             Some s \<Rightarrow> res_bind (rdn s 0 sz) (\<lambda>s. Inr (lpEncodeString s))
           | None \<Rightarrow> Inl AssertFailed))"

text \<open>The second half of \<^verbatim>\<open>lpInsert\<close>: making room, storing the entry and updating the header.\<close>

definition lpInsertStore ::
  "allocator \<Rightarrow> buffer \<Rightarrow> int \<Rightarrow> bool \<Rightarrow> lp_where \<Rightarrow> buffer result \<Rightarrow> nat \<Rightarrow> buffer \<Rightarrow> nat \<Rightarrow> nat \<Rightarrow>
   (buffer \<times> int option) option result" where
  "lpInsertStore A lp p delete whr payload enclen backlen old_bytes replaced_len =
     (let backlen_size = length backlen;
          new_bytes = nat ((int old_bytes + int enclen + int backlen_size - int replaced_len) mod 2 ^ 64) in
      if new_bytes > 2 ^ 32 - 1 then Inr None
      else
        let lp = (if new_bytes > old_bytes \<and> new_bytes > length lp then lp_realloc A lp new_bytes else lp) in
        res_bind
          (if whr = LP_BEFORE then memmove lp (p + int enclen + int backlen_size) p (old_bytes - nat p)
           else memmove lp (p + int enclen + int backlen_size) (p + int replaced_len)
                  (old_bytes - nat p - replaced_len)) (\<lambda>lp.
        let lp = (if new_bytes < old_bytes then lp_realloc A lp new_bytes else lp) in
        res_bind
          (if delete then res_bind (rd lp p) (\<lambda>b. Inr (if b = LP_EOF then None else Some p)) else Inr (Some p)) (\<lambda>newp.
        res_bind
          (if delete then Inr lp
           else res_bind payload (\<lambda>b. res_bind (wrn lp p b) (\<lambda>lp. wrn lp (p + int enclen) backlen))) (\<lambda>lp.
        res_bind
          (if whr \<noteq> LP_REPLACE \<or> delete then
             res_bind (lpGetNumElements lp) (\<lambda>n.
             if n \<noteq> LP_HDR_NUMELE_UNKNOWN
             then lpSetNumElements lp (if \<not> delete then int n + 1 else int n - 1) else Inr lp)
           else Inr lp) (\<lambda>lp.
        res_bind (lpSetTotalBytes lp (int new_bytes)) (\<lambda>lp. Inr (Some (lp, newp))))))))"

text \<open>
  \<^verbatim>\<open>lpInsert\<close>: the new listpack and \<^verbatim>\<open>*newp\<close>, or \<^const>\<open>None\<close> for the NULL of a listpack that would
  become too large. The string has its own block of memory.
\<close>

definition lpInsert ::
  "allocator \<Rightarrow> buffer \<Rightarrow> buffer option \<Rightarrow> buffer option \<Rightarrow> nat \<Rightarrow> int \<Rightarrow> lp_where \<Rightarrow> (buffer \<times> int option) option result" where
  "lpInsert A lp elestr eleint sz p whr =
     (let delete = (elestr = None \<and> eleint = None); whr = (if delete then LP_REPLACE else whr) in
      res_bind
        (if whr = LP_AFTER then
           res_bind (lpSkip lp p) (\<lambda>p. res_bind (ASSERT_INTEGRITY lp p) (\<lambda>_. Inr (p, LP_BEFORE)))
         else Inr (p, whr)) (\<lambda>(p, whr).
      res_bind
        (case elestr of
           Some s \<Rightarrow> lpEncodeGetType s sz
         | None \<Rightarrow> Inr (eleint, if eleint = None then 0 else sz)) (\<lambda>(eleint, enclen).
      let backlen = (if delete then [] else lpEncodeBacklen enclen) in
      res_bind (lpGetTotalBytes lp) (\<lambda>old_bytes.
      res_bind
        (if whr = LP_REPLACE then
           res_bind (lpCurrentEncodedSizeUnsafe lp p) (\<lambda>n.
           let n = (n + lpEncodeBacklenBytes n) mod 2 ^ 32 in
           res_bind (ASSERT_INTEGRITY_LEN lp p n) (\<lambda>_. Inr n))
         else Inr 0) (\<lambda>replaced_len.
      lpInsertStore A lp p delete whr (lpInsertPayload elestr eleint sz enclen) enclen backlen old_bytes replaced_len)))))"

definition lpInsertString ::
  "allocator \<Rightarrow> buffer \<Rightarrow> buffer \<Rightarrow> nat \<Rightarrow> int \<Rightarrow> lp_where \<Rightarrow> (buffer \<times> int option) option result" where
  "lpInsertString A lp s slen p whr = lpInsert A lp (Some s) None slen p whr"

definition lpInsertInteger ::
  "allocator \<Rightarrow> buffer \<Rightarrow> int \<Rightarrow> int \<Rightarrow> lp_where \<Rightarrow> (buffer \<times> int option) option result" where
  "lpInsertInteger A lp lval p whr =
     (let intenc = lpEncodeIntegerGetType lval in lpInsert A lp None (Some intenc) (length intenc) p whr)"

definition lpAppend :: "allocator \<Rightarrow> buffer \<Rightarrow> buffer \<Rightarrow> nat \<Rightarrow> (buffer \<times> int option) option result" where
  "lpAppend A lp ele sz =
     res_bind (lpGetTotalBytes lp) (\<lambda>n. lpInsert A lp (Some ele) None sz (int n - 1) LP_BEFORE)"

definition lpAppendInteger :: "allocator \<Rightarrow> buffer \<Rightarrow> int \<Rightarrow> (buffer \<times> int option) option result" where
  "lpAppendInteger A lp lval =
     res_bind (lpGetTotalBytes lp) (\<lambda>n. lpInsertInteger A lp lval (int n - 1) LP_BEFORE)"

definition lpPrepend :: "allocator \<Rightarrow> buffer \<Rightarrow> buffer \<Rightarrow> nat \<Rightarrow> (buffer \<times> int option) option result" where
  "lpPrepend A lp s slen =
     res_bind (lpFirst lp) (\<lambda>p.
     case p of None \<Rightarrow> lpAppend A lp s slen | Some p \<Rightarrow> lpInsert A lp (Some s) None slen p LP_BEFORE)"

definition lpPrependInteger :: "allocator \<Rightarrow> buffer \<Rightarrow> int \<Rightarrow> (buffer \<times> int option) option result" where
  "lpPrependInteger A lp lval =
     res_bind (lpFirst lp) (\<lambda>p.
     case p of None \<Rightarrow> lpAppendInteger A lp lval | Some p \<Rightarrow> lpInsertInteger A lp lval p LP_BEFORE)"

definition lpReplace :: "allocator \<Rightarrow> buffer \<Rightarrow> int \<Rightarrow> buffer \<Rightarrow> nat \<Rightarrow> (buffer \<times> int option) option result" where
  "lpReplace A lp p s slen = lpInsert A lp (Some s) None slen p LP_REPLACE"

definition lpReplaceInteger :: "allocator \<Rightarrow> buffer \<Rightarrow> int \<Rightarrow> int \<Rightarrow> (buffer \<times> int option) option result" where
  "lpReplaceInteger A lp p lval = lpInsertInteger A lp lval p LP_REPLACE"

definition lpDelete :: "allocator \<Rightarrow> buffer \<Rightarrow> int \<Rightarrow> (buffer \<times> int option) option result" where
  "lpDelete A lp p = lpInsert A lp None None 0 p LP_REPLACE"

text \<open>The loop that looks for the entry behind the range, and the number of entries passed.\<close>

fun deleteRangeLoop :: "buffer \<Rightarrow> nat \<Rightarrow> nat \<Rightarrow> int \<Rightarrow> nat \<Rightarrow> (int \<times> nat) result" where
  "deleteRangeLoop lp bytes 0 tail deleted = Inr (tail, deleted)"
| "deleteRangeLoop lp bytes (Suc cnt) tail deleted =
     res_bind (lpSkip lp tail) (\<lambda>tail.
     res_bind (rd lp tail) (\<lambda>b.
     if b = LP_EOF then Inr (tail, deleted + 1)
     else res_bind (lpAssertValidEntry lp bytes tail) (\<lambda>_. deleteRangeLoop lp bytes cnt tail (deleted + 1))))"

definition lpDeleteRangeWithEntry :: "allocator \<Rightarrow> buffer \<Rightarrow> int \<Rightarrow> nat \<Rightarrow> (buffer \<times> int option) result" where
  "lpDeleteRangeWithEntry A lp p cnt =
     res_bind (lpBytes lp) (\<lambda>bytes.
     if cnt = 0 then Inr (lp, Some p)
     else
       res_bind (deleteRangeLoop lp bytes cnt p 0) (\<lambda>(tail, deleted).
       res_bind (memmove lp p tail (nat (int bytes - tail))) (\<lambda>lp.
       res_bind (lpSetTotalBytes lp (int bytes - (tail - p))) (\<lambda>lp.
       res_bind (lpGetNumElements lp) (\<lambda>numele.
       res_bind (if numele \<noteq> LP_HDR_NUMELE_UNKNOWN then lpSetNumElements lp (int numele - int deleted) else Inr lp) (\<lambda>lp.
       res_bind (lpShrinkToFit A lp) (\<lambda>lp.
       res_bind (rd lp p) (\<lambda>b. Inr (lp, if b = LP_EOF then None else Some p)))))))))"

definition lpDeleteRange :: "allocator \<Rightarrow> buffer \<Rightarrow> int \<Rightarrow> nat \<Rightarrow> buffer result" where
  "lpDeleteRange A lp index cnt =
     res_bind (lpGetNumElements lp) (\<lambda>numele.
     if cnt = 0 then Inr lp
     else
       res_bind (lpSeek lp index) (\<lambda>p.
       case p of
         None \<Rightarrow> Inr lp
       | Some p \<Rightarrow>
           let index = (if numele \<noteq> LP_HDR_NUMELE_UNKNOWN \<and> index < 0 then int numele + index else index) in
           if numele \<noteq> LP_HDR_NUMELE_UNKNOWN \<and> (int numele - index) mod 2 ^ 64 \<le> int cnt then
             res_bind (wr lp p LP_EOF) (\<lambda>lp.
             res_bind (lpSetTotalBytes lp (p + 1)) (\<lambda>lp.
             res_bind (lpSetNumElements lp index) (\<lambda>lp. lpShrinkToFit A lp)))
           else res_bind (lpDeleteRangeWithEntry A lp p cnt) (\<lambda>(lp, _). Inr lp)))"

text \<open>The loop over the pointers \<open>ps\<close> that moves what lies between them to \<open>dst\<close>.\<close>

fun batchDeleteLoop :: "buffer \<Rightarrow> int \<Rightarrow> int list \<Rightarrow> int \<Rightarrow> (buffer \<times> int) result" where
  "batchDeleteLoop lp lp_end [] dst = Inr (lp, dst)"
| "batchDeleteLoop lp lp_end (skip # ps) dst =
     res_bind (rd lp skip) (\<lambda>b.
     res_bind (res_assert (b \<noteq> LP_EOF)) (\<lambda>_.
     res_bind (lpSkip lp skip) (\<lambda>keep_start.
     let keep_end = (case ps of p # _ \<Rightarrow> p | [] \<Rightarrow> lp_end) in
     if ps \<noteq> [] \<and> keep_start = keep_end then batchDeleteLoop lp lp_end ps dst
     else
       res_bind (res_assert (keep_end > keep_start)) (\<lambda>_.
       let n = nat (keep_end - keep_start) in
       res_bind (memmove lp dst keep_start n) (\<lambda>lp. batchDeleteLoop lp lp_end ps (dst + int n))))))"

definition lpBatchDelete :: "allocator \<Rightarrow> buffer \<Rightarrow> int list \<Rightarrow> buffer result" where
  "lpBatchDelete A lp ps =
     (case ps of
        [] \<Rightarrow> Inr lp
      | dst # _ \<Rightarrow>
          res_bind (lpGetTotalBytes lp) (\<lambda>total.
          res_bind (rd lp (int total - 1)) (\<lambda>b.
          res_bind (res_assert (b = LP_EOF)) (\<lambda>_.
          res_bind (batchDeleteLoop lp (int total) ps dst) (\<lambda>(lp, dst).
          let total = int total - (int total - dst) in
          res_bind (rd lp (total - 1)) (\<lambda>b.
          res_bind (res_assert (b = LP_EOF)) (\<lambda>_.
          res_bind (lpSetTotalBytes lp total) (\<lambda>lp.
          res_bind (lpGetNumElements lp) (\<lambda>numele.
          res_bind (if numele \<noteq> LP_HDR_NUMELE_UNKNOWN then lpSetNumElements lp (int numele - int (length ps)) else Inr lp) (\<lambda>lp.
          lpShrinkToFit A lp))))))))))"

text \<open>
  \<^verbatim>\<open>lpMerge\<close> of two listpacks in different blocks. The larger one is extended; the result does not depend
  on which.
\<close>

definition lpMerge :: "allocator \<Rightarrow> buffer \<Rightarrow> buffer \<Rightarrow> buffer result" where
  "lpMerge A first second =
     res_bind (lpBytes first) (\<lambda>first_bytes.
     res_bind (lpLength first) (\<lambda>(first, first_len).
     res_bind (lpBytes second) (\<lambda>second_bytes.
     res_bind (lpLength second) (\<lambda>(second, second_len).
     let append = (first_bytes \<ge> second_bytes);
         (target, target_bytes, source, source_bytes) =
           (if append then (first, first_bytes, second, second_bytes) else (second, second_bytes, first, first_bytes));
         lpbytes = first_bytes + second_bytes - 7 in
     res_bind (res_assert (lpbytes < 2 ^ 32 - 1)) (\<lambda>_.
     let lplength = first_len + second_len;
         lplength = (if lplength < 65535 then lplength else 65535);
         target = lp_realloc A target lpbytes in
     res_bind
       (if append then
          res_bind (rdn source LP_HDR_SIZE (source_bytes - 6)) (\<lambda>b. wrn target (int target_bytes - 1) b)
        else
          res_bind (memmove target (int source_bytes - 1) LP_HDR_SIZE (target_bytes - 6)) (\<lambda>target.
          res_bind (rdn source 0 (source_bytes - 1)) (\<lambda>b. wrn target 0 b))) (\<lambda>target.
     res_bind (lpSetNumElements target (int lplength)) (\<lambda>target.
     lpSetTotalBytes target (int lpbytes))))))))"

definition lpDup :: "allocator \<Rightarrow> buffer \<Rightarrow> buffer result" where
  "lpDup A lp =
     res_bind (lpBytes lp) (\<lambda>n.
     res_bind (rdn lp 0 n) (\<lambda>b. wrn (lp_malloc A n) 0 b))"

definition lpEntrySizeInteger :: "int \<Rightarrow> nat" where
  "lpEntrySizeInteger lval =
     (let enclen = length (lpEncodeIntegerGetType lval) in enclen + lpEncodeBacklenBytes enclen)"

definition lpEstimateBytesRepeatedInteger :: "int \<Rightarrow> nat \<Rightarrow> nat" where
  "lpEstimateBytesRepeatedInteger lval rep = (6 + lpEntrySizeInteger lval * rep + 1) mod 2 ^ 64"

section \<open>Inserting many elements\<close>

record listpackEntry =
  le_s :: "buffer option"
  le_slen :: nat
  le_l :: int

text \<open>The first loop: encoding, encoded length and backlen of every entry.\<close>

fun batchEncodeLoop :: "listpackEntry list \<Rightarrow> (buffer option \<times> nat \<times> buffer) list result" where
  "batchEncodeLoop [] = Inr []"
| "batchEncodeLoop (e # es) =
     res_bind
       (case le_s e of
          Some s \<Rightarrow> lpEncodeGetType s (le_slen e)
        | None \<Rightarrow> Inr (Some (lpEncodeIntegerGetType (le_l e)), length (lpEncodeIntegerGetType (le_l e)))) (\<lambda>(intenc, enclen).
     res_bind (batchEncodeLoop es) (\<lambda>r. Inr ((intenc, enclen, lpEncodeBacklen enclen) # r)))"

text \<open>The second loop stores the entries one behind the other.\<close>

fun batchStoreLoop ::
  "(listpackEntry \<times> buffer option \<times> nat \<times> buffer) list \<Rightarrow> buffer \<Rightarrow> int \<Rightarrow> int \<Rightarrow> (buffer \<times> int) result" where
  "batchStoreLoop [] lp dst newp = Inr (lp, newp)"
| "batchStoreLoop ((ent, intenc, enclen, backlen) # r) lp dst newp =
     res_bind
       (case intenc of
          Some b \<Rightarrow> res_bind (rdn b 0 enclen) (\<lambda>b. wrn lp dst b)
        | None \<Rightarrow> (case le_s ent of
            Some s \<Rightarrow> res_bind (rdn s 0 (le_slen ent)) (\<lambda>s. wrn lp dst (lpEncodeString s))
          | None \<Rightarrow> Inl OutOfBounds)) (\<lambda>lp.
     res_bind (wrn lp (dst + int enclen) backlen) (\<lambda>lp.
     batchStoreLoop r lp (dst + int enclen + int (length backlen)) dst))"

definition lpBatchInsert ::
  "allocator \<Rightarrow> buffer \<Rightarrow> int \<Rightarrow> lp_where \<Rightarrow> listpackEntry list \<Rightarrow> (buffer \<times> int) option result" where
  "lpBatchInsert A lp p whr entries =
     res_bind (res_assert (whr = LP_BEFORE \<or> whr = LP_AFTER)) (\<lambda>_.
     res_bind (res_assert (entries \<noteq> [])) (\<lambda>_.
     res_bind
       (if whr = LP_AFTER then res_bind (lpSkip lp p) (\<lambda>p. res_bind (ASSERT_INTEGRITY lp p) (\<lambda>_. Inr p)) else Inr p) (\<lambda>p.
     res_bind (batchEncodeLoop entries) (\<lambda>enc.
     let addedlen = sum_list (map (\<lambda>(_, enclen, backlen). enclen + length backlen) enc) in
     res_bind (lpGetTotalBytes lp) (\<lambda>old_bytes.
     let new_bytes = old_bytes + addedlen in
     if new_bytes > 2 ^ 32 - 1 then Inr None
     else
       let lp = (if new_bytes > old_bytes \<and> new_bytes > length lp then lp_realloc A lp new_bytes else lp) in
       res_bind (memmove lp (p + int addedlen) p (old_bytes - nat p)) (\<lambda>lp.
       res_bind (batchStoreLoop (zip entries enc) lp p p) (\<lambda>(lp, newp).
       res_bind (lpGetNumElements lp) (\<lambda>n.
       res_bind
         (if n \<noteq> LP_HDR_NUMELE_UNKNOWN then
            if int (length entries) > int LP_HDR_NUMELE_UNKNOWN - int n then lpSetNumElements lp (int LP_HDR_NUMELE_UNKNOWN)
            else lpSetNumElements lp (int n + int (length entries))
          else Inr lp) (\<lambda>lp.
       res_bind (lpSetTotalBytes lp (int new_bytes)) (\<lambda>lp. Inr (Some (lp, newp))))))))))))"

definition lpBatchAppend :: "allocator \<Rightarrow> buffer \<Rightarrow> listpackEntry list \<Rightarrow> (buffer \<times> int) option result" where
  "lpBatchAppend A lp entries =
     res_bind (lpGetTotalBytes lp) (\<lambda>n. lpBatchInsert A lp (int n - 1) LP_BEFORE entries)"

end
