(* ===== verification/Listpack_Codec.thy ===== *)
theory Listpack_Codec
  imports Listpack
begin

text \<open>
  The encodings of listpack elements: the meaning of the encoding byte, the length of an encoded element,
  its value, and that reading an encoded element inside any block gives back what was encoded.
\<close>

section \<open>The encoding byte\<close>

lemma nat_and_push: "(n :: nat) AND push_bit k m = push_bit k (drop_bit k n AND m)"
  by (rule bit_eqI) (auto simp: bit_simps)

lemma unat_and_high:
  fixes b :: byte
  assumes "k \<le> 8" "unat m = 2 ^ k * (2 ^ (8 - k) - 1)"
  shows "unat (b AND m) = 2 ^ k * (unat b div 2 ^ k)"
proof -
  have "unat b div 2 ^ k < 2 ^ (8 - k)"
    using assms(1) unat_byte_less [of b] by (simp add: less_mult_imp_div_less flip: power_add)
  then have "drop_bit k (unat b) AND (2 ^ (8 - k) - 1) = unat b div 2 ^ k"
    unfolding nat_and_low by (simp add: drop_bit_eq_div)
  moreover have "unat m = push_bit k (2 ^ (8 - k) - 1)" using assms(2) by (simp add: push_bit_eq_mult mult.commute)
  ultimately show ?thesis using nat_and_push [of "unat b" k "2 ^ (8 - k) - 1"]
    by (simp add: unsigned_and_eq push_bit_eq_mult mult.commute)
qed

lemma div_block: "0 < k \<Longrightarrow> n div k = c \<longleftrightarrow> k * c \<le> n \<and> n < k * Suc c" for n k c :: nat
  using div_nat_eqI [of k c n] times_div_less_eq_dividend [of k n] dividend_less_times_div [of k n] by auto

lemma mod_block: "k * c \<le> n \<Longrightarrow> n < k * Suc c \<Longrightarrow> n mod k = n - k * c" for n k c :: nat
  using div_nat_eqI [of k c n] by (simp add: modulo_nat_def mult.commute)

lemma byte_tests:
  fixes b :: byte
  shows "((b AND 0x80 = 0) \<longleftrightarrow> unat b < 128) \<and> ((b AND 0xC0 = 0x80) \<longleftrightarrow> 128 \<le> unat b \<and> unat b < 192) \<and>
    ((b AND 0xE0 = 0xC0) \<longleftrightarrow> 192 \<le> unat b \<and> unat b < 224) \<and> ((b AND 0xF0 = 0xE0) \<longleftrightarrow> 224 \<le> unat b \<and> unat b < 240) \<and>
    unat (b AND 0x7f) = unat b mod 128 \<and> unat (b AND 0x3F) = unat b mod 64 \<and>
    unat (b AND 0x1f) = unat b mod 32 \<and> unat (b AND 0xF) = unat b mod 16"
proof -
  have high: "unat (b AND 0x80) = 128 * (unat b div 128)" "unat (b AND 0xC0) = 64 * (unat b div 64)"
    "unat (b AND 0xE0) = 32 * (unat b div 32)" "unat (b AND 0xF0) = 16 * (unat b div 16)"
    using unat_and_high [of 7 "0x80" b] unat_and_high [of 6 "0xC0" b] unat_and_high [of 5 "0xE0" b] unat_and_high [of 4 "0xF0" b]
    by simp_all
  have low: "unat (b AND 0x7f) = unat b mod 128" "unat (b AND 0x3F) = unat b mod 64"
    "unat (b AND 0x1f) = unat b mod 32" "unat (b AND 0xF) = unat b mod 16"
    using nat_and_low [of "unat b" 7] nat_and_low [of "unat b" 6] nat_and_low [of "unat b" 5] nat_and_low [of "unat b" 4]
    by (simp_all add: unsigned_and_eq)
  have "128 * (n div 128) = 0 \<longleftrightarrow> n < 128" "64 * (n div 64) = 128 \<longleftrightarrow> 128 \<le> n \<and> n < 192"
    "32 * (n div 32) = 192 \<longleftrightarrow> 192 \<le> n \<and> n < 224" "16 * (n div 16) = 224 \<longleftrightarrow> 224 \<le> n \<and> n < 240" for n :: nat
    using div_block [of 128 n 0] div_block [of 64 n 2] div_block [of 32 n 6] div_block [of 16 n 14] by auto
  then show ?thesis unfolding word_unat_eq_iff high low by simp
qed

lemma encoding_tests:
  "LP_ENCODING_IS_7BIT_UINT b \<longleftrightarrow> unat b < 128"
  "LP_ENCODING_IS_6BIT_STR b \<longleftrightarrow> 128 \<le> unat b \<and> unat b < 192"
  "LP_ENCODING_IS_13BIT_INT b \<longleftrightarrow> 192 \<le> unat b \<and> unat b < 224"
  "LP_ENCODING_IS_12BIT_STR b \<longleftrightarrow> 224 \<le> unat b \<and> unat b < 240"
  using byte_tests [of b]
  by (simp_all add: LP_ENCODING_IS_7BIT_UINT_def LP_ENCODING_IS_6BIT_STR_def LP_ENCODING_IS_13BIT_INT_def
      LP_ENCODING_IS_12BIT_STR_def)

lemma byte_masks:
  fixes b :: byte
  shows "(b AND 0x80 = 0) \<longleftrightarrow> unat b < 128" "unat (b AND 0x7f) = unat b mod 128" "unat (b AND 0x3F) = unat b mod 64"
    "unat (b AND 0x1f) = unat b mod 32" "unat (b AND 0xF) = unat b mod 16"
  using byte_tests [of b] by simp_all

lemma byte_eq: "(b :: byte) = c \<longleftrightarrow> unat b = unat c"
  by (rule word_unat_eq_iff)

section \<open>Encoded elements\<close>

definition lp_size :: "buffer \<Rightarrow> nat" where
  "lp_size e =
     (let b = unat (hd e) in
      if b < 128 then 1
      else if b < 192 then 1 + (b - 128)
      else if b < 224 then 2
      else if b < 240 then 2 + ((b - 224) * 256 + unat (e ! 1))
      else if b = 0xF0 then 5 + nat (le_val (take 4 (tl e)))
      else if b = 0xF1 then 3
      else if b = 0xF2 then 4
      else if b = 0xF3 then 5
      else if b = 0xF4 then 9
      else 0)"

text \<open>A well formed encoded element, without its backlen.\<close>

definition lp_enc :: "buffer \<Rightarrow> bool" where
  "lp_enc e \<longleftrightarrow> e \<noteq> [] \<and> lp_size e = length e \<and> length e < 2 ^ 32"

lemma lp_enc_hd: "lp_enc e \<Longrightarrow> hd e \<noteq> LP_EOF"
  by (auto simp: lp_enc_def lp_size_def)

lemma rd_hd: "e \<noteq> [] \<Longrightarrow> rd (pre @ e @ post) (int (length pre)) = Inr (hd e)"
  using rd_append_nth [of 0 e pre post] by (simp add: hd_conv_nth)

lemma len_12bit: "push_bit 8 (a mod 16) OR unat (b :: byte) = a mod 16 * 256 + unat b"
  using nat_or_push [of "unat b" 8 "a mod 16"] unat_byte_less [of b] by (simp add: or.commute add.commute mult.commute)

lemma encoded_size_at:
  assumes "lp_enc e"
  shows "lpCurrentEncodedSizeUnsafe (pre @ e @ post) (int (length pre)) = Inr (length e)"
proof -
  let ?lp = "pre @ e @ post" and ?p = "int (length pre)"
  have e: "e \<noteq> []" "lp_size e = length e" "length e < 2 ^ 32" using assms by (simp_all add: lp_enc_def)
  have r: "rd ?lp ?p = Inr (hd e)" using rd_hd [OF e(1)] .
  have r1: "Suc 0 < length e \<Longrightarrow> rd ?lp (?p + 1) = Inr (e ! Suc 0)" using rd_append_nth [of "Suc 0" e pre post] by simp
  have r4: "5 \<le> length e \<Longrightarrow> rdn ?lp (?p + 1) 4 = Inr (take 4 (tl e))"
    using rdn_append_sub [of 1 4 e pre post] by (simp add: drop_Suc)
  have m: "unat (hd e) < 192 \<Longrightarrow> 128 \<le> unat (hd e) \<Longrightarrow> unat (hd e) mod 64 = unat (hd e) - 128"
    "unat (hd e) < 240 \<Longrightarrow> 224 \<le> unat (hd e) \<Longrightarrow> unat (hd e) mod 16 = unat (hd e) - 224"
    using mod_block [of 64 2 "unat (hd e)"] mod_block [of 16 14 "unat (hd e)"] by simp_all
  show ?thesis using e r r1 r4 m
    unfolding lpCurrentEncodedSizeUnsafe_def lp_size_def Let_def
    by (auto simp: encoding_tests byte_eq LP_ENCODING_6BIT_STR_LEN_def LP_ENCODING_12BIT_STR_LEN_def
        LP_ENCODING_32BIT_STR_LEN_def byte_masks len_12bit split: if_splits)
qed

lemma size_bytes_le: "lp_enc e \<Longrightarrow> 0 < lpCurrentEncodedSizeBytes (hd e) \<and> lpCurrentEncodedSizeBytes (hd e) \<le> length e"
  unfolding lp_enc_def lp_size_def Let_def lpCurrentEncodedSizeBytes_def
  by (auto simp: encoding_tests byte_eq split: if_splits)

section \<open>Backward lengths\<close>

lemma length_backlen: "length (lpEncodeBacklen l) = lpEncodeBacklenBytes l"
  by (simp add: lpEncodeBacklen_def lpEncodeBacklenBytes_def)

lemma backlen_byte: "unat (of_nat ((x AND 127) OR 128) :: byte) = x mod 128 + 128" for x :: nat
proof -
  have "x AND 127 = x mod 128" using nat_and_low [of x 7] by simp
  moreover have "x mod 128 OR 128 = x mod 128 + 128" using nat_or_push [of "x mod 128" 7 1] by simp
  ultimately show ?thesis using unat_byte_of_nat [of "x mod 128 + 128"] by simp
qed

lemma or_shift7:
  "a < 128 \<Longrightarrow> a OR push_bit 7 b = a + 128 * b"
  "a < 16384 \<Longrightarrow> a OR push_bit 14 b = a + 16384 * b"
  "a < 2097152 \<Longrightarrow> a OR push_bit 21 b = a + 2097152 * b"
  "a < 268435456 \<Longrightarrow> a OR push_bit 28 b = a + 268435456 * b" for a :: nat
  using nat_or_push [of a 7 b] nat_or_push [of a 14 b] nat_or_push [of a 21 b] nat_or_push [of a 28 b] by simp_all

lemma digits_128:
  "l mod 128 + 128 * (l div 128 mod 128) = l mod 16384"
  "l mod 16384 + 16384 * (l div 16384 mod 128) = l mod 2097152"
  "l mod 2097152 + 2097152 * (l div 2097152 mod 128) = l mod 268435456" for l :: nat
  using mod_mult2_eq [of l 128 128] mod_mult2_eq [of l 16384 128] mod_mult2_eq [of l 2097152 128] by simp_all

lemma top_digit:
  "l < 128 * m \<Longrightarrow> l div m mod 128 = l div m" for l :: nat
  by (cases "m = 0") (simp_all add: less_mult_imp_div_less)

lemma more_byte:
  "(of_nat ((x AND 127) OR 128) :: byte) AND 128 \<noteq> 0" "unat ((of_nat ((x AND 127) OR 128) :: byte) AND 127) = x mod 128"
  for x :: nat
  using backlen_byte [of x] by (simp_all add: byte_masks)

lemma last_byte:
  "x < 128 \<Longrightarrow> (of_nat x :: byte) AND 128 = 0" "x < 128 \<Longrightarrow> unat ((of_nat x :: byte) AND 127) = x" for x :: nat
  by (simp_all add: byte_masks unat_of_nat)

lemma decode_backlen_at:
  assumes "l < 2 ^ 35" "bl = lpEncodeBacklen l"
  shows "lpDecodeBacklen (pre @ bl @ post) (int (length pre) + int (length bl) - 1) = Inr l"
proof -
  let ?lp = "pre @ bl @ post" and ?p = "int (length pre) + int (length bl) - 1"
  have at: "rd ?lp (?p - int j) = Inr (bl ! (length bl - 1 - j))" if "j < length bl" for j
    using rd_append_nth [of "length bl - 1 - j" bl pre post] that by (simp add: of_nat_diff algebra_simps)
  have at0: "0 < length bl \<Longrightarrow> rd ?lp ?p = Inr (bl ! (length bl - 1))" using at [of 0] by simp
  note at4 = at0 at [of 1, simplified] at [of 2, simplified] at [of 3, simplified] at [of 4, simplified]
  note db = more_byte last_byte drop_bit_eq_div or_shift7 digits_128 top_digit
  consider "l \<le> 127" | "127 < l" "l < 16383" | "16383 \<le> l" "l < 2097151" | "2097151 \<le> l" "l < 268435455" | "268435455 \<le> l"
    by linarith
  then show ?thesis
  proof cases
    case 1
    then have "bl = [of_nat l]" using assms(2) by (simp add: lpEncodeBacklen_def)
    then show ?thesis using at4(1) 1 by (simp add: lpDecodeBacklen_def db)
  next
    case 2
    then have "bl = [of_nat (l div 128), of_nat ((l AND 127) OR 128)]"
      using assms(2) by (simp add: lpEncodeBacklen_def drop_bit_eq_div)
    then show ?thesis using at4(1,2) 2 less_mult_imp_div_less [of l 128 128]
      by (simp add: lpDecodeBacklen_def db)
  next
    case 3
    then have "bl = [of_nat (l div 16384), of_nat ((l div 128 AND 127) OR 128), of_nat ((l AND 127) OR 128)]"
      using assms(2) by (simp add: lpEncodeBacklen_def drop_bit_eq_div)
    then show ?thesis using at4(1,2,3) 3 less_mult_imp_div_less [of l 128 16384]
      by (simp add: lpDecodeBacklen_def db Let_def)
  next
    case 4
    then have "bl = [of_nat (l div 2097152), of_nat ((l div 16384 AND 127) OR 128), of_nat ((l div 128 AND 127) OR 128), of_nat ((l AND 127) OR 128)]"
      using assms(2) by (simp add: lpEncodeBacklen_def drop_bit_eq_div)
    then show ?thesis using at4(1-4) 4 less_mult_imp_div_less [of l 128 2097152]
      by (simp add: lpDecodeBacklen_def db Let_def)
  next
    case 5
    then have "bl = [of_nat (l div 268435456), of_nat ((l div 2097152 AND 127) OR 128), of_nat ((l div 16384 AND 127) OR 128),
        of_nat ((l div 128 AND 127) OR 128), of_nat ((l AND 127) OR 128)]"
      using assms(2) by (simp add: lpEncodeBacklen_def drop_bit_eq_div)
    then show ?thesis using at4 5 assms(1) less_mult_imp_div_less [of l 128 268435456]
      by (simp add: lpDecodeBacklen_def db Let_def)
  qed
qed

section \<open>Values\<close>

datatype lp_elem = LInt int | LStr buffer

definition signed_val :: "nat \<Rightarrow> nat \<Rightarrow> int" where
  "signed_val bits n = (if n < 2 ^ (bits - 1) then int n else int n - 2 ^ bits)"

definition lp_val :: "buffer \<Rightarrow> lp_elem" where
  "lp_val e =
     (let b = unat (hd e) in
      if b < 128 then LInt (int b)
      else if b < 192 then LStr (tl e)
      else if b < 224 then LInt (signed_val 13 ((b - 192) * 256 + unat (e ! 1)))
      else if b < 240 then LStr (drop 2 e)
      else if b = 0xF0 then LStr (drop 5 e)
      else LInt (le_sval (tl e)))"

text \<open>What a caller finds with a result of \<^verbatim>\<open>lpGet\<close>.\<close>

definition got_elem :: "buffer \<Rightarrow> lp_got \<Rightarrow> lp_elem \<Rightarrow> bool" where
  "got_elem lp g v \<longleftrightarrow>
     (case g of GotPtr off n \<Rightarrow> (\<exists>s. rdn lp off n = Inr s \<and> v = LStr s) | GotBuf n \<Rightarrow> False | GotInt i \<Rightarrow> v = LInt i)"

lemma lpSigned_signed_val:
  assumes "0 < bits" "bits \<le> 64" "n < 2 ^ bits"
  shows "lpSigned (n, 2 ^ (bits - 1), 2 ^ bits - 1) = signed_val bits n"
proof -
  have two: "(2 :: nat) ^ bits = 2 * 2 ^ (bits - 1)" "(2 :: int) ^ bits = 2 * 2 ^ (bits - 1)"
    using assms(1) by (simp_all flip: power_Suc)
  have le: "(2 :: nat) ^ (bits - 1) \<le> 2 ^ 63" using assms(2) by (intro power_increasing) simp_all
  have h: "int (2 ^ bits - 1) = 2 ^ bits - 1" by (simp add: of_nat_diff)
  show ?thesis
  proof (cases "n < 2 ^ (bits - 1)")
    case True
    then show ?thesis using le by (simp add: lpSigned_def signed_val_def to_ll_def)
  next
    case False
    let ?m = "2 ^ bits - 1 - int n"
    have n: "int n < 2 ^ bits" "2 ^ (bits - 1) \<le> int n" "(2 :: int) ^ (bits - 1) \<le> 2 ^ 63"
      using False assms(3) le by (metis not_less of_nat_le_iff of_nat_less_iff of_nat_numeral of_nat_power)+
    have m: "0 \<le> ?m" "?m < 2 ^ (bits - 1)" using n(1,2) unfolding two(2) by linarith+
    have "?m < 2 ^ 63" using m(2) n(3) by (rule less_le_trans)
    then have "nat (?m mod 2 ^ 64) = nat ?m" "nat ?m < 2 ^ 63" using m(1) by (simp_all add: nat_less_iff)
    then show ?thesis using False m(1) unfolding lpSigned_def signed_val_def h by (simp add: to_ll_def)
  qed
qed

lemma signed_val_le: "bs \<noteq> [] \<Longrightarrow> signed_val (8 * length bs) (nat (le_val bs)) = le_sval bs"
  using le_val_bounds [of bs] by (auto simp: signed_val_def le_sval_def nat_less_iff)

lemma lpSigned_le:
  assumes "length bs = k" "0 < k" "k \<le> 8"
  shows "lpSigned (nat (le_val bs), 2 ^ (8 * k - 1), 2 ^ (8 * k) - 1) = le_sval bs"
proof -
  have "nat (le_val bs) < 2 ^ (8 * k)" using le_val_bounds [of bs] assms(1) by (simp add: nat_less_iff pow_256)
  then show ?thesis using lpSigned_signed_val [of "8 * k" "nat (le_val bs)"] signed_val_le [of bs] assms by auto
qed

lemma lp_enc_cases:
  assumes "lp_enc e"
  obtains (u7) "unat (hd e) < 128" "length e = 1"
  | (s6) "128 \<le> unat (hd e)" "unat (hd e) < 192" "length e = 1 + (unat (hd e) - 128)"
  | (i13) "192 \<le> unat (hd e)" "unat (hd e) < 224" "length e = 2"
  | (s12) "224 \<le> unat (hd e)" "unat (hd e) < 240" "length e = 2 + ((unat (hd e) - 224) * 256 + unat (e ! 1))"
  | (s32) "hd e = 0xF0" "length e = 5 + nat (le_val (take 4 (tl e)))"
  | (i16) "hd e = 0xF1" "length e = 3"
  | (i24) "hd e = 0xF2" "length e = 4"
  | (i32) "hd e = 0xF3" "length e = 5"
  | (i64) "hd e = 0xF4" "length e = 9"
  using assms unfolding lp_enc_def lp_size_def Let_def byte_eq
  by (auto split: if_splits)

lemma int_fields_at:
  assumes "lp_enc e" "lp_val e = LInt v"
  shows "\<exists>r. lpIntFields (pre @ e @ post) (int (length pre)) (hd e) = Inr r \<and> lpSigned r = v"
  using assms(1)
proof (cases rule: lp_enc_cases)
  case u7
  then show ?thesis using assms(2) by (simp add: lpIntFields_def encoding_tests byte_masks lpSigned_def lp_val_def to_ll_def)
next
  case i13
  have "rd (pre @ e @ post) (int (length pre) + 1) = Inr (e ! 1)" using rd_append_nth [of 1 e pre post] i13 by simp
  moreover have "unat (hd e) mod 32 = unat (hd e) - 192" using i13 mod_block [of 32 6 "unat (hd e)"] by simp
  moreover have "push_bit 8 (unat (hd e) - 192) OR unat (e ! 1) = (unat (hd e) - 192) * 256 + unat (e ! 1)"
    using nat_or_push [of "unat (e ! 1)" 8 "unat (hd e) - 192"] unat_byte_less [of "e ! 1"]
    by (simp add: or.commute add.commute mult.commute)
  moreover have "(unat (hd e) - 192) * 256 + unat (e ! 1) < 2 ^ 13" using i13 unat_byte_less [of "e ! 1"] by simp
  ultimately show ?thesis using assms(2) i13 lpSigned_signed_val [of 13 "(unat (hd e) - 192) * 256 + unat (e ! 1)"]
    by (simp add: lpIntFields_def encoding_tests byte_masks lp_val_def)
next
  case i16
  then show ?thesis using assms(2) rdn_append_sub [of 1 2 e pre post] lpSigned_le [of "tl e" 2]
    by (simp add: lpIntFields_def encoding_tests lp_val_def drop_Suc)
next
  case i24
  then show ?thesis using assms(2) rdn_append_sub [of 1 3 e pre post] lpSigned_le [of "tl e" 3]
    by (simp add: lpIntFields_def encoding_tests lp_val_def drop_Suc)
next
  case i32
  then show ?thesis using assms(2) rdn_append_sub [of 1 4 e pre post] lpSigned_le [of "tl e" 4]
    by (simp add: lpIntFields_def encoding_tests lp_val_def drop_Suc)
next
  case i64
  then show ?thesis using assms(2) rdn_append_sub [of 1 8 e pre post] lpSigned_le [of "tl e" 8]
    by (simp add: lpIntFields_def encoding_tests lp_val_def drop_Suc)
next
  case s6
  show ?thesis using assms(2) s6(1,2) by (simp add: lp_val_def)
next
  case s12
  show ?thesis using assms(2) s12(1,2) by (simp add: lp_val_def)
next
  case s32
  show ?thesis using assms(2) s32(1) by (simp add: lp_val_def)
qed

lemma get_at:
  assumes "lp_enc e"
  shows "\<exists>g. lpGetWithBuf (pre @ e @ post) (int (length pre)) None = Inr (g, None) \<and>
    got_elem (pre @ e @ post) g (lp_val e)"
proof -
  let ?lp = "pre @ e @ post" and ?p = "int (length pre)" and ?b = "unat (hd e)"
  have e: "e \<noteq> []" using assms by (simp add: lp_enc_def)
  have r: "rd ?lp ?p = Inr (hd e)" using rd_hd [OF e] .
  have r1: "Suc 0 < length e \<Longrightarrow> rd ?lp (?p + 1) = Inr (e ! Suc 0)" using rd_append_nth [of "Suc 0" e pre post] by simp
  have sub: "rdn ?lp (?p + int i) n = Inr (take n (drop i e))" if "i + n \<le> length e" for i n
    using rdn_append_sub [OF that] .
  show ?thesis
  proof (cases "lp_val e")
    case (LInt v)
    then have ne: "\<not> (128 \<le> ?b \<and> ?b < 192)" "\<not> (224 \<le> ?b \<and> ?b < 240)" "?b \<noteq> 0xF0"
      by (auto simp: lp_val_def Let_def split: if_splits)
    obtain f where f: "lpIntFields ?lp ?p (hd e) = Inr f" "lpSigned f = v" using int_fields_at [OF assms LInt] by blast
    have "lpGetWithBuf ?lp ?p None = Inr (GotInt v, None)"
      using r f ne by (auto simp: lpGetWithBuf_def encoding_tests byte_eq)
    then show ?thesis using LInt by (simp add: got_elem_def)
  next
    case (LStr s)
    show ?thesis using assms
    proof (cases rule: lp_enc_cases)
      case s6
      moreover have "?b mod 64 = ?b - 128" using s6 mod_block [of 64 2 ?b] by simp
      ultimately show ?thesis using r sub [of 1 "?b - 128"]
        by (simp add: lpGetWithBuf_def encoding_tests LP_ENCODING_6BIT_STR_LEN_def byte_masks got_elem_def lp_val_def drop_Suc)
    next
      case s12
      moreover have "?b mod 16 = ?b - 224" using s12 mod_block [of 16 14 ?b] by simp
      ultimately show ?thesis using r r1 sub [of 2 "(?b - 224) * 256 + unat (e ! 1)"]
        by (simp add: lpGetWithBuf_def encoding_tests LP_ENCODING_12BIT_STR_LEN_def byte_masks len_12bit got_elem_def lp_val_def)
    next
      case s32
      let ?n = "nat (le_val (take 4 (tl e)))"
      have l: "5 \<le> length e" "5 + ?n \<le> length e" "length e - 5 \<le> ?n" using s32(2) by linarith+
      have "rdn ?lp (?p + 1) 4 = Inr (take 4 (tl e))" using sub [of 1 4] l(1) by (simp add: drop_Suc)
      then have "lpGetWithBuf ?lp ?p None = Inr (GotPtr (?p + 5) ?n, None)"
        using r s32(1) by (simp add: lpGetWithBuf_def encoding_tests LP_ENCODING_32BIT_STR_LEN_def)
      moreover have "rdn ?lp (?p + 5) ?n = Inr (drop 5 e)" using sub [OF l(2)] l(3) take_all [of "drop 5 e" ?n] by simp
      moreover have "lp_val e = LStr (drop 5 e)" using s32(1) by (simp add: lp_val_def)
      ultimately show ?thesis by (simp add: got_elem_def)
    qed (use LStr in \<open>auto simp: lp_val_def\<close>)
  qed
qed

section \<open>Encoding and decoding\<close>

lemma unat_byte_of_int: "0 \<le> x \<Longrightarrow> x < 256 \<Longrightarrow> unat (word_of_int x :: byte) = nat x"
  using unat_byte_of_nat [of "nat x"] by (simp add: nat_less_iff)

lemma two_byte_int:
  assumes "unat x = c + 192" "unat y = d" "c < 32"
  shows "lp_enc [x, y] \<and> lp_val [x, y] = LInt (signed_val 13 (c * 256 + d))"
  using assms by (simp add: lp_enc_def lp_size_def lp_val_def)

lemma encode_13bit:
  assumes "-4096 \<le> v" "v \<le> 4095" "w = (if v < 0 then 2 ^ 13 + v else v)"
  shows "lp_enc [word_of_int (drop_bit 8 w OR 0xC0), word_of_int (w AND 0xff)] \<and>
    lp_val [word_of_int (drop_bit 8 w OR 0xC0), word_of_int (w AND 0xff)] = LInt v"
proof -
  have w: "0 \<le> w" "w < 8192" using assms by (simp_all split: if_splits)
  have "drop_bit 8 w OR 0xC0 = w div 256 + 192"
    using int_or_push [of "w div 256" 6 3] w by (simp add: drop_bit_eq_div)
  then have a: "unat (word_of_int (drop_bit 8 w OR 0xC0) :: byte) = nat (w div 256) + 192"
    using unat_byte_of_int [of "w div 256 + 192"] w by (simp add: nat_add_distrib)
  have "w AND 0xff = w mod 256" using int_and_low [of w 8] by simp
  then have b: "unat (word_of_int (w AND 0xff) :: byte) = nat (w mod 256)" using unat_byte_of_int [of "w mod 256"] by simp
  have n: "nat (w div 256) * 256 + nat (w mod 256) = nat w"
    using w by (simp add: nat_div_distrib nat_mod_distrib)
  have "nat (w div 256) < 32" using w by (simp add: nat_less_iff)
  note i = two_byte_int [OF a b this, unfolded n]
  have "signed_val 13 (nat w) = v" using assms w by (auto simp: signed_val_def)
  then show ?thesis using i by simp
qed

lemma encode_le:
  assumes "- (2 ^ (8 * k - 1)) \<le> v" "v < 2 ^ (8 * k - 1)" "(k, b) \<in> {(2, 0xF1), (3, 0xF2), (4, 0xF3), (8, 0xF4)}"
    and "w = v \<or> w = 2 ^ (8 * k) + v"
  shows "lp_enc (b # le_bytes k w) \<and> lp_val (b # le_bytes k w) = LInt v"
proof -
  have k: "0 < k" using assms(3) by auto
  have "w mod 256 ^ k = v mod 256 ^ k" using assms(4) by (auto simp: pow_256)
  then have "le_bytes k w = le_bytes k v" using le_bytes_mod [of k w] le_bytes_mod [of k v] by simp
  then have "le_sval (le_bytes k w) = v" using le_sval_le_bytes [OF k assms(1,2)] by simp
  then show ?thesis using assms(3) unfolding lp_enc_def lp_size_def lp_val_def Let_def by auto
qed

lemma encode_integer:
  assumes "- (2 ^ 63) \<le> v" "v < 2 ^ 63"
  shows "lp_enc (lpEncodeIntegerGetType v) \<and> lp_val (lpEncodeIntegerGetType v) = LInt v"
proof -
  consider "0 \<le> v \<and> v \<le> 127" | "\<not> (0 \<le> v \<and> v \<le> 127)" "-4096 \<le> v" "v \<le> 4095"
    | "\<not> (-4096 \<le> v \<and> v \<le> 4095)" "-32768 \<le> v" "v \<le> 32767"
    | "\<not> (-32768 \<le> v \<and> v \<le> 32767)" "-8388608 \<le> v" "v \<le> 8388607"
    | "\<not> (-8388608 \<le> v \<and> v \<le> 8388607)" "-2147483648 \<le> v" "v \<le> 2147483647"
    | "\<not> (-2147483648 \<le> v \<and> v \<le> 2147483647)" by linarith
  then show ?thesis
  proof cases
    case 1
    then show ?thesis using unat_byte_of_int [of v] unfolding lpEncodeIntegerGetType_def lp_enc_def lp_size_def lp_val_def
      by (simp add: nat_less_iff)
  next
    case 2
    then show ?thesis using encode_13bit [OF 2(2,3) refl] unfolding lpEncodeIntegerGetType_def Let_def by (simp only: if_False if_True simp_thms)
  next
    case 3
    let ?e = "0xF1 # le_bytes 2 (if v < 0 then 2 ^ 16 + v else v)"
    have "lpEncodeIntegerGetType v = ?e" using 3 by (auto simp: lpEncodeIntegerGetType_def)
    moreover have "lp_enc ?e \<and> lp_val ?e = LInt v" by (rule encode_le) (use 3 in auto)
    ultimately show ?thesis by simp
  next
    case 4
    let ?e = "0xF2 # le_bytes 3 (if v < 0 then 2 ^ 24 + v else v)"
    have "lpEncodeIntegerGetType v = ?e" using 4 by (auto simp: lpEncodeIntegerGetType_def)
    moreover have "lp_enc ?e \<and> lp_val ?e = LInt v" by (rule encode_le) (use 4 in auto)
    ultimately show ?thesis by simp
  next
    case 5
    let ?e = "0xF3 # le_bytes 4 (if v < 0 then 2 ^ 32 + v else v)"
    have "lpEncodeIntegerGetType v = ?e" using 5 by (auto simp: lpEncodeIntegerGetType_def)
    moreover have "lp_enc ?e \<and> lp_val ?e = LInt v" by (rule encode_le) (use 5 in auto)
    ultimately show ?thesis by simp
  next
    case 6
    let ?e = "0xF4 # le_bytes 8 v"
    have "lpEncodeIntegerGetType v = ?e" using 6 by (auto simp: lpEncodeIntegerGetType_def)
    moreover have "lp_enc ?e \<and> lp_val ?e = LInt v" by (rule encode_le) (use 6 assms in auto)
    ultimately show ?thesis by simp
  qed
qed

lemma encode_string:
  assumes "length s + 5 < 2 ^ 32"
  shows "lp_enc (lpEncodeString s) \<and> lp_val (lpEncodeString s) = LStr s"
proof -
  let ?n = "length s"
  consider "?n < 64" | "64 \<le> ?n" "?n < 4096" | "4096 \<le> ?n" by linarith
  then show ?thesis
  proof cases
    case 1
    then have "?n OR 0x80 = ?n + 128" using nat_or_push [of ?n 7 1] by simp
    then show ?thesis using 1 unat_byte_of_nat [of "?n + 128"]
      by (simp add: lpEncodeString_def lp_enc_def lp_size_def lp_val_def)
  next
    case 2
    have "drop_bit 8 ?n OR 0xE0 = ?n div 256 + 224" using nat_or_push [of "?n div 256" 5 7] 2 by (simp add: drop_bit_eq_div)
    moreover have "?n AND 0xff = ?n mod 256" using nat_and_low [of ?n 8] by simp
    moreover have "?n div 256 < 16" using 2 by simp
    ultimately obtain x y where "lpEncodeString s = x # y # s" "unat x = ?n div 256 + 224" "unat y = ?n mod 256"
      using 2 unat_byte_of_nat [of "?n div 256 + 224"] unat_byte_of_nat [of "?n mod 256"]
      by (simp add: lpEncodeString_def Let_def)
    then show ?thesis using 2 by (simp add: lp_enc_def lp_size_def lp_val_def)
  next
    case 3
    have "le_val (le_bytes 4 (int ?n)) = int ?n" using assms by (simp add: le_val_le_bytes)
    then show ?thesis using 3 assms by (simp add: lpEncodeString_def lp_enc_def lp_size_def lp_val_def)
  qed
qed

text \<open>The element a string becomes, and the text an element is read back as.\<close>

definition elem_of_string :: "buffer \<Rightarrow> lp_elem" where
  "elem_of_string s = (case string2ll s (length s) of Inr (Some v) \<Rightarrow> LInt v | _ \<Rightarrow> LStr s)"

definition elem_text :: "lp_elem \<Rightarrow> buffer" where
  "elem_text x = (case x of LInt v \<Rightarrow> dec_int v | LStr s \<Rightarrow> s)"

lemma elem_text_of_string: "elem_text (elem_of_string s) = s"
  using string2ll_some [of s "length s"] by (auto simp: elem_of_string_def elem_text_def split: sum.splits option.splits)

text \<open>The bytes that an element is stored as.\<close>

definition encode_elem :: "buffer \<Rightarrow> buffer" where
  "encode_elem s = (case elem_of_string s of LInt v \<Rightarrow> lpEncodeIntegerGetType v | LStr s \<Rightarrow> lpEncodeString s)"

lemma string2ll_take: "n \<le> length s \<Longrightarrow> string2ll s n = string2ll (take n s) n"
proof (cases "n = 0 \<or> LONG_STR_SIZE \<le> n")
  case True
  then show ?thesis unfolding string2ll_def by (simp only: if_True)
next
  case False
  assume "n \<le> length s"
  then show ?thesis using False string2ll_read [of n s "take n s"] string2ll_read [of n "take n s" "take n s"] by simp
qed

lemma encode_get_type:
  assumes "n \<le> length s" "n + 5 < 2 ^ 32"
  shows "\<exists>i. lpEncodeGetType s n = Inr (i, length (encode_elem (take n s))) \<and> lp_enc (encode_elem (take n s)) \<and>
    lp_val (encode_elem (take n s)) = elem_of_string (take n s) \<and>
    (case i of Some b \<Rightarrow> b = encode_elem (take n s) | None \<Rightarrow> encode_elem (take n s) = lpEncodeString (take n s))"
proof -
  let ?t = "take n s"
  obtain r where r: "string2ll ?t n = Inr r" using string2ll_total [of n ?t] assms(1) by auto
  have len: "length ?t = n" using assms(1) by simp
  show ?thesis
  proof (cases r)
    case None
    then have e: "encode_elem ?t = lpEncodeString ?t" "elem_of_string ?t = LStr ?t"
      using r len by (simp_all add: encode_elem_def elem_of_string_def)
    then show ?thesis using r None assms encode_string [of ?t] string2ll_take [OF assms(1)] len
      by (auto simp: lpEncodeGetType_def lpStringToInt64_def lpEncodeString_def)
  next
    case (Some v)
    then have v: "- (2 ^ 63) \<le> v" "v < 2 ^ 63" using string2ll_some [of ?t n v] r len by auto
    have e: "encode_elem ?t = lpEncodeIntegerGetType v" "elem_of_string ?t = LInt v"
      using r Some len by (simp_all add: encode_elem_def elem_of_string_def)
    show ?thesis using r Some encode_integer [OF v] string2ll_take [OF assms(1)] e
      by (simp add: lpEncodeGetType_def lpStringToInt64_def)
  qed
qed

end
