(* ===== verification/Listpack_Ops.thy ===== *)
theory Listpack_Ops
  imports Listpack_Codec
begin

text \<open>
  Listpacks as lists: the representation invariant, and that every operation of
  \<^verbatim>\<open>src/redis-stable/src/listpack.c\<close> on a listpack is the corresponding operation on the list of its
  encoded elements, without an access outside the block.
\<close>

section \<open>Representation\<close>

definition lp_entry :: "buffer \<Rightarrow> buffer" where
  "lp_entry e = e @ lpEncodeBacklen (length e)"

definition lp_body :: "buffer list \<Rightarrow> buffer" where
  "lp_body es = concat (map lp_entry es)"

definition lp_total :: "buffer list \<Rightarrow> nat" where
  "lp_total es = 7 + length (lp_body es)"

definition lp_pos :: "buffer list \<Rightarrow> nat \<Rightarrow> nat" where
  "lp_pos es i = 6 + length (lp_body (take i es))"

text \<open>The header, what follows it up to the end marker, and unused memory.\<close>

definition lp_form :: "int \<Rightarrow> int \<Rightarrow> buffer \<Rightarrow> buffer" where
  "lp_form t n rest = le_bytes 4 t @ le_bytes 2 n @ rest"

definition lp_count_ok :: "nat \<Rightarrow> nat \<Rightarrow> bool" where
  "lp_count_ok n len \<longleftrightarrow> n = LP_HDR_NUMELE_UNKNOWN \<or> n = len \<and> len < LP_HDR_NUMELE_UNKNOWN"

definition lp_rep :: "buffer \<Rightarrow> buffer list \<Rightarrow> bool" where
  "lp_rep lp es \<longleftrightarrow> (\<forall>e\<in>set es. lp_enc e) \<and> lp_total es < 2 ^ 32 \<and>
     (\<exists>n slack. lp_count_ok n (length es) \<and> lp = lp_form (int (lp_total es)) (int n) (lp_body es @ [LP_EOF] @ slack))"

lemma lp_body_simps [simp]:
  "lp_body [] = []" "lp_body (e # es) = lp_entry e @ lp_body es" "lp_body (xs @ ys) = lp_body xs @ lp_body ys"
  by (simp_all add: lp_body_def)

lemma lp_pos_0 [simp]: "lp_pos es 0 = 6"
  by (simp add: lp_pos_def)

lemma lp_pos_Suc: "i < length es \<Longrightarrow> lp_pos es (Suc i) = lp_pos es i + length (lp_entry (es ! i))"
  by (simp add: lp_pos_def take_Suc_conv_app_nth)

lemma lp_pos_last: "lp_pos es (length es) = lp_total es - 1"
  by (simp add: lp_pos_def lp_total_def)

lemma length_entry: "length (lp_entry e) = length e + lpEncodeBacklenBytes (length e)"
  by (simp add: lp_entry_def length_backlen)

lemma entry_nonempty: "0 < length (lp_entry e)"
  using lpEncodeBacklenBytes_pos by (simp add: length_entry)

lemma lp_pos_less: "i < length es \<Longrightarrow> lp_pos es i + length (lp_entry (es ! i)) \<le> lp_total es - 1"
  using lp_pos_Suc [of i es] append_take_drop_id [of "Suc i" es]
  by (metis le_add1 length_append lp_body_simps(3) lp_pos_def lp_pos_last add_le_cancel_left take_all_iff order_refl)

lemma get_total_form: "0 \<le> t \<Longrightarrow> t < 2 ^ 32 \<Longrightarrow> lpGetTotalBytes (lp_form t n rest) = Inr (nat t)"
  using rdn_append [of "[]" "le_bytes 4 t"] by (simp add: lpGetTotalBytes_def lp_form_def le_val_le_bytes)

lemma get_num_form: "0 \<le> n \<Longrightarrow> n < 2 ^ 16 \<Longrightarrow> lpGetNumElements (lp_form t n rest) = Inr (nat n)"
  using rdn_append [of "le_bytes 4 t" "le_bytes 2 n" rest] by (simp add: lpGetNumElements_def lp_form_def le_val_le_bytes)

lemma set_total_form: "lpSetTotalBytes (lp_form t n rest) t' = Inr (lp_form t' n rest)"
  using wrn_append [of "le_bytes 4 t'" "le_bytes 4 t" "[]"] by (simp add: lpSetTotalBytes_def lp_form_def)

lemma set_num_form: "lpSetNumElements (lp_form t n rest) n' = Inr (lp_form t n' rest)"
  using wrn_append [of "le_bytes 2 n'" "le_bytes 2 n" "le_bytes 4 t" rest] by (simp add: lpSetNumElements_def lp_form_def)

lemma le_bytes_num: "le_bytes 2 (n mod 65536) = le_bytes 2 n"
  using le_bytes_mod [of 2 n] by simp

lemma lp_repE:
  assumes "lp_rep lp es"
  obtains n slack where "lp_count_ok n (length es)" "lp = lp_form (int (lp_total es)) (int n) (lp_body es @ [LP_EOF] @ slack)"
    "lpGetTotalBytes lp = Inr (lp_total es)" "lpGetNumElements lp = Inr n" "n \<le> 65535" "lp_total es \<le> length lp"
proof -
  obtain n slack where f: "lp_count_ok n (length es)" "lp = lp_form (int (lp_total es)) (int n) (lp_body es @ [LP_EOF] @ slack)"
    using assms by (auto simp: lp_rep_def)
  moreover have "n \<le> 65535" using f(1) by (auto simp: lp_count_ok_def)
  moreover have "lp_total es < 2 ^ 32" using assms by (simp add: lp_rep_def)
  ultimately show ?thesis using that get_total_form [of "int (lp_total es)"] get_num_form [of "int n"]
    by (simp add: lp_form_def lp_total_def)
qed

lemma lp_rep_total: "lp_rep lp es \<Longrightarrow> lpGetTotalBytes lp = Inr (lp_total es)"
  by (erule lp_repE)

lemma lp_split:
  assumes "lp_rep lp es" "i < length es"
  obtains pre post where "lp = pre @ lp_entry (es ! i) @ post" "length pre = lp_pos es i"
    "post = lp_body (drop (Suc i) es) @ [LP_EOF] @ drop (lp_total es) lp"
proof -
  obtain n slack where f: "lp = lp_form (int (lp_total es)) (int n) (lp_body es @ [LP_EOF] @ slack)"
    using assms(1) by (rule lp_repE)
  have "es = take i es @ es ! i # drop (Suc i) es" using assms(2) by (simp add: id_take_nth_drop)
  then have "lp_body es = lp_body (take i es) @ lp_entry (es ! i) @ lp_body (drop (Suc i) es)"
    by (metis lp_body_simps(2,3))
  moreover have "drop (lp_total es) lp = slack" by (simp add: f lp_form_def lp_total_def)
  ultimately have "lp = (le_bytes 4 (int (lp_total es)) @ le_bytes 2 (int n) @ lp_body (take i es)) @ lp_entry (es ! i) @
      lp_body (drop (Suc i) es) @ [LP_EOF] @ drop (lp_total es) lp"
    using f by (simp add: lp_form_def)
  then show ?thesis by (rule that) (simp_all add: lp_pos_def)
qed

lemma lp_rep_enc: "lp_rep lp es \<Longrightarrow> i < length es \<Longrightarrow> lp_enc (es ! i)"
  by (simp add: lp_rep_def)

section \<open>Navigation\<close>

lemma rd_entry:
  assumes "lp_rep lp es" "i < length es"
  shows "rd lp (int (lp_pos es i)) = Inr (hd (es ! i)) \<and> hd (es ! i) \<noteq> LP_EOF"
proof -
  obtain pre post where s: "lp = pre @ lp_entry (es ! i) @ post" "length pre = lp_pos es i" using lp_split [OF assms] .
  have e: "lp_enc (es ! i)" using lp_rep_enc [OF assms] .
  then have "es ! i \<noteq> []" by (simp add: lp_enc_def)
  then have "rd lp (int (length pre)) = Inr (hd (es ! i))" using rd_hd [of "es ! i" pre] s(1) by (simp add: lp_entry_def)
  then show ?thesis using lp_enc_hd [OF e] s(2) by simp
qed

lemma rd_eof:
  assumes "lp_rep lp es"
  shows "rd lp (int (lp_pos es (length es))) = Inr LP_EOF"
proof -
  obtain n slack where "lp = lp_form (int (lp_total es)) (int n) (lp_body es @ [LP_EOF] @ slack)" using assms by (rule lp_repE)
  then have "lp = (le_bytes 4 (int (lp_total es)) @ le_bytes 2 (int n) @ lp_body es) @ LP_EOF # slack" by (simp add: lp_form_def)
  then show ?thesis using rd_append [of "le_bytes 4 (int (lp_total es)) @ le_bytes 2 (int n) @ lp_body es" LP_EOF slack]
    by (simp add: lp_pos_def)
qed

lemma encoded_size_entry:
  assumes "lp_rep lp es" "i < length es"
  shows "lpCurrentEncodedSizeUnsafe lp (int (lp_pos es i)) = Inr (length (es ! i))"
proof -
  obtain pre post where s: "lp = pre @ lp_entry (es ! i) @ post" "length pre = lp_pos es i" using lp_split [OF assms] .
  show ?thesis using encoded_size_at [OF lp_rep_enc [OF assms], of pre "lpEncodeBacklen (length (es ! i)) @ post"] s
    by (simp add: lp_entry_def)
qed

lemma lpSkip_entry:
  assumes "lp_rep lp es" "i < length es"
  shows "lpSkip lp (int (lp_pos es i)) = Inr (int (lp_pos es (Suc i)))"
  using encoded_size_entry [OF assms] lp_pos_Suc [OF assms(2)] by (simp add: lpSkip_def length_entry)

lemma decode_backlen_entry:
  assumes "lp_rep lp es" "i < length es"
  shows "lpDecodeBacklen lp (int (lp_pos es (Suc i)) - 1) = Inr (length (es ! i))"
proof -
  let ?e = "es ! i"
  obtain pre post where s: "lp = pre @ lp_entry ?e @ post" "length pre = lp_pos es i" using lp_split [OF assms] .
  have "length ?e < 2 ^ 35" using lp_rep_enc [OF assms] by (simp add: lp_enc_def)
  then show ?thesis
    using decode_backlen_at [of "length ?e" _ "pre @ ?e" post] s lp_pos_Suc [OF assms(2)]
    by (simp add: lp_entry_def add.assoc)
qed

lemma validate_entry:
  assumes "lp_rep lp es" "i < length es"
  shows "lpValidateNext lp (Some (int (lp_pos es i))) (lp_total es) = Inr (Some (int (lp_pos es (Suc i))), True)"
proof -
  let ?e = "es ! i"
  have e: "lp_enc ?e" using lp_rep_enc [OF assms] .
  have r: "rd lp (int (lp_pos es i)) = Inr (hd ?e)" "hd ?e \<noteq> LP_EOF" using rd_entry [OF assms] by simp_all
  have pos: "int (lp_pos es i) + int (length ?e + lpEncodeBacklenBytes (length ?e)) = int (lp_pos es (Suc i))"
    using lp_pos_Suc [OF assms(2)] by (simp add: length_entry)
  have rng: "6 \<le> lp_pos es i" "lp_pos es (Suc i) \<le> lp_total es - 1" "lp_total es \<noteq> 0"
    using lp_pos_less [OF assms(2)] lp_pos_Suc [OF assms(2)] by (simp_all add: lp_pos_def lp_total_def)
  have sb: "0 < lpCurrentEncodedSizeBytes (hd ?e)" "lpCurrentEncodedSizeBytes (hd ?e) \<le> length ?e" using size_bytes_le [OF e] by simp_all
  have in1: "\<not> (int (lp_pos es i) < LP_HDR_SIZE \<or> int (lp_total es) - 1 < int (lp_pos es i))"
    "\<not> (int (lp_pos es (Suc i)) < LP_HDR_SIZE \<or> int (lp_total es) - 1 < int (lp_pos es (Suc i)))"
    "\<not> (int (lp_pos es i) + int (lpCurrentEncodedSizeBytes (hd ?e)) < LP_HDR_SIZE \<or>
        int (lp_total es) - 1 < int (lp_pos es i) + int (lpCurrentEncodedSizeBytes (hd ?e)))"
    using rng sb pos by linarith+
  have "length ?e < 2 ^ 32" using e by (simp add: lp_enc_def)
  then have m: "(length ?e + lpEncodeBacklenBytes (length ?e)) mod 2 ^ 64 = length ?e + lpEncodeBacklenBytes (length ?e)"
    by (simp add: lpEncodeBacklenBytes_def)
  show ?thesis
    unfolding lpValidateNext_def Let_def
    using sb(1) by (simp only: option.case in1 r if_False if_True res_bind_simps encoded_size_entry [OF assms] pos
        decode_backlen_entry [OF assms] m simp_thms neq0_conv [symmetric])
qed

lemma validate_eof:
  assumes "lp_rep lp es"
  shows "lpValidateNext lp (Some (int (lp_pos es (length es)))) (lp_total es) = Inr (None, True)"
  using rd_eof [OF assms] lp_pos_last [of es] by (simp add: lpValidateNext_def Let_def lp_pos_def lp_total_def)

lemma assert_valid:
  "lp_rep lp es \<Longrightarrow> i \<le> length es \<Longrightarrow> lpAssertValidEntry lp (lp_total es) (int (lp_pos es i)) = Inr ()"
  using validate_entry [of lp es i] validate_eof [of lp es] by (cases "i = length es") (simp_all add: lpAssertValidEntry_def)

definition lp_ptr :: "buffer list \<Rightarrow> nat \<Rightarrow> int option" where
  "lp_ptr es i = (if i < length es then Some (int (lp_pos es i)) else None)"

lemma lpNext_entry:
  assumes "lp_rep lp es" "i < length es"
  shows "lpNext lp (int (lp_pos es i)) = Inr (lp_ptr es (Suc i))"
proof (cases "Suc i < length es")
  case True
  then show ?thesis using lpSkip_entry [OF assms] rd_entry [OF assms(1) True] lp_rep_total [OF assms(1)] assert_valid [OF assms(1), of "Suc i"]
    by (simp add: lpNext_def lpBytes_def lp_ptr_def)
next
  case False
  then have "Suc i = length es" using assms(2) by simp
  then show ?thesis using lpSkip_entry [OF assms] rd_eof [OF assms(1)] by (simp add: lpNext_def lp_ptr_def)
qed

lemma lpNextWithBytes_entry:
  assumes "lp_rep lp es" "i < length es"
  shows "lpNextWithBytes lp (int (lp_pos es i)) (lp_total es) = Inr (lp_ptr es (Suc i))"
proof -
  have "lpNext lp p = lpNextWithBytes lp p (lp_total es)" for p
    unfolding lpNext_def lpNextWithBytes_def lpBytes_def lp_rep_total [OF assms(1)] res_bind_simps ..
  then show ?thesis using lpNext_entry [OF assms] by simp
qed

lemma lpFirst_rep: "lp_rep lp es \<Longrightarrow> lpFirst lp = Inr (lp_ptr es 0)"
  using rd_entry [of lp es 0] rd_eof [of lp es] lp_rep_total [of lp es] assert_valid [of lp es 0]
  by (cases es) (simp_all add: lpFirst_def lpBytes_def lp_ptr_def)

lemma to_ll_pred: "0 < n \<Longrightarrow> n < 2 ^ 33 \<Longrightarrow> to_ll (nat ((int n - 1) mod 2 ^ 64)) = int n - 1" for n :: nat
proof -
  assume n: "0 < n" "n < 2 ^ 33"
  then have "(int n - 1) mod 2 ^ 64 = int n - 1" by (intro mod_pos_pos_trivial) simp_all
  then show ?thesis using n by (simp add: to_ll_def nat_less_iff)
qed

lemma lpPrev_entry:
  assumes "lp_rep lp es" "i \<le> length es"
  shows "lpPrev lp (int (lp_pos es i)) = Inr (if i = 0 then None else lp_ptr es (i - 1))"
proof (cases i)
  case 0
  then show ?thesis by (simp add: lpPrev_def)
next
  case (Suc j)
  then have j: "j < length es" using assms(2) by simp
  let ?n = "length (es ! j) + lpEncodeBacklenBytes (length (es ! j))"
  have "length (es ! j) < 2 ^ 32" using lp_rep_enc [OF assms(1) j] by (simp add: lp_enc_def)
  then have n: "?n mod 2 ^ 64 = ?n" "?n < 2 ^ 33" "0 < ?n" using lpEncodeBacklenBytes_pos by (simp_all add: lpEncodeBacklenBytes_def)
  have "to_ll (nat ((int ?n - 1) mod 2 ^ 64)) = int ?n - 1" using to_ll_pred [OF n(3,2)] .
  moreover have "int (lp_pos es (Suc j)) = int (lp_pos es j) + int ?n" using lp_pos_Suc [OF j] by (simp add: length_entry)
  moreover have "int (lp_pos es (Suc j)) \<noteq> LP_HDR_SIZE"
    using lp_pos_Suc [OF j] n(3) length_entry [of "es ! j"] unfolding lp_pos_def by linarith
  ultimately show ?thesis
    using Suc decode_backlen_entry [OF assms(1) j] n lp_rep_total [OF assms(1)] assert_valid [OF assms(1), of j] j
    by (simp add: lpPrev_def lpBytes_def lp_ptr_def)
qed

lemma lpLast_rep: "lp_rep lp es \<Longrightarrow> lpLast lp = Inr (if es = [] then None else lp_ptr es (length es - 1))"
  using lpPrev_entry [of lp es "length es"] lp_rep_total [of lp es] lp_pos_last [of es]
  by (simp add: lpLast_def lp_total_def)

section \<open>Counting and seeking\<close>

lemma lp_ptr_None: "length es \<le> i \<Longrightarrow> lp_ptr es i = None"
  by (simp add: lp_ptr_def)

lemma length_less_total: "length es < lp_total es"
proof (induction es)
  case (Cons e es)
  then show ?case using entry_nonempty [of e]
    unfolding lp_total_def lp_body_simps length_append list.size by linarith
qed (simp add: lp_total_def)

lemma lpLengthLoop_ok:
  assumes "lp_rep lp es" "i \<le> length es" "c + (length es - i) < 2 ^ 32"
  shows "lpLengthLoop lp (lp_ptr es i) c = Inr (c + (length es - i))"
  using assms(2,3)
proof (induction "length es - i" arbitrary: i c)
  case 0
  then show ?case by (simp add: lp_ptr_None)
next
  case (Suc k)
  then have i: "i < length es" by simp
  have "lpLengthLoop lp (lp_ptr es (Suc i)) (c + 1) = Inr (c + 1 + (length es - Suc i))"
    using Suc.hyps(1) [of "Suc i" "c + 1"] Suc.hyps(2) Suc.prems i by simp
  then show ?case using lpNext_entry [OF assms(1) i] i Suc.prems by (simp add: lp_ptr_def)
qed

lemma lpLength_ok:
  assumes "lp_rep lp es"
  shows "\<exists>lp'. lpLength lp = Inr (lp', length es) \<and> lp_rep lp' es \<and> length lp' = length lp"
proof -
  obtain n slack where f: "lp_count_ok n (length es)" "lp = lp_form (int (lp_total es)) (int n) (lp_body es @ [LP_EOF] @ slack)"
    "lpGetTotalBytes lp = Inr (lp_total es)" "lpGetNumElements lp = Inr n" using assms by (rule lp_repE)
  have small: "length es < 2 ^ 32" using length_less_total [of es] assms by (auto simp: lp_rep_def)
  show ?thesis
  proof (cases "n = LP_HDR_NUMELE_UNKNOWN")
    case False
    then show ?thesis using f assms by (auto simp: lpLength_def lp_count_ok_def)
  next
    case True
    let ?lp = "lp_form (int (lp_total es)) (int (length es)) (lp_body es @ [LP_EOF] @ slack)"
    have loop: "lpLengthLoop lp (lp_ptr es 0) 0 = Inr (length es)" using lpLengthLoop_ok [OF assms, of 0 0] small by simp
    have set: "lpSetNumElements lp (int (length es)) = Inr ?lp" unfolding f(2) by (rule set_num_form)
    have rep: "length es < LP_HDR_NUMELE_UNKNOWN \<Longrightarrow> lp_rep ?lp es"
      using assms unfolding lp_rep_def lp_count_ok_def by blast
    have len: "length ?lp = length lp" by (simp add: f(2) lp_form_def)
    show ?thesis
      using True f(4) lpFirst_rep [OF assms] loop set rep len assms unfolding lpLength_def by simp
  qed
qed

lemma seekForward_ok:
  assumes "lp_rep lp es"
  shows "seekForward lp n (lp_ptr es i) = Inr (lp_ptr es (i + n))"
proof (induction n arbitrary: i)
  case (Suc n)
  show ?case
  proof (cases "i < length es")
    case True
    then show ?thesis using lpNext_entry [OF assms True] Suc [of "Suc i"] by (simp add: lp_ptr_def [of es i])
  next
    case False
    then show ?thesis by (simp add: lp_ptr_None)
  qed
qed simp

lemma seekBackward_ok:
  assumes "lp_rep lp es" "j < length es"
  shows "seekBackward lp n (lp_ptr es j) = Inr (if n \<le> j then lp_ptr es (j - n) else None)"
  using assms(2)
proof (induction n arbitrary: j)
  case (Suc n)
  have p: "lpPrev lp (int (lp_pos es j)) = Inr (if j = 0 then None else lp_ptr es (j - 1))"
    using lpPrev_entry [OF assms(1), of j] Suc.prems by simp
  show ?case
  proof (cases j)
    case 0
    then show ?thesis using p Suc.prems by (simp add: lp_ptr_def)
  next
    case (Suc k)
    then show ?thesis using p Suc.prems Suc.IH [of k] by (simp add: lp_ptr_def [of es "Suc k"])
  qed
qed simp

text \<open>The element an index means: from the front, or from the back when negative.\<close>

definition index_of :: "nat \<Rightarrow> int \<Rightarrow> nat option" where
  "index_of len idx =
     (let j = (if idx < 0 then int len + idx else idx) in if 0 \<le> j \<and> j < int len then Some (nat j) else None)"

lemma lpSeek_ok:
  assumes "lp_rep lp es"
  shows "lpSeek lp idx = Inr (case index_of (length es) idx of None \<Rightarrow> None | Some j \<Rightarrow> lp_ptr es j)"
proof -
  obtain n slack where f: "lp_count_ok n (length es)" "lpGetNumElements lp = Inr n" using assms by (rule lp_repE)
  let ?len = "length es"
  have fw: "res_bind (lpFirst lp) (seekForward lp (nat j)) = Inr (lp_ptr es (nat j))" for j
    using lpFirst_rep [OF assms] seekForward_ok [OF assms, of "nat j" 0] by simp
  have bw: "res_bind (lpLast lp) (seekBackward lp (nat (- 1 - j))) =
      Inr (if int ?len + j < 0 then None else lp_ptr es (nat (int ?len + j)))" if "j < 0" for j
  proof (cases "es = []")
    case True
    then show ?thesis using lpLast_rep [OF assms] that by (simp add: lp_ptr_def)
  next
    case False
    then have "?len - 1 < ?len" "nat (- 1 - j) \<le> ?len - 1 \<longleftrightarrow> \<not> int ?len + j < 0"
      "\<not> int ?len + j < 0 \<Longrightarrow> ?len - 1 - nat (- 1 - j) = nat (int ?len + j)" using that by (cases es; simp; linarith)+
    then show ?thesis using lpLast_rep [OF assms] seekBackward_ok [OF assms, of "?len - 1" "nat (- 1 - j)"] False by simp
  qed
  show ?thesis
  proof (cases "n = LP_HDR_NUMELE_UNKNOWN")
    case True
    have "lpSeek lp idx = (if idx < 0 then res_bind (lpLast lp) (seekBackward lp (nat (- 1 - idx)))
        else res_bind (lpFirst lp) (seekForward lp (nat idx)))"
      using True f(2) by (simp add: lpSeek_def)
    then show ?thesis using fw bw [of idx] lp_ptr_None [of es "nat idx"]
      by (cases "idx < 0") (simp_all add: index_of_def Let_def)
  next
    case False
    then have n: "n = ?len" using f(1) by (simp add: lp_count_ok_def)
    let ?j = "if idx < 0 then int ?len + idx else idx"
    have "lpSeek lp idx = (if ?j < 0 \<or> int ?len \<le> ?j then Inr None
        else if ?j > int (?len div 2) then res_bind (lpLast lp) (seekBackward lp (nat (- 1 - (?j - int ?len))))
        else res_bind (lpFirst lp) (seekForward lp (nat ?j)))"
      using False n f(2) unfolding lpSeek_def Let_def by (auto simp del: res_bind_eq_Inr)
    then show ?thesis using fw [of ?j] bw [of "?j - int ?len"] unfolding index_of_def Let_def
      by (auto simp del: res_bind_eq_Inr)
  qed
qed

section \<open>Insertion, replacement and deletion\<close>

definition alloc_ok :: "allocator \<Rightarrow> bool" where
  "alloc_ok A \<longleftrightarrow> (\<forall>n. n \<le> usable_size A n)"

lemma realloc_keep:
  assumes "alloc_ok A" "length X \<le> n"
  shows "\<exists>slack'. lp_realloc A (X @ slack) n = X @ slack' \<and> n \<le> length (lp_realloc A (X @ slack) n)"
proof -
  have "n \<le> usable_size A n" using assms(1) by (simp add: alloc_ok_def)
  then show ?thesis using assms(2) by (simp add: lp_realloc_def zrealloc_def)
qed

text \<open>Room for \<open>k\<close> bytes in place of \<open>old\<close>.\<close>

lemma memmove_shift:
  assumes "length H + k + length Y \<le> length (H @ old @ Y @ slack)" "h = int (length H)"
  shows "\<exists>mid slack'. length mid = k \<and>
    memmove (H @ old @ Y @ slack) (h + int k) (h + int (length old)) (length Y) = Inr (H @ mid @ Y @ slack')"
proof -
  let ?lp = "H @ old @ Y @ slack"
  have "rdn ?lp (h + int (length old)) (length Y) = Inr Y"
    using rdn_append [of "H @ old" Y slack] assms(2) by simp
  moreover have "wrn ?lp (h + int k) Y = Inr (take (length H + k) ?lp @ Y @ drop (length H + k + length Y) ?lp)"
    using wrn_nat [of "length H + k" Y ?lp] assms by simp
  moreover have "take (length H + k) ?lp = H @ take k (old @ Y @ slack)" by simp
  moreover have "length (take k (old @ Y @ slack)) = k" using assms(1) by simp
  ultimately show ?thesis unfolding memmove_def
    by (intro exI [of _ "take k (old @ Y @ slack)"] exI [of _ "drop (length H + k + length Y) ?lp"]) simp
qed

definition new_count :: "bool \<Rightarrow> lp_where \<Rightarrow> nat \<Rightarrow> int" where
  "new_count delete whr n =
     (if (whr \<noteq> LP_REPLACE \<or> delete) \<and> n \<noteq> LP_HDR_NUMELE_UNKNOWN then if delete then int n - 1 else int n + 1 else int n)"

lemma grow_ok:
  assumes "alloc_ok A" "lp = P @ slack"
  shows "\<exists>slack'. (if T' > length P \<and> T' > length lp then lp_realloc A lp T' else lp) = P @ slack' \<and> T' \<le> length (P @ slack')"
proof (cases "T' > length P \<and> T' > length lp")
  case True
  then obtain slack' where "lp_realloc A lp T' = P @ slack'" "T' \<le> length (lp_realloc A lp T')"
    using realloc_keep [OF assms(1), of P T' slack] assms(2) by auto
  then show ?thesis using True by (intro exI [of _ slack']) simp
qed (use assms in auto)

lemma shrink_ok:
  assumes "alloc_ok A" "lp = P @ slack" "length P = T'"
  shows "\<exists>slack'. (if T' < T then lp_realloc A lp T' else lp) = P @ slack'"
  using realloc_keep [OF assms(1), of P T' slack] assms(2,3) by (cases "T' < T") auto

lemma store_entry:
  assumes "length mid = length enc + length bl" "p = int (length H)"
  shows "res_bind (wrn (H @ mid @ rest) p enc) (\<lambda>lp. wrn lp (p + int (length enc)) bl) = Inr (H @ enc @ bl @ rest)"
proof -
  have m: "mid = take (length enc) mid @ drop (length enc) mid" "length (take (length enc) mid) = length enc"
    "length (drop (length enc) mid) = length bl" using assms(1) by simp_all
  have "wrn (H @ mid @ rest) p enc = Inr (H @ enc @ drop (length enc) mid @ rest)"
    using wrn_append [of enc "take (length enc) mid" H "drop (length enc) mid @ rest"] m assms(2)
    by (metis append.assoc append_take_drop_id)
  moreover have "wrn (H @ enc @ drop (length enc) mid @ rest) (p + int (length enc)) bl = Inr (H @ enc @ bl @ rest)"
    using wrn_append [of bl "drop (length enc) mid" "H @ enc" rest] m(3) assms(2) by simp
  ultimately show ?thesis by simp
qed

lemma update_header:
  assumes "n \<le> 65535"
  shows "res_bind
      (if whr \<noteq> LP_REPLACE \<or> delete then
         res_bind (lpGetNumElements (lp_form t (int n) r)) (\<lambda>m.
         if m \<noteq> LP_HDR_NUMELE_UNKNOWN
         then lpSetNumElements (lp_form t (int n) r) (if \<not> delete then int m + 1 else int m - 1) else Inr (lp_form t (int n) r))
       else Inr (lp_form t (int n) r)) (\<lambda>lp. res_bind (lpSetTotalBytes lp t') (\<lambda>lp. Inr (Some (lp, newp)))) =
    Inr (Some (lp_form t' (if (whr \<noteq> LP_REPLACE \<or> delete) \<and> n \<noteq> LP_HDR_NUMELE_UNKNOWN
      then if delete then int n - 1 else int n + 1 else int n) r, newp))"
  using assms get_num_form [of "int n" t r] by (simp add: set_num_form set_total_form)

lemma insert_store_ok:
  assumes A: "alloc_ok A" and lp: "lp = lp_form (int T) (int n) (X @ old @ Y @ slack)" "n \<le> 65535"
    and T: "T = 6 + length X + length old + length Y" "T < 2 ^ 32" "Y \<noteq> []"
    and p: "p = int (6 + length X)"
    and whr: "whr = LP_BEFORE \<and> old = [] \<and> \<not> delete \<or> whr = LP_REPLACE"
    and new: "delete \<longrightarrow> enc = [] \<and> bl = []" "\<not> delete \<longrightarrow> payload = Inr enc" "length enc + length bl < 2 ^ 33"
    and T': "T' = T + length enc + length bl - length old"
  shows "if T' < 2 ^ 32 then
      \<exists>slack'. lpInsertStore A lp p delete whr payload (length enc) bl T (length old) =
        Inr (Some (lp_form (int T') (new_count delete whr n) (X @ enc @ bl @ Y @ slack'),
          if delete \<and> hd Y = LP_EOF then None else Some p))
    else lpInsertStore A lp p delete whr payload (length enc) bl T (length old) = Inr None"
proof -
  have nb: "nat ((int T + int (length enc) + int (length bl) - int (length old)) mod 2 ^ 64) = T'"
  proof -
    have "int T + int (length enc) + int (length bl) - int (length old) = int T'" using T' T(1) by simp
    moreover have "T' < 2 ^ 64" using T' T(2) new(3) by simp
    ultimately show ?thesis by (simp add: nat_mod_as_int)
  qed
  show ?thesis
  proof (cases "T' < 2 ^ 32")
    case False
    then show ?thesis unfolding lpInsertStore_def Let_def nb by simp
  next
    case True
    let ?H = "le_bytes 4 (int T) @ le_bytes 2 (int n) @ X"
    have pH: "p = int (length ?H)" using p by simp
    have lenP: "length (?H @ old @ Y) = T" using T(1) by simp
    obtain slack1 where r1: "(if T' > T \<and> T' > length lp then lp_realloc A lp T' else lp) = ?H @ old @ Y @ slack1"
      "T' \<le> length (?H @ old @ Y @ slack1)"
      using grow_ok [OF A, of lp "?H @ old @ Y" slack T'] lp(1) lenP by (auto simp: lp_form_def)
    obtain mid slack2 where r2: "length mid = length enc + length bl"
      "memmove (?H @ old @ Y @ slack1) (p + int (length enc + length bl)) (p + int (length old)) (length Y) = Inr (?H @ mid @ Y @ slack2)"
      using memmove_shift [of ?H "length enc + length bl" Y old slack1, OF _ pH] r1(2) T T' by auto
    have mv: "(if whr = LP_BEFORE then memmove L (p + int (length enc) + int (length bl)) p (T - nat p)
         else memmove L (p + int (length enc) + int (length bl)) (p + int (length old)) (T - nat p - length old)) =
        memmove L (p + int (length enc + length bl)) (p + int (length old)) (length Y)" for L
    proof -
      have "nat p = 6 + length X" using p by simp
      then have "T - nat p = length old + length Y" using T(1) by simp
      then show ?thesis using whr by (auto simp: add.assoc)
    qed
    obtain slack3 where r3: "(if T' < T then lp_realloc A (?H @ mid @ Y @ slack2) T' else ?H @ mid @ Y @ slack2) = ?H @ mid @ Y @ slack3"
      using shrink_ok [OF A, of "?H @ mid @ Y @ slack2" "?H @ mid @ Y" slack2 T' T] r2(1) T(1) T' by auto
    have rdY: "delete \<Longrightarrow> rd (?H @ mid @ Y @ slack3) p = Inr (hd Y)"
      using rd_hd [OF T(3), of ?H slack3] r2(1) new(1) pH by simp
    have st: "(if delete then Inr (?H @ mid @ Y @ slack3)
        else res_bind payload (\<lambda>b. res_bind (wrn (?H @ mid @ Y @ slack3) p b) (\<lambda>lp. wrn lp (p + int (length enc)) bl))) =
      Inr (lp_form (int T) (int n) (X @ enc @ bl @ Y @ slack3))"
      using store_entry [OF r2(1) pH, of "Y @ slack3"] new(1,2) r2(1)
      by (cases delete) (simp_all add: lp_form_def)
    have np: "(if delete then res_bind (rd (?H @ mid @ Y @ slack3) p) (\<lambda>b. Inr (if b = LP_EOF then None else Some p))
        else Inr (Some p)) = Inr (if delete \<and> hd Y = LP_EOF then None else Some p)"
      using rdY by simp
    have T2: "(T' > 2 ^ 32 - 1) = False" using True by simp
    have "lpInsertStore A lp p delete whr payload (length enc) bl T (length old) =
        Inr (Some (lp_form (int T') (new_count delete whr n) (X @ enc @ bl @ Y @ slack3),
          if delete \<and> hd Y = LP_EOF then None else Some p))"
      unfolding lpInsertStore_def Let_def nb T2 r1(1) mv r2(2)
      by (simp only: if_False res_bind_simps r3 np st update_header [OF lp(2)] new_count_def)
    then show ?thesis using True by auto
  qed
qed

section \<open>Insert, replace and delete\<close>

text \<open>What an operation that may refuse to grow the listpack gives: the entries \<open>es\<close> and a pointer to the \<open>i\<close>-th.\<close>

definition lp_done :: "(buffer \<times> int option) option result \<Rightarrow> buffer list \<Rightarrow> nat \<Rightarrow> bool" where
  "lp_done r es i \<longleftrightarrow>
     (if lp_total es < 2 ^ 32 then \<exists>lp'. r = Inr (Some (lp', lp_ptr es i)) \<and> lp_rep lp' es else r = Inr None)"

text \<open>The arguments of \<^verbatim>\<open>lpInsert\<close> that describe the encoded element \<open>e\<close>.\<close>

definition lp_arg :: "buffer option \<Rightarrow> buffer option \<Rightarrow> nat \<Rightarrow> buffer \<Rightarrow> bool" where
  "lp_arg elestr eleint sz e \<longleftrightarrow>
     (case elestr of
        Some s \<Rightarrow> sz \<le> length s \<and> sz + 5 < 2 ^ 32 \<and> e = encode_elem (take sz s)
      | None \<Rightarrow> eleint = Some e \<and> sz = length e \<and> lp_enc e)"

lemma rdn_take: "n \<le> length s \<Longrightarrow> rdn s 0 n = Inr (take n s)"
  using rdn_nat [of 0 n s] by simp

lemma rdn_all: "rdn s 0 (length s) = Inr s"
  using rdn_take [of "length s" s] by simp

lemma arg_encode:
  assumes "lp_arg elestr eleint sz e"
  obtains i where "(case elestr of Some s \<Rightarrow> lpEncodeGetType s sz | None \<Rightarrow> Inr (eleint, if eleint = None then 0 else sz)) = Inr (i, length e)"
    "lpInsertPayload elestr i sz (length e) = Inr e" "lp_enc e" "\<not> (elestr = None \<and> eleint = None)"
proof (cases elestr)
  case None
  then show ?thesis using assms that [of eleint] by (simp add: lp_arg_def lpInsertPayload_def rdn_all)
next
  case (Some s)
  then have a: "sz \<le> length s" "sz + 5 < 2 ^ 32" "e = encode_elem (take sz s)" using assms by (simp_all add: lp_arg_def)
  obtain i where i: "lpEncodeGetType s sz = Inr (i, length e)" "lp_enc e"
    "case i of Some b \<Rightarrow> b = e | None \<Rightarrow> e = lpEncodeString (take sz s)"
    using encode_get_type [OF a(1,2)] a(3) by auto
  have "lpInsertPayload elestr i sz (length e) = Inr e"
    using i(3) Some rdn_take [OF a(1)] by (cases i) (simp_all add: lpInsertPayload_def rdn_all)
  then show ?thesis using that [of i] i(1,2) Some by simp
qed

lemma backlen_bound: "lpEncodeBacklenBytes n \<le> 5"
  by (simp add: lpEncodeBacklenBytes_def)

lemma entry_bound: "lp_enc e \<Longrightarrow> length e + length (lpEncodeBacklen (length e)) < 2 ^ 33"
  using backlen_bound [of "length e"] by (simp add: lp_enc_def length_backlen)

lemma lp_repI:
  assumes "\<forall>e\<in>set es. lp_enc e" "lp_total es < 2 ^ 32" "lp_count_ok (nat n) (length es)" "0 \<le> n"
    and "lp = lp_form (int (lp_total es)) n (lp_body es @ LP_EOF # slack)"
  shows "lp_rep lp es"
  using assms unfolding lp_rep_def by (metis append_Cons append_Nil int_nat_eq)

lemma assert_integrity:
  assumes "lp_rep lp es" "i \<le> length es"
  shows "ASSERT_INTEGRITY lp (int (lp_pos es i)) = Inr ()"
proof -
  have "lp_pos es i < lp_total es"
    using lp_pos_less [of i es] lp_pos_last [of es] assms(2) entry_nonempty [of "es ! i"] by (cases "i = length es") (auto simp: lp_total_def)
  then show ?thesis using lp_rep_total [OF assms(1)] by (simp add: ASSERT_INTEGRITY_def lp_pos_def)
qed

end
