(* ===== verification/Listpack_Edit.thy ===== *)
theory Listpack_Edit
  imports Listpack_Ops
begin

text \<open>
  The operations that change a listpack: each one is the corresponding operation on the list of its
  encoded entries, or refuses to grow past 32 bits.
\<close>

section \<open>Insert, replace and delete one entry\<close>

lemma hd_body: "\<forall>e\<in>set bs. lp_enc e \<Longrightarrow> hd (lp_body bs @ [LP_EOF]) = LP_EOF \<longleftrightarrow> bs = []"
proof (cases bs)
  case (Cons e r)
  assume "\<forall>e\<in>set bs. lp_enc e"
  then have "lp_enc e" using Cons by simp
  then show ?thesis using Cons lp_enc_hd [of e] by (simp add: lp_entry_def lp_enc_def)
qed simp

lemma edit_ok:
  assumes A: "alloc_ok A" and rep: "lp_rep lp (as @ os @ bs)"
    and kind: "whr = LP_BEFORE \<and> os = [] \<and> ns = [e] \<or> whr = LP_REPLACE \<and> os = [x] \<and> (ns = [e] \<or> ns = [])"
    and enc: "enc = concat ns" "bl = (if ns = [] then [] else lpEncodeBacklen (length enc))" "\<forall>e\<in>set ns. lp_enc e"
    and payload: "ns \<noteq> [] \<Longrightarrow> payload = Inr enc"
  shows "lp_done (lpInsertStore A lp (int (lp_pos (as @ os @ bs) (length as))) (ns = []) whr payload (length enc) bl
      (lp_total (as @ os @ bs)) (length (lp_body os))) (as @ ns @ bs) (length as)"
proof -
  obtain n slack where f: "lp_count_ok n (length (as @ os @ bs))"
    "lp = lp_form (int (lp_total (as @ os @ bs))) (int n) (lp_body (as @ os @ bs) @ [LP_EOF] @ slack)" "n \<le> 65535"
    using rep by (rule lp_repE)
  have good: "\<forall>e\<in>set as \<union> set bs. lp_enc e" "lp_total (as @ os @ bs) < 2 ^ 32" using rep by (auto simp: lp_rep_def)
  have nb: "lp_body ns = enc @ bl" using kind enc by (auto simp: lp_entry_def)
  have small: "length enc + length bl < 2 ^ 33" using kind enc entry_bound [of e] by auto
  have cnt: "lp_count_ok (nat (new_count (ns = []) whr n)) (length (as @ ns @ bs))" "0 \<le> new_count (ns = []) whr n"
    using kind f(1) by (auto simp: new_count_def lp_count_ok_def)
  have ptr: "(if ns = [] \<and> hd (lp_body bs @ [LP_EOF]) = LP_EOF then None else Some (int (lp_pos (as @ os @ bs) (length as)))) =
      lp_ptr (as @ ns @ bs) (length as)"
    using kind good(1) hd_body [of bs] by (auto simp: lp_ptr_def lp_pos_def)
  note store = insert_store_ok [where T = "lp_total (as @ os @ bs)" and X = "lp_body as" and old = "lp_body os"
      and Y = "lp_body bs @ [LP_EOF]" and slack = slack and p = "int (lp_pos (as @ os @ bs) (length as))" and delete = "ns = []"
      and T' = "lp_total (as @ ns @ bs)" and whr = whr and payload = payload and enc = enc and bl = bl, OF A _ f(3)]
  have r: "lp_rep (lp_form (int (lp_total (as @ ns @ bs))) (new_count (ns = []) whr n) (lp_body as @ enc @ bl @ (lp_body bs @ [LP_EOF]) @ s))
      (as @ ns @ bs)" if "lp_total (as @ ns @ bs) < 2 ^ 32" for s
    using good(1) enc(3) that cnt nb by (intro lp_repI [of "as @ ns @ bs" "new_count (ns = []) whr n" _ s]) auto
  show ?thesis
    using store [of lp] kind enc payload f(2) good(2) small nb ptr r
    by (auto simp: lp_done_def lp_total_def lp_pos_def)
qed

lemma split_at: "i < length es \<Longrightarrow> es = take i es @ [es ! i] @ drop (Suc i) es"
  by (simp add: id_take_nth_drop)

lemma replaced_len:
  assumes "lp_rep lp es" "i < length es"
  shows "lpCurrentEncodedSizeUnsafe lp (int (lp_pos es i)) = Inr (length (es ! i))"
    "(length (es ! i) + lpEncodeBacklenBytes (length (es ! i))) mod 4294967296 = length (lp_entry (es ! i))"
    "ASSERT_INTEGRITY_LEN lp (int (lp_pos es i)) (length (lp_entry (es ! i))) = Inr ()"
proof -
  have "length (lp_entry (es ! i)) + lp_pos es i < lp_total es"
    using lp_pos_less [OF assms(2)] by (simp add: lp_total_def)
  moreover have "lp_total es < 2 ^ 32" using assms(1) by (simp add: lp_rep_def)
  ultimately show "(length (es ! i) + lpEncodeBacklenBytes (length (es ! i))) mod 4294967296 = length (lp_entry (es ! i))"
    "ASSERT_INTEGRITY_LEN lp (int (lp_pos es i)) (length (lp_entry (es ! i))) = Inr ()"
    using lp_rep_total [OF assms(1)] by (simp_all add: length_entry ASSERT_INTEGRITY_LEN_def lp_pos_def)
qed (rule encoded_size_entry [OF assms])

lemma no_delete: "\<not> (elestr = None \<and> eleint = None) \<Longrightarrow> (elestr = None \<and> eleint = None) = False"
  by simp

lemma lpInsert_before:
  assumes "alloc_ok A" "lp_rep lp es" "i \<le> length es" "lp_arg elestr eleint sz e"
  shows "lp_done (lpInsert A lp elestr eleint sz (int (lp_pos es i)) LP_BEFORE) (take i es @ e # drop i es) i"
proof -
  obtain ie where a: "(case elestr of Some s \<Rightarrow> lpEncodeGetType s sz | None \<Rightarrow> Inr (eleint, if eleint = None then 0 else sz)) = Inr (ie, length e)"
    "lpInsertPayload elestr ie sz (length e) = Inr e" "lp_enc e" "\<not> (elestr = None \<and> eleint = None)"
    using assms(4) by (rule arg_encode)
  have "lpInsert A lp elestr eleint sz (int (lp_pos es i)) LP_BEFORE =
      lpInsertStore A lp (int (lp_pos es i)) False LP_BEFORE (lpInsertPayload elestr ie sz (length e)) (length e) (lpEncodeBacklen (length e)) (lp_total es) 0"
    unfolding lpInsert_def no_delete [OF a(4)] a(1) by (simp add: lp_rep_total [OF assms(2)])
  then show ?thesis using edit_ok [of A lp "take i es" "[]" "drop i es" LP_BEFORE "[e]" e undefined e "lpEncodeBacklen (length e)"] assms(1-3) a(2,3)
    by (simp add: min_absorb2)
qed

lemma lpInsert_after:
  assumes "lp_rep lp es" "i < length es" "\<not> (elestr = None \<and> eleint = None)"
  shows "lpInsert A lp elestr eleint sz (int (lp_pos es i)) LP_AFTER = lpInsert A lp elestr eleint sz (int (lp_pos es (Suc i))) LP_BEFORE"
  using lpSkip_entry [OF assms(1,2)] assert_integrity [OF assms(1), of "Suc i"] assms(2)
  unfolding lpInsert_def no_delete [OF assms(3)] by simp

lemma lpInsert_replace:
  assumes "alloc_ok A" "lp_rep lp es" "i < length es" "lp_arg elestr eleint sz e"
  shows "lp_done (lpInsert A lp elestr eleint sz (int (lp_pos es i)) LP_REPLACE) (es[i := e]) i"
proof -
  obtain ie where a: "(case elestr of Some s \<Rightarrow> lpEncodeGetType s sz | None \<Rightarrow> Inr (eleint, if eleint = None then 0 else sz)) = Inr (ie, length e)"
    "lpInsertPayload elestr ie sz (length e) = Inr e" "lp_enc e" "\<not> (elestr = None \<and> eleint = None)"
    using assms(4) by (rule arg_encode)
  have "lpInsert A lp elestr eleint sz (int (lp_pos es i)) LP_REPLACE =
      lpInsertStore A lp (int (lp_pos es i)) False LP_REPLACE (lpInsertPayload elestr ie sz (length e)) (length e) (lpEncodeBacklen (length e)) (lp_total es)
        (length (lp_body [es ! i]))"
    unfolding lpInsert_def no_delete [OF a(4)] a(1)
    by (simp add: lp_rep_total [OF assms(2)] replaced_len [OF assms(2,3)])
  then show ?thesis
    using edit_ok [of A lp "take i es" "[es ! i]" "drop (Suc i) es" LP_REPLACE "[e]" e "es ! i" e "lpEncodeBacklen (length e)"]
      split_at [OF assms(3)] assms(1-3) a(2,3)
    by (simp add: min_absorb2 upd_conv_take_nth_drop del: lp_body_simps)
qed

lemma lpDelete_ok:
  assumes "alloc_ok A" "lp_rep lp es" "i < length es"
  shows "lp_done (lpDelete A lp (int (lp_pos es i))) (take i es @ drop (Suc i) es) i"
proof -
  have "lpDelete A lp (int (lp_pos es i)) =
      lpInsertStore A lp (int (lp_pos es i)) True LP_REPLACE (lpInsertPayload None None 0 0) 0 [] (lp_total es) (length (lp_body [es ! i]))"
    unfolding lpDelete_def lpInsert_def by (simp add: lp_rep_total [OF assms(2)] replaced_len [OF assms(2,3)])
  then show ?thesis
    using edit_ok [of A lp "take i es" "[es ! i]" "drop (Suc i) es" LP_REPLACE "[]" "[]" "es ! i" "[]" "[]"] split_at [OF assms(3)] assms(1-3)
    by (simp add: min_absorb2 del: lp_body_simps)
qed

section \<open>The operations built on insertion\<close>

lemma arg_string: "sz \<le> length s \<Longrightarrow> sz + 5 < 2 ^ 32 \<Longrightarrow> lp_arg (Some s) None sz (encode_elem (take sz s))"
  by (simp add: lp_arg_def)

lemma arg_integer:
  "- (2 ^ 63) \<le> v \<Longrightarrow> v < 2 ^ 63 \<Longrightarrow> lp_arg None (Some (lpEncodeIntegerGetType v)) (length (lpEncodeIntegerGetType v)) (lpEncodeIntegerGetType v)"
  using encode_integer [of v] by (simp add: lp_arg_def)

lemma insert_end:
  assumes "alloc_ok A" "lp_rep lp es" "lp_arg elestr eleint sz e"
  shows "lp_done (lpInsert A lp elestr eleint sz (int (lp_total es) - 1) LP_BEFORE) (es @ [e]) (length es)"
  using lpInsert_before [OF assms(1,2) order_refl assms(3)] lp_pos_last [of es] by (simp add: lp_total_def)

lemma lpAppend_ok:
  assumes "alloc_ok A" "lp_rep lp es" "sz \<le> length s" "sz + 5 < 2 ^ 32"
  shows "lp_done (lpAppend A lp s sz) (es @ [encode_elem (take sz s)]) (length es)"
  using insert_end [OF assms(1,2) arg_string [OF assms(3,4)]] lp_rep_total [OF assms(2)] by (simp add: lpAppend_def)

lemma lpAppendInteger_ok:
  assumes "alloc_ok A" "lp_rep lp es" "- (2 ^ 63) \<le> v" "v < 2 ^ 63"
  shows "lp_done (lpAppendInteger A lp v) (es @ [lpEncodeIntegerGetType v]) (length es)"
  using insert_end [OF assms(1,2) arg_integer [OF assms(3,4)]] lp_rep_total [OF assms(2)]
  by (simp add: lpAppendInteger_def lpInsertInteger_def Let_def)

lemma lpPrepend_ok:
  assumes "alloc_ok A" "lp_rep lp es" "sz \<le> length s" "sz + 5 < 2 ^ 32"
  shows "lp_done (lpPrepend A lp s sz) (encode_elem (take sz s) # es) 0"
  using lpInsert_before [OF assms(1,2) _ arg_string [OF assms(3,4)], of 0] lpAppend_ok [OF assms] lpFirst_rep [OF assms(2)]
  by (cases es) (simp_all add: lpPrepend_def lp_ptr_def)

lemma lpPrependInteger_ok:
  assumes "alloc_ok A" "lp_rep lp es" "- (2 ^ 63) \<le> v" "v < 2 ^ 63"
  shows "lp_done (lpPrependInteger A lp v) (lpEncodeIntegerGetType v # es) 0"
  using lpInsert_before [OF assms(1,2) _ arg_integer [OF assms(3,4)], of 0] lpAppendInteger_ok [OF assms] lpFirst_rep [OF assms(2)]
  by (cases es) (simp_all add: lpPrependInteger_def lpInsertInteger_def Let_def lp_ptr_def)

section \<open>Deleting a range\<close>

lemma shrinkToFit_ok:
  assumes "alloc_ok A" "lp_rep lp es"
  shows "\<exists>lp'. lpShrinkToFit A lp = Inr lp' \<and> lp_rep lp' es"
proof -
  obtain n slack where f: "lp_count_ok n (length es)" "lp = lp_form (int (lp_total es)) (int n) (lp_body es @ [LP_EOF] @ slack)"
    using assms(2) by (rule lp_repE)
  let ?P = "lp_form (int (lp_total es)) (int n) (lp_body es @ [LP_EOF])"
  have lp: "lp = ?P @ slack" "length ?P = lp_total es" using f(2) by (simp_all add: lp_form_def lp_total_def)
  obtain s where "(if lp_total es < length lp then lp_realloc A lp (lp_total es) else lp) = ?P @ s"
    using shrink_ok [OF assms(1) lp, of "length lp"] by auto
  moreover have "lp_rep (?P @ s) es" using assms(2) f(1) by (auto simp: lp_rep_def lp_form_def)
  ultimately show ?thesis using lp_rep_total [OF assms(2)] by (simp add: lpShrinkToFit_def)
qed

lemma deleteRangeLoop_ok:
  assumes "lp_rep lp es" "i < length es"
  shows "deleteRangeLoop lp (lp_total es) (Suc c) (int (lp_pos es i)) d =
    Inr (int (lp_pos es (min (i + Suc c) (length es))), d + min (Suc c) (length es - i))"
  using assms(2)
proof (induction c arbitrary: i d)
  case 0
  then show ?case using lpSkip_entry [OF assms(1) 0] rd_eof [OF assms(1)] rd_entry [OF assms(1), of "Suc i"] assert_valid [OF assms(1), of "Suc i"]
    by (cases "Suc i < length es") (auto simp: not_less le_Suc_eq)
next
  case (Suc c)
  show ?case
  proof (cases "Suc i < length es")
    case True
    then have "min (Suc (Suc c)) (length es - i) = Suc (min (Suc c) (length es - Suc i))" by simp
    then show ?thesis using Suc.IH [of "Suc i" "d + 1"] True lpSkip_entry [OF assms(1) Suc.prems] rd_entry [OF assms(1) True]
        assert_valid [OF assms(1), of "Suc i"]
      by (simp add: deleteRangeLoop.simps(2) [of _ _ "Suc c"] del: deleteRangeLoop.simps)
  next
    case False
    then have "Suc i = length es" "length es - i = 1" using Suc.prems by simp_all
    then show ?thesis using lpSkip_entry [OF assms(1) Suc.prems] rd_eof [OF assms(1)] by (simp add: min_def)
  qed
qed

lemma cut_ok:
  assumes "lp_rep lp (as @ ds @ bs)" "p = int (lp_pos (as @ ds @ bs) (length as))"
    and "tail = int (lp_pos (as @ ds @ bs) (length as + length ds))"
  obtains n slack where "memmove lp p tail (nat (int (lp_total (as @ ds @ bs)) - tail)) =
      Inr (lp_form (int (lp_total (as @ ds @ bs))) (int n) (lp_body (as @ bs) @ LP_EOF # slack))"
    "lp_count_ok n (length (as @ ds @ bs))" "n \<le> 65535" "int (lp_total (as @ ds @ bs)) - (tail - p) = int (lp_total (as @ bs))"
proof -
  obtain n slack where f: "lp_count_ok n (length (as @ ds @ bs))" "n \<le> 65535"
    "lp = lp_form (int (lp_total (as @ ds @ bs))) (int n) (lp_body (as @ ds @ bs) @ [LP_EOF] @ slack)"
    using assms(1) by (rule lp_repE)
  let ?H = "le_bytes 4 (int (lp_total (as @ ds @ bs))) @ le_bytes 2 (int n) @ lp_body as" and ?Y = "lp_body bs @ [LP_EOF]"
  have lp: "lp = ?H @ lp_body ds @ ?Y @ slack" using f(3) by (simp add: lp_form_def)
  have p: "p = int (length ?H)" "tail = p + int (length (lp_body ds))" using assms(2,3) by (simp_all add: lp_pos_def)
  obtain slack' where "memmove lp p tail (length ?Y) = Inr (?H @ ?Y @ slack')"
    using memmove_shift [of ?H 0 ?Y "lp_body ds" slack p] p lp by auto
  moreover have "nat (int (lp_total (as @ ds @ bs)) - tail) = length ?Y" using p by (simp add: lp_total_def)
  ultimately show ?thesis using that [of n slack'] f(1,2) p by (simp add: lp_form_def lp_total_def)
qed

lemma count_minus:
  "lp_count_ok n (a + (d + b)) \<Longrightarrow> lp_count_ok (nat (if n \<noteq> LP_HDR_NUMELE_UNKNOWN then int n - int d else int n)) (a + b)"
  by (auto simp: lp_count_ok_def)

lemma count_nonneg: "lp_count_ok n (a + (d + b)) \<Longrightarrow> 0 \<le> (if n \<noteq> LP_HDR_NUMELE_UNKNOWN then int n - int d else int n)"
  by (auto simp: lp_count_ok_def)

lemma shrink_header_ok:
  assumes "alloc_ok A" "lp_count_ok n (length (as @ ds @ bs))" "\<forall>e\<in>set as \<union> set bs. lp_enc e" "lp_total (as @ bs) < 2 ^ 32"
    and "lp = lp_form t (int n) (lp_body (as @ bs) @ LP_EOF # slack)"
  shows "\<exists>lp'. lp_rep lp' (as @ bs) \<and> (\<forall>K. res_bind (lpSetTotalBytes lp (int (lp_total (as @ bs)))) (\<lambda>lp.
      res_bind (lpGetNumElements lp) (\<lambda>numele.
      res_bind (if numele \<noteq> LP_HDR_NUMELE_UNKNOWN then lpSetNumElements lp (int numele - int (length ds)) else Inr lp) (\<lambda>lp.
      res_bind (lpShrinkToFit A lp) K))) = K lp')"
proof -
  let ?n = "if n \<noteq> LP_HDR_NUMELE_UNKNOWN then int n - int (length ds) else int n"
  let ?lp = "lp_form (int (lp_total (as @ bs))) ?n (lp_body (as @ bs) @ LP_EOF # slack)"
  have "lp_rep ?lp (as @ bs)"
    using assms(2-4) count_minus [of n "length as" "length ds" "length bs"] count_nonneg [of n "length as" "length ds" "length bs"]
    by (intro lp_repI [of _ ?n _ slack]) auto
  then obtain lp' where lp': "lpShrinkToFit A ?lp = Inr lp'" "lp_rep lp' (as @ bs)" using shrinkToFit_ok [OF assms(1)] by blast
  have "n < 2 ^ 16" using assms(2) by (auto simp: lp_count_ok_def)
  then show ?thesis using lp' by (intro exI [of _ lp']) (simp add: assms(5) set_total_form get_num_form set_num_form split: if_splits)
qed

lemma lpDeleteRangeWithEntry_ok:
  assumes "alloc_ok A" "lp_rep lp es" "i < length es"
  shows "\<exists>lp'. lp_rep lp' (take i es @ drop (i + c) es) \<and>
    lpDeleteRangeWithEntry A lp (int (lp_pos es i)) c = Inr (lp', lp_ptr (take i es @ drop (i + c) es) i)"
proof (cases c)
  case 0
  then show ?thesis using assms(2,3) lp_rep_total [OF assms(2)]
    by (auto simp: lpDeleteRangeWithEntry_def lpBytes_def lp_ptr_def)
next
  case (Suc m)
  let ?j = "min (i + c) (length es)" and ?new = "take i es @ drop (i + c) es"
  define ds where "ds = take c (drop i es)"
  have es: "take i es @ ds @ drop (i + c) es = es"
    by (metis append_take_drop_id drop_drop add.commute ds_def)
  have len: "length (take i es) = i" "length ds = min c (length es - i)" "?j = i + length ds"
    using assms(3) by (simp_all add: ds_def)
  have pos: "lp_pos ?new i = lp_pos es i" using assms(3) by (simp add: lp_pos_def)
  have loop: "deleteRangeLoop lp (lp_total es) c (int (lp_pos es i)) 0 = Inr (int (lp_pos es ?j), length ds)"
    using deleteRangeLoop_ok [OF assms(2,3), of m 0] Suc len(2) by simp
  obtain n slack where cut: "memmove lp (int (lp_pos es i)) (int (lp_pos es ?j)) (nat (int (lp_total es) - int (lp_pos es ?j))) =
      Inr (lp_form (int (lp_total es)) (int n) (lp_body ?new @ LP_EOF # slack))"
    "lp_count_ok n (length es)" "int (lp_total es) - (int (lp_pos es ?j) - int (lp_pos es i)) = int (lp_total ?new)"
    by (rule cut_ok [of lp "take i es" ds "drop (i + c) es", unfolded es len(1), folded len(3), OF assms(2) refl refl])
  have ok: "\<forall>e\<in>set (take i es) \<union> set (drop (i + c) es). lp_enc e" "lp_total ?new < 2 ^ 32"
    using assms(2) arg_cong [OF es, of lp_total] by (auto simp: lp_rep_def lp_total_def dest: in_set_takeD in_set_dropD)
  obtain lp' where lp': "lp_rep lp' ?new" "\<And>K :: buffer \<Rightarrow> (buffer \<times> int option) result. res_bind (lpSetTotalBytes (lp_form (int (lp_total es)) (int n) (lp_body ?new @ LP_EOF # slack)) (int (lp_total ?new))) (\<lambda>lp.
      res_bind (lpGetNumElements lp) (\<lambda>numele.
      res_bind (if numele \<noteq> LP_HDR_NUMELE_UNKNOWN then lpSetNumElements lp (int numele - int (length ds)) else Inr lp) (\<lambda>lp.
      res_bind (lpShrinkToFit A lp) K))) = K lp'"
    using shrink_header_ok [OF assms(1), of n "take i es" ds "drop (i + c) es", unfolded es, OF cut(2) ok refl] by blast
  have c: "(c = 0) = False" using Suc by simp
  have run: "lpDeleteRangeWithEntry A lp (int (lp_pos es i)) c =
      res_bind (rd lp' (int (lp_pos es i))) (\<lambda>b. Inr (lp', if b = LP_EOF then None else Some (int (lp_pos es i))))"
    unfolding lpDeleteRangeWithEntry_def lpBytes_def lp_rep_total [OF assms(2)] res_bind_simps loop c if_False prod.case cut(1,3)
    by (simp only: lp'(2))
  have "\<exists>b. rd lp' (int (lp_pos es i)) = Inr b \<and> (b = LP_EOF \<longleftrightarrow> \<not> i < length ?new)"
    using rd_entry [OF lp'(1), of i] rd_eof [OF lp'(1)] pos assms(3) by (cases "i < length ?new") (auto simp: not_less)
  then show ?thesis using lp'(1) pos unfolding run by (auto simp: lp_ptr_def)
qed

definition range_removed :: "'a list \<Rightarrow> int \<Rightarrow> nat \<Rightarrow> 'a list" where
  "range_removed xs idx c = (case index_of (length xs) idx of None \<Rightarrow> xs | Some j \<Rightarrow> take j xs @ drop (j + c) xs)"

lemma wr_append: "wr (H @ b # R) (int (length H)) v = Inr (H @ v # R)"
  by (simp add: wr_def)

lemma truncate_ok:
  assumes "alloc_ok A" "lp_rep lp es" "j < length es" "length es < LP_HDR_NUMELE_UNKNOWN"
  shows "\<exists>lp'. res_bind (wr lp (int (lp_pos es j)) LP_EOF) (\<lambda>lp.
    res_bind (lpSetTotalBytes lp (int (lp_pos es j) + 1)) (\<lambda>lp.
    res_bind (lpSetNumElements lp (int j)) (\<lambda>lp. lpShrinkToFit A lp))) = Inr lp' \<and> lp_rep lp' (take j es)"
proof -
  obtain n slack where f: "lp = lp_form (int (lp_total es)) (int n) (lp_body es @ [LP_EOF] @ slack)" using assms(2) by (rule lp_repE)
  let ?H = "le_bytes 4 (int (lp_total es)) @ le_bytes 2 (int n) @ lp_body (take j es)" and ?R = "lp_body (drop j es) @ [LP_EOF] @ slack"
  have body: "lp_body es = lp_body (take j es) @ lp_body (drop j es)" by (simp flip: lp_body_simps(3))
  have lp: "lp = ?H @ ?R" using f unfolding body by (simp add: lp_form_def)
  obtain b R where R: "?R = b # R" by (cases ?R) auto
  have pos: "int (lp_pos es j) = int (length ?H)" "int (lp_pos es j) + 1 = int (lp_total (take j es))"
    by (simp_all add: lp_pos_def lp_total_def)
  have w: "wr lp (int (lp_pos es j)) LP_EOF = Inr (lp_form (int (lp_total es)) (int n) (lp_body (take j es) @ LP_EOF # R))"
    unfolding lp R pos(1) wr_append by (simp add: lp_form_def)
  have ok: "\<forall>e\<in>set (take j es). lp_enc e" "lp_total (take j es) < 2 ^ 32"
    using assms(2) body by (auto simp: lp_rep_def lp_total_def dest: in_set_takeD)
  have "lp_rep (lp_form (int (lp_total (take j es))) (int j) (lp_body (take j es) @ LP_EOF # R)) (take j es)"
    by (rule lp_repI [OF ok _ _ refl]) (use assms(3,4) in \<open>simp_all add: lp_count_ok_def\<close>)
  then show ?thesis using shrinkToFit_ok [OF assms(1)] unfolding w pos(2)
    by (simp add: set_total_form set_num_form)
qed

lemma lpDeleteRange_ok:
  assumes "alloc_ok A" "lp_rep lp es"
  shows "\<exists>lp'. lpDeleteRange A lp idx c = Inr lp' \<and> lp_rep lp' (range_removed es idx c)"
proof -
  obtain n slack where f: "lp_count_ok n (length es)" "lpGetNumElements lp = Inr n" using assms(2) by (rule lp_repE)
  note seek = lpSeek_ok [OF assms(2), of idx]
  show ?thesis
  proof (cases "c = 0")
    case True
    then show ?thesis using assms(2) f(2) by (simp add: lpDeleteRange_def range_removed_def split: option.splits)
  next
    case c: False
    show ?thesis
    proof (cases "index_of (length es) idx")
      case None
      then show ?thesis using assms(2) f(2) c seek by (simp add: lpDeleteRange_def range_removed_def)
    next
      case (Some j)
      then have j: "j < length es" "int j = (if idx < 0 then int (length es) + idx else idx)"
        by (auto simp: index_of_def Let_def split: if_splits)
      let ?cut = "n \<noteq> LP_HDR_NUMELE_UNKNOWN \<and> (int n - int j) mod 2 ^ 64 \<le> int c" and ?p = "int (lp_pos es j)"
      have idx: "(if n \<noteq> LP_HDR_NUMELE_UNKNOWN \<and> idx < 0 then int n + idx else idx) = int j" "n = length es"
        if "n \<noteq> LP_HDR_NUMELE_UNKNOWN"
        using j f(1) that by (auto simp: lp_count_ok_def split: if_splits)
      have c: "(c = 0) = False" using c by simp
      have run: "lpDeleteRange A lp idx c =
          (if ?cut then res_bind (wr lp ?p LP_EOF) (\<lambda>lp. res_bind (lpSetTotalBytes lp (?p + 1)) (\<lambda>lp.
              res_bind (lpSetNumElements lp (int j)) (\<lambda>lp. lpShrinkToFit A lp)))
           else res_bind (lpDeleteRangeWithEntry A lp ?p c) (\<lambda>(lp, _). Inr lp))"
        unfolding lpDeleteRange_def Let_def f(2) res_bind_simps seek Some option.case lp_ptr_def if_P [OF j(1)] c if_False
        using idx(1) by (cases "n = LP_HDR_NUMELE_UNKNOWN") (simp_all only: simp_thms if_False)
      show ?thesis
      proof (cases ?cut)
        case True
        then have "length es < LP_HDR_NUMELE_UNKNOWN" "drop (j + c) es = []"
          using idx(2) f(1) j(1) by (auto simp: lp_count_ok_def mod_pos_pos_trivial)
        then show ?thesis using truncate_ok [OF assms(1,2) j(1)] Some unfolding run if_P [OF True]
          by (simp only: range_removed_def option.case append_Nil2 simp_thms)
      next
        case False
        then show ?thesis using lpDeleteRangeWithEntry_ok [OF assms(1,2) j(1), of c] Some
          unfolding run if_not_P [OF False] by (auto simp: range_removed_def)
      qed
    qed
  qed
qed

end
