(* ===== verification/Listpack_Bulk.thy ===== *)
theory Listpack_Bulk
  imports Listpack_Edit
begin

text \<open>
  Operations on many entries of a listpack at once: deletion of a set of entries, insertion of a batch,
  merging, creation and copying.
\<close>

section \<open>Deleting a set of entries\<close>

text \<open>The entries behind the \<open>i\<close>-th that are not at one of the increasing indexes.\<close>

fun kept :: "'a list \<Rightarrow> nat \<Rightarrow> nat list \<Rightarrow> 'a list" where
  "kept es i [] = drop (Suc i) es"
| "kept es i (i' # js) = take (i' - Suc i) (drop (Suc i) es) @ kept es i' js"

lemma memmove_down:
  "memmove (H @ old @ Y @ rest) (int (length H)) (int (length H) + int (length old)) (length Y) =
   Inr (H @ Y @ drop (length Y) (old @ Y) @ rest)"
proof -
  let ?lp = "H @ old @ Y @ rest"
  have "rdn ?lp (int (length H) + int (length old)) (length Y) = Inr Y" using rdn_append [of "H @ old" Y rest] by simp
  moreover have "wrn ?lp (int (length H)) Y = Inr (H @ Y @ drop (length Y) (old @ Y) @ rest)"
  proof -
    have "?lp = H @ take (length Y) (old @ Y) @ drop (length Y) (old @ Y) @ rest"
      by (metis append.assoc append_take_drop_id)
    moreover have "length (take (length Y) (old @ Y)) = length Y" by simp
    ultimately show ?thesis by (metis wrn_append)
  qed
  ultimately show ?thesis by (simp add: memmove_def)
qed

lemma skip_at:
  assumes "lp_enc e"
  shows "lpSkip (pre @ lp_entry e @ post) (int (length pre)) = Inr (int (length pre) + int (length (lp_entry e)))"
    "rd (pre @ lp_entry e @ post) (int (length pre)) = Inr (hd e)"
  using encoded_size_at [OF assms, of pre "lpEncodeBacklen (length e) @ post"] rd_hd [of e pre "lpEncodeBacklen (length e) @ post"] assms
  by (simp_all add: lpSkip_def length_entry, simp_all add: lp_entry_def lp_enc_def)

lemma body_from:
  assumes "i < i'" "i' \<le> length es"
  shows "lp_body (drop i es) = lp_entry (es ! i) @ lp_body (take (i' - Suc i) (drop (Suc i) es)) @ lp_body (drop i' es)"
    "lp_pos es i' = lp_pos es i + length (lp_entry (es ! i)) + length (lp_body (take (i' - Suc i) (drop (Suc i) es)))"
proof -
  have d: "drop i es = es ! i # take (i' - Suc i) (drop (Suc i) es) @ drop i' es"
    using assms by (metis Cons_nth_drop_Suc append_take_drop_id drop_drop le_add_diff_inverse2 less_le_trans Suc_leI)
  then show "lp_body (drop i es) = lp_entry (es ! i) @ lp_body (take (i' - Suc i) (drop (Suc i) es)) @ lp_body (drop i' es)" by simp
  have "take i' es = take i es @ es ! i # take (i' - Suc i) (drop (Suc i) es)"
    using assms take_add [of i "i' - i" es] d by (simp add: take_Cons' Suc_diff_Suc)
  then show "lp_pos es i' = lp_pos es i + length (lp_entry (es ! i)) + length (lp_body (take (i' - Suc i) (drop (Suc i) es)))"
    by (simp add: lp_pos_def)
qed

lemma body_nonempty: "es \<noteq> [] \<Longrightarrow> 0 < length (lp_body es)"
  using entry_nonempty [of "hd es"] by (cases es) simp_all

lemma batchDelete_step:
  assumes "i < i'" "i' \<le> length es" "lp_enc (es ! i)" "length (P @ J) = lp_pos es i"
    and "lp = P @ J @ lp_body (drop i es) @ rest" "M = lp_body (take (i' - Suc i) (drop (Suc i) es))"
    and "M @ Y \<noteq> []" "tail = int (lp_pos es i') + int (length Y)" "lp_body (drop i' es) @ rest = Y @ rest'"
  shows "\<exists>J'. memmove lp (int (length P)) (int (lp_pos es (Suc i))) (nat (tail - int (lp_pos es (Suc i)))) = Inr (P @ (M @ Y) @ J' @ rest') \<and>
    length (P @ (M @ Y) @ J') = lp_pos es i' + length Y \<and> int (lp_pos es (Suc i)) < tail \<and>
    lpSkip lp (int (lp_pos es i)) = Inr (int (lp_pos es (Suc i))) \<and> rd lp (int (lp_pos es i)) = Inr (hd (es ! i))"
proof -
  let ?e = "lp_entry (es ! i)"
  have lp: "lp = P @ (J @ ?e) @ (M @ Y) @ rest'" using assms(5,6,9) body_from(1) [OF assms(1,2)] by simp
  have pos: "lp_pos es (Suc i) = lp_pos es i + length ?e" "lp_pos es i' = lp_pos es (Suc i) + length M"
    using lp_pos_Suc [of i es] body_from(2) [OF assms(1,2)] assms(1,2,6) by simp_all
  have n: "nat (tail - int (lp_pos es (Suc i))) = length (M @ Y)" using assms(8) pos(2) by simp
  have src: "int (lp_pos es (Suc i)) = int (length P) + int (length (J @ ?e))" using assms(4) pos(1) by simp
  define J' where "J' = drop (length (M @ Y)) ((J @ ?e) @ M @ Y)"
  have "memmove lp (int (length P)) (int (lp_pos es (Suc i))) (nat (tail - int (lp_pos es (Suc i)))) = Inr (P @ (M @ Y) @ J' @ rest')"
    unfolding n unfolding src lp J'_def by (rule memmove_down)
  moreover have "length J' = length J + length ?e" by (simp add: J'_def)
  moreover have "int (lp_pos es (Suc i)) < tail"
  proof -
    have "0 < length (M @ Y)" using assms(7) by blast
    then show ?thesis using assms(8) pos(2) unfolding length_append by linarith
  qed
  moreover have "lpSkip lp (int (lp_pos es i)) = Inr (int (lp_pos es (Suc i)))" "rd lp (int (lp_pos es i)) = Inr (hd (es ! i))"
    using skip_at [OF assms(3), of "P @ J" "(M @ Y) @ rest'", unfolded assms(4)] lp pos(1) by simp_all
  ultimately show ?thesis using assms(4) pos
    by (intro exI [of _ J']) simp
qed

lemmas batchDeleteLoop_more = batchDeleteLoop.simps(2) [where ps = "p # ps" for p ps]

lemma batchDeleteLoop_ok:
  assumes "sorted_wrt (<) (i # js)" "\<forall>j\<in>set (i # js). j < length es" "\<forall>e\<in>set es. lp_enc e"
    and "length (P @ J) = lp_pos es i" "lp = P @ J @ lp_body (drop i es) @ LP_EOF # slack"
  shows "\<exists>slack'. batchDeleteLoop lp (int (lp_total es)) (map (\<lambda>j. int (lp_pos es j)) (i # js)) (int (length P)) =
    Inr (P @ lp_body (kept es i js) @ LP_EOF # slack', int (length P + length (lp_body (kept es i js)) + 1))"
  using assms
proof (induction js arbitrary: i P J lp)
  case Nil
  have i: "i < length es" and e: "lp_enc (es ! i)" using Nil.prems by simp_all
  have tot: "int (lp_total es) = int (lp_pos es (length es)) + int (length [LP_EOF])" using lp_pos_last [of es] by (simp add: lp_total_def)
  obtain J' where "memmove lp (int (length P)) (int (lp_pos es (Suc i))) (nat (int (lp_total es) - int (lp_pos es (Suc i)))) =
      Inr (P @ (lp_body (drop (Suc i) es) @ [LP_EOF]) @ J' @ slack)" "int (lp_pos es (Suc i)) < int (lp_total es)"
    "lpSkip lp (int (lp_pos es i)) = Inr (int (lp_pos es (Suc i)))" "rd lp (int (lp_pos es i)) = Inr (hd (es ! i))"
    using batchDelete_step [OF i order_refl e Nil.prems(4,5) refl _ tot, of slack] by auto
  moreover have "int (lp_total es) - int (lp_pos es (Suc i)) = int (length (lp_body (drop (Suc i) es))) + 1"
    using body_from(2) [OF i order_refl] lp_pos_Suc [OF i] tot by simp
  ultimately show ?case using lp_enc_hd [OF e] by auto
next
  case (Cons i' js)
  let ?M = "lp_body (take (i' - Suc i) (drop (Suc i) es))"
  have i: "i < i'" "i' \<le> length es" "i < length es" and e: "lp_enc (es ! i)" using Cons.prems by simp_all
  have next': "sorted_wrt (<) (i' # js)" "\<forall>j\<in>set (i' # js). j < length es" using Cons.prems(1,2) by simp_all
  show ?case
  proof (cases "i' = Suc i")
    case True
    let ?J = "J @ lp_entry (es ! i)"
    have lp: "lp = P @ ?J @ lp_body (drop i' es) @ LP_EOF # slack" "length (P @ ?J) = lp_pos es i'"
      using Cons.prems(4,5) body_from [OF i(1,2)] True by simp_all
    have "lpSkip lp (int (lp_pos es i)) = Inr (int (lp_pos es i'))" "rd lp (int (lp_pos es i)) = Inr (hd (es ! i))"
      using skip_at [OF e, of "P @ J" "lp_body (drop i' es) @ LP_EOF # slack", unfolded Cons.prems(4)] lp Cons.prems(4) by simp_all
    then show ?thesis using Cons.IH [OF next' Cons.prems(3) lp(2,1)] True lp_enc_hd [OF e]
      by (simp add: batchDeleteLoop_more del: batchDeleteLoop.simps)
  next
    case False
    then have M: "take (i' - Suc i) (drop (Suc i) es) \<noteq> []" using i by simp
    then have "?M @ [] \<noteq> []" using body_nonempty [OF M] by auto
    then obtain J' where st: "memmove lp (int (length P)) (int (lp_pos es (Suc i))) (nat (int (lp_pos es i') - int (lp_pos es (Suc i)))) =
        Inr ((P @ ?M) @ J' @ lp_body (drop i' es) @ LP_EOF # slack)" "length ((P @ ?M) @ J') = lp_pos es i'"
      "int (lp_pos es (Suc i)) < int (lp_pos es i')" "lpSkip lp (int (lp_pos es i)) = Inr (int (lp_pos es (Suc i)))"
      "rd lp (int (lp_pos es i)) = Inr (hd (es ! i))"
      using batchDelete_step [OF i(1,2) e Cons.prems(4,5) refl, of "[]" "int (lp_pos es i')"] by auto
    have n: "int (length P) + int (nat (int (lp_pos es i') - int (lp_pos es (Suc i)))) = int (length (P @ ?M))"
      using body_from(2) [OF i(1,2)] lp_pos_Suc [OF i(3)] by simp
    have "batchDeleteLoop lp (int (lp_total es)) (map (\<lambda>j. int (lp_pos es j)) (i # i' # js)) (int (length P)) =
        batchDeleteLoop ((P @ ?M) @ J' @ lp_body (drop i' es) @ LP_EOF # slack) (int (lp_total es)) (map (\<lambda>j. int (lp_pos es j)) (i' # js)) (int (length (P @ ?M)))"
      unfolding n [symmetric] using st lp_enc_hd [OF e] by (simp add: batchDeleteLoop_more Let_def del: batchDeleteLoop.simps)
    then show ?thesis using Cons.IH [OF next' Cons.prems(3) st(2) refl] by auto
  qed
qed

lemma nths_skip:
  assumes "m < length xs" "\<forall>k<m. k \<in> A" "m \<notin> A"
  shows "nths xs A = take m xs @ nths (drop (Suc m) xs) {k. k + Suc m \<in> A}"
proof -
  have "xs = take m xs @ xs ! m # drop (Suc m) xs" using assms(1) by (simp add: id_take_nth_drop)
  moreover have "nths (take m xs @ xs ! m # drop (Suc m) xs) A = take m xs @ nths (drop (Suc m) xs) {k. k + Suc m \<in> A}"
    using assms by (simp add: nths_append nths_Cons nths_all min_absorb2)
  ultimately show ?thesis by metis
qed

lemma kept_nths:
  assumes "sorted_wrt (<) (i # js)" "\<forall>j\<in>set (i # js). j < length es"
  shows "kept es i js = nths (drop (Suc i) es) {k. k + Suc i \<notin> set js}"
  using assms
proof (induction es i js rule: kept.induct)
  case (2 es i i' js)
  let ?A = "{k. k + Suc i \<notin> set (i' # js)}"
  have i: "i < i'" "i' < length es" "\<forall>j\<in>set js. i' < j" using 2(2,3) by simp_all
  have "nths (drop (Suc i) es) ?A = take (i' - Suc i) (drop (Suc i) es) @ nths (drop (Suc (i' - Suc i)) (drop (Suc i) es)) {k. k + Suc (i' - Suc i) \<in> ?A}"
    using i by (intro nths_skip) auto
  moreover have "{k. k + Suc (i' - Suc i) \<in> ?A} = {k. k + Suc i' \<notin> set js}" "drop (Suc (i' - Suc i)) (drop (Suc i) es) = drop (Suc i') es"
    using i by auto
  ultimately show ?case using 2 by simp
qed (simp add: nths_all)

lemma kept_all:
  assumes "sorted_wrt (<) (i # js)" "\<forall>j\<in>set (i # js). j < length es"
  shows "take i es @ kept es i js = nths es (- set (i # js))"
proof -
  have "nths es (- set (i # js)) = take i es @ nths (drop (Suc i) es) {k. k + Suc i \<in> - set (i # js)}"
    using assms by (intro nths_skip) auto
  moreover have "{k. k + Suc i \<notin> set js} = {k. k + Suc i \<in> - set (i # js)}" by auto
  ultimately show ?thesis using kept_nths [OF assms] by (simp only:)
qed

lemma kept_length:
  assumes "sorted_wrt (<) (i # js)" "\<forall>j\<in>set (i # js). j < length es"
  shows "length (kept es i js) + length js = length es - Suc i \<and> length (lp_body (kept es i js)) \<le> length (lp_body (drop (Suc i) es))"
  using assms
proof (induction es i js rule: kept.induct)
  case (2 es i i' js)
  have i: "i < i'" "i' < length es" "i < length es" using 2(2,3) by simp_all
  have "lp_body (drop i es) = lp_entry (es ! i) @ lp_body (drop (Suc i) es)" "lp_body (drop i' es) = lp_entry (es ! i') @ lp_body (drop (Suc i') es)"
    using i by (simp_all flip: Cons_nth_drop_Suc)
  then have eq: "lp_body (drop (Suc i) es) = lp_body (take (i' - Suc i) (drop (Suc i) es)) @ lp_entry (es ! i') @ lp_body (drop (Suc i') es)"
    using body_from(1) [of i i' es] i by simp
  have "length (lp_body (drop (Suc i') es)) + length (lp_body (take (i' - Suc i) (drop (Suc i) es))) \<le> length (lp_body (drop (Suc i) es))"
    using arg_cong [where f = length, OF eq] by simp
  then show ?case using 2 i by auto
qed simp

lemma res_bind_Inr: "res_bind m Inr = m"
  by (cases m) simp_all

lemma shrink_header_end:
  assumes "alloc_ok A" "lp_count_ok n (length (as @ ds @ bs))" "\<forall>e\<in>set as \<union> set bs. lp_enc e" "lp_total (as @ bs) < 2 ^ 32"
    and "lp = lp_form t (int n) (lp_body (as @ bs) @ LP_EOF # slack)"
  shows "\<exists>lp'. lp_rep lp' (as @ bs) \<and> res_bind (lpSetTotalBytes lp (int (lp_total (as @ bs)))) (\<lambda>lp.
      res_bind (lpGetNumElements lp) (\<lambda>numele.
      res_bind (if numele \<noteq> LP_HDR_NUMELE_UNKNOWN then lpSetNumElements lp (int numele - int (length ds)) else Inr lp) (\<lambda>lp.
      lpShrinkToFit A lp))) = Inr lp'"
proof -
  obtain lp' where "lp_rep lp' (as @ bs)" and run: "\<forall>K :: buffer \<Rightarrow> buffer result. res_bind (lpSetTotalBytes lp (int (lp_total (as @ bs)))) (\<lambda>lp.
      res_bind (lpGetNumElements lp) (\<lambda>numele.
      res_bind (if numele \<noteq> LP_HDR_NUMELE_UNKNOWN then lpSetNumElements lp (int numele - int (length ds)) else Inr lp) (\<lambda>lp.
      res_bind (lpShrinkToFit A lp) K))) = K lp'"
    using shrink_header_ok [OF assms] by blast
  then show ?thesis using spec [OF run, of Inr] unfolding res_bind_Inr by blast
qed

lemma lpBatchDelete_ok:
  assumes "alloc_ok A" "lp_rep lp es" "sorted_wrt (<) js" "\<forall>j\<in>set js. j < length es"
  shows "\<exists>lp'. lpBatchDelete A lp (map (\<lambda>j. int (lp_pos es j)) js) = Inr lp' \<and> lp_rep lp' (nths es (- set js))"
proof (cases js)
  case Nil
  then show ?thesis using assms(2) by (simp add: lpBatchDelete_def nths_all)
next
  case (Cons i ks)
  obtain n slack where f: "lp_count_ok n (length es)" "n \<le> 65535"
    "lp = lp_form (int (lp_total es)) (int n) (lp_body es @ [LP_EOF] @ slack)" using assms(2) by (rule lp_repE)
  let ?new = "take i es @ kept es i ks"
  have new: "nths es (- set js) = ?new" using kept_all assms(3,4) unfolding Cons by metis
  have i: "i < length es" "\<forall>e\<in>set es. lp_enc e" "lp_total es < 2 ^ 32" using assms(2,4) Cons by (simp_all add: lp_rep_def)
  let ?P = "le_bytes 4 (int (lp_total es)) @ le_bytes 2 (int n) @ lp_body (take i es)"
  have body: "lp_body es = lp_body (take i es) @ lp_body (drop i es)" by (simp flip: lp_body_simps(3))
  have lp: "lp = ?P @ [] @ lp_body (drop i es) @ LP_EOF # slack" "length (?P @ []) = lp_pos es i"
    using f(3) body by (simp_all add: lp_form_def lp_pos_def)
  obtain slack' where loop: "batchDeleteLoop lp (int (lp_total es)) (map (\<lambda>j. int (lp_pos es j)) js) (int (length ?P)) =
      Inr (?P @ lp_body (kept es i ks) @ LP_EOF # slack', int (length ?P + length (lp_body (kept es i ks)) + 1))"
    using batchDeleteLoop_ok [OF assms(3,4) [unfolded Cons] i(2) lp(2,1)] unfolding Cons by blast
  let ?lp = "lp_form (int (lp_total es)) (int n) (lp_body ?new @ LP_EOF # slack')"
  have lp2: "?P @ lp_body (kept es i ks) @ LP_EOF # slack' = ?lp" "int (length ?P + length (lp_body (kept es i ks)) + 1) = int (lp_total ?new)"
    by (simp_all add: lp_form_def lp_total_def)
  have kl: "length (kept es i ks) + length ks = length es - Suc i" "length (lp_body (kept es i ks)) \<le> length (lp_body (drop (Suc i) es))"
    using kept_length [of i ks es] assms(3,4) unfolding Cons by simp_all
  have ok: "\<forall>e\<in>set ?new \<union> set []. lp_enc e" "lp_total (?new @ []) < 2 ^ 32" "lp_count_ok n (length (?new @ map ((!) es) js @ []))"
  proof -
    show "\<forall>e\<in>set ?new \<union> set []. lp_enc e" using i(2) set_nths_subset [of es "- set js"] unfolding new by auto
    have "lp_body (drop i es) = lp_entry (es ! i) @ lp_body (drop (Suc i) es)" using i(1) by (simp flip: Cons_nth_drop_Suc)
    then show "lp_total (?new @ []) < 2 ^ 32" using i(3) kl(2) body by (simp add: lp_total_def)
    have "length (?new @ map ((!) es) js @ []) = length es" using kl(1) i(1) by (simp add: Cons)
    then show "lp_count_ok n (length (?new @ map ((!) es) js @ []))" using f(1) by (simp only:)
  qed
  obtain lp' where lp': "lp_rep lp' ?new" "res_bind (lpSetTotalBytes ?lp (int (lp_total ?new))) (\<lambda>lp.
      res_bind (lpGetNumElements lp) (\<lambda>numele.
      res_bind (if numele \<noteq> LP_HDR_NUMELE_UNKNOWN then lpSetNumElements lp (int numele - int (length js)) else Inr lp) (\<lambda>lp.
      lpShrinkToFit A lp))) = Inr lp'"
    using shrink_header_end [OF assms(1) ok(3,1,2) refl, of "int (lp_total es)" slack'] unfolding append_Nil2 length_map by blast
  have eof: "rd lp (int (lp_total es) - 1) = Inr LP_EOF" "rd ?lp (int (lp_total ?new) - 1) = Inr LP_EOF"
    using rd_eof [OF assms(2)] lp_pos_last [of es] rd_append [of "le_bytes 4 (int (lp_total es)) @ le_bytes 2 (int n) @ lp_body ?new" LP_EOF slack']
    by (simp_all add: lp_total_def lp_form_def)
  have arith: "int (lp_total es) - (int (lp_total es) - int (lp_total ?new)) = int (lp_total ?new)" by simp
  have "lpBatchDelete A lp (map (\<lambda>j. int (lp_pos es j)) js) = Inr lp'"
  proof -
    have js: "map (\<lambda>j. int (lp_pos es j)) js = int (length ?P) # map (\<lambda>j. int (lp_pos es j)) ks"
      "length (int (length ?P) # map (\<lambda>j. int (lp_pos es j)) ks) = length js" using lp(2) by (simp_all add: Cons)
    show ?thesis
      unfolding lpBatchDelete_def js list.case lp_rep_total [OF assms(2)] res_bind_simps eof res_assert_simps simp_thms
        loop [unfolded lp2, unfolded js] prod.case Let_def arith by (rule lp'(2))
  qed
  then show ?thesis using lp'(1) unfolding new by blast
qed

section \<open>Merging\<close>

lemma merge_append:
  assumes "alloc_ok A" "lp_rep t es" "lp_rep s es'" "T = lp_total (es @ es')"
  shows "\<exists>n slack. res_bind (rdn s LP_HDR_SIZE (lp_total es' - 6)) (\<lambda>b. wrn (lp_realloc A t T) (int (lp_total es) - 1) b) =
    Inr (lp_form (int (lp_total es)) n (lp_body (es @ es') @ LP_EOF # slack))"
proof -
  obtain n slack where t: "t = lp_form (int (lp_total es)) (int n) (lp_body es @ [LP_EOF] @ slack)" using assms(2) by (rule lp_repE)
  obtain n' slack' where s: "s = lp_form (int (lp_total es')) (int n') (lp_body es' @ [LP_EOF] @ slack')" using assms(3) by (rule lp_repE)
  let ?H = "le_bytes 4 (int (lp_total es)) @ le_bytes 2 (int n) @ lp_body es" and ?B = "lp_body es' @ [LP_EOF]"
  have "rdn s LP_HDR_SIZE (lp_total es' - 6) = Inr ?B"
    using rdn_append [of "le_bytes 4 (int (lp_total es')) @ le_bytes 2 (int n')" ?B slack'] by (simp add: s lp_form_def lp_total_def)
  moreover obtain slack2 where r: "lp_realloc A t T = (?H @ [LP_EOF]) @ slack2" "T \<le> length (lp_realloc A t T)"
    using realloc_keep [OF assms(1), of "?H @ [LP_EOF]" T slack] t assms(4) by (auto simp: lp_form_def lp_total_def)
  moreover have "wrn (lp_realloc A t T) (int (lp_total es) - 1) ?B = Inr (?H @ ?B @ drop (length ?B) (LP_EOF # slack2))"
  proof -
    have "length (take (length ?B) (LP_EOF # slack2)) = length ?B" using r assms(4) by (simp add: lp_total_def min_def)
    then show ?thesis
      using wrn_append [of ?B "take (length ?B) (LP_EOF # slack2)" ?H "drop (length ?B) (LP_EOF # slack2)"] r(1)
      by (simp only: append_take_drop_id) (simp add: lp_total_def)
  qed
  ultimately show ?thesis by (auto simp: lp_form_def)
qed

lemma merge_prepend:
  assumes "alloc_ok A" "lp_rep t es'" "lp_rep s es" "T = lp_total (es @ es')"
  shows "\<exists>n slack. res_bind (memmove (lp_realloc A t T) (int (lp_total es) - 1) LP_HDR_SIZE (lp_total es' - 6)) (\<lambda>t.
      res_bind (rdn s 0 (lp_total es - 1)) (\<lambda>b. wrn t 0 b)) =
    Inr (lp_form (int (lp_total es)) n (lp_body (es @ es') @ LP_EOF # slack))"
proof -
  obtain n slack where t: "t = lp_form (int (lp_total es')) (int n) (lp_body es' @ [LP_EOF] @ slack)" using assms(2) by (rule lp_repE)
  obtain n' slack' where s: "s = lp_form (int (lp_total es)) (int n') (lp_body es @ [LP_EOF] @ slack')" using assms(3) by (rule lp_repE)
  let ?H = "le_bytes 4 (int (lp_total es')) @ le_bytes 2 (int n)" and ?B = "lp_body es' @ [LP_EOF]"
  let ?P = "le_bytes 4 (int (lp_total es)) @ le_bytes 2 (int n') @ lp_body es"
  obtain slack2 where r: "lp_realloc A t T = ?H @ [] @ ?B @ slack2" "T \<le> length (lp_realloc A t T)"
    using realloc_keep [OF assms(1), of "?H @ ?B" T slack] t assms(4) by (auto simp: lp_form_def lp_total_def)
  obtain mid slack3 where m: "length mid = length (lp_body es)"
    "memmove (?H @ [] @ ?B @ slack2) (6 + int (length (lp_body es))) (6 + int (length ([] :: buffer))) (length ?B) = Inr (?H @ mid @ ?B @ slack3)"
    using memmove_shift [of ?H "length (lp_body es)" ?B "[]" slack2 6] r assms(4) by (auto simp: lp_total_def)
  have "rdn s 0 (lp_total es - 1) = Inr ?P"
    using rdn_append [of "[]" ?P "LP_EOF # slack'"] by (simp add: s lp_form_def lp_total_def)
  moreover have "wrn (?H @ mid @ ?B @ slack3) 0 ?P = Inr (?P @ ?B @ slack3)"
    using wrn_append [of ?P "?H @ mid" "[]" "?B @ slack3"] m(1) by simp
  moreover have "memmove (lp_realloc A t T) (int (lp_total es) - 1) LP_HDR_SIZE (lp_total es' - 6) = Inr (?H @ mid @ ?B @ slack3)"
    using m(2) r(1) by (simp add: lp_total_def)
  ultimately show ?thesis by (auto simp: lp_form_def)
qed

lemma merge_total: "lp_total es + lp_total es' - 7 = lp_total (es @ es')"
  by (simp add: lp_total_def)

lemma merge_target:
  assumes "alloc_ok A" "lp_rep lp1 es" "lp_rep lp2 es'" "T = lp_total (es @ es')"
  obtains n slack where
    "(if lp_total es' \<le> lp_total es then
        res_bind (rdn lp2 LP_HDR_SIZE (lp_total es' - 6)) (\<lambda>b. wrn (lp_realloc A lp1 T) (int (lp_total es) - 1) b)
      else
        res_bind (memmove (lp_realloc A lp2 T) (int (lp_total es) - 1) LP_HDR_SIZE (lp_total es' - 6)) (\<lambda>t.
        res_bind (rdn lp1 0 (lp_total es - 1)) (\<lambda>b. wrn t 0 b))) =
     Inr (lp_form (int (lp_total es)) n (lp_body (es @ es') @ LP_EOF # slack))"
  using merge_append [OF assms] merge_prepend [OF assms(1,3,2,4)] by (cases "lp_total es' \<le> lp_total es") auto

lemma lpMerge_ok:
  assumes "alloc_ok A" "lp_rep lp1 es" "lp_rep lp2 es'"
  shows "if lp_total (es @ es') < 2 ^ 32 - 1 then \<exists>lp'. lpMerge A lp1 lp2 = Inr lp' \<and> lp_rep lp' (es @ es')
    else lpMerge A lp1 lp2 = Inl AssertFailed"
proof -
  let ?T = "lp_total (es @ es')" and ?n = "length es + length es'"
  obtain lp1' where l1: "lpLength lp1 = Inr (lp1', length es)" "lp_rep lp1' es" using lpLength_ok [OF assms(2)] by blast
  obtain lp2' where l2: "lpLength lp2 = Inr (lp2', length es')" "lp_rep lp2' es'" using lpLength_ok [OF assms(3)] by blast
  obtain n slack where m: "(if lp_total es' \<le> lp_total es then
        res_bind (rdn lp2' LP_HDR_SIZE (lp_total es' - 6)) (\<lambda>b. wrn (lp_realloc A lp1' ?T) (int (lp_total es) - 1) b)
      else
        res_bind (memmove (lp_realloc A lp2' ?T) (int (lp_total es) - 1) LP_HDR_SIZE (lp_total es' - 6)) (\<lambda>t.
        res_bind (rdn lp1' 0 (lp_total es - 1)) (\<lambda>b. wrn t 0 b))) =
     Inr (lp_form (int (lp_total es)) n (lp_body (es @ es') @ LP_EOF # slack))"
    using assms(1) l1(2) l2(2) refl by (rule merge_target)
  let ?lp = "lp_form (int ?T) (int (if ?n < 65535 then ?n else 65535)) (lp_body (es @ es') @ LP_EOF # slack)"
  have run: "lpMerge A lp1 lp2 = res_bind (res_assert (?T < 2 ^ 32 - 1)) (\<lambda>_. Inr ?lp)"
  proof (cases "lp_total es' \<le> lp_total es")
    case True
    show ?thesis
      unfolding lpMerge_def lpBytes_def lp_rep_total [OF assms(2)] lp_rep_total [OF assms(3)] l1(1) l2(1) res_bind_simps prod.case Let_def
        if_P [OF True] merge_total m [unfolded if_P [OF True]] set_num_form set_total_form ..
  next
    case False
    show ?thesis
      unfolding lpMerge_def lpBytes_def lp_rep_total [OF assms(2)] lp_rep_total [OF assms(3)] l1(1) l2(1) res_bind_simps prod.case Let_def
        if_not_P [OF False] merge_total m [unfolded if_not_P [OF False]] set_num_form set_total_form ..
  qed
  have "?T < 2 ^ 32 - 1 \<Longrightarrow> lp_rep ?lp (es @ es')"
    using assms(2,3) by (intro lp_repI [of _ "int (if ?n < 65535 then ?n else 65535)" _ slack]) (auto simp: lp_rep_def lp_count_ok_def)
  then show ?thesis unfolding run by simp
qed

section \<open>Inserting a batch\<close>

definition entry_ok :: "listpackEntry \<Rightarrow> bool" where
  "entry_ok ent \<longleftrightarrow>
     (case le_s ent of
        Some s \<Rightarrow> le_slen ent \<le> length s \<and> le_slen ent + 5 < 2 ^ 32
      | None \<Rightarrow> - (2 ^ 63) \<le> le_l ent \<and> le_l ent < 2 ^ 63)"

definition entry_enc :: "listpackEntry \<Rightarrow> buffer" where
  "entry_enc ent = (case le_s ent of Some s \<Rightarrow> encode_elem (take (le_slen ent) s) | None \<Rightarrow> lpEncodeIntegerGetType (le_l ent))"

lemma entry_enc_ok: "entry_ok ent \<Longrightarrow> lp_enc (entry_enc ent)"
  using encode_get_type [of "le_slen ent" "the (le_s ent)"] encode_integer [of "le_l ent"]
  by (auto simp: entry_ok_def entry_enc_def split: option.splits)

text \<open>What the first loop computes for an entry.\<close>

definition encoded :: "listpackEntry \<Rightarrow> buffer option \<times> nat \<times> buffer \<Rightarrow> bool" where
  "encoded ent x \<longleftrightarrow> (case x of (i, l, b) \<Rightarrow>
     l = length (entry_enc ent) \<and> b = lpEncodeBacklen l \<and>
     (case i of Some e \<Rightarrow> e = entry_enc ent
      | None \<Rightarrow> \<exists>s. le_s ent = Some s \<and> le_slen ent \<le> length s \<and> entry_enc ent = lpEncodeString (take (le_slen ent) s)))"

lemma batchEncodeLoop_ok:
  "\<forall>ent\<in>set ents. entry_ok ent \<Longrightarrow> \<exists>r. batchEncodeLoop ents = Inr r \<and> list_all2 encoded ents r"
proof (induction ents)
  case (Cons ent ents)
  then obtain r where r: "batchEncodeLoop ents = Inr r" "list_all2 encoded ents r" by auto
  have ok: "entry_ok ent" using Cons.prems by simp
  obtain i where "(case le_s ent of Some s \<Rightarrow> lpEncodeGetType s (le_slen ent)
        | None \<Rightarrow> Inr (Some (lpEncodeIntegerGetType (le_l ent)), length (lpEncodeIntegerGetType (le_l ent)))) = Inr (i, length (entry_enc ent))"
    "encoded ent (i, length (entry_enc ent), lpEncodeBacklen (length (entry_enc ent)))"
  proof (cases "le_s ent")
    case None
    then show ?thesis using that [of "Some (entry_enc ent)"] by (simp add: entry_enc_def encoded_def)
  next
    case (Some s)
    then have "le_slen ent \<le> length s" "le_slen ent + 5 < 2 ^ 32" using ok by (simp_all add: entry_ok_def)
    moreover have e: "entry_enc ent = encode_elem (take (le_slen ent) s)" by (simp add: entry_enc_def Some)
    ultimately obtain i where "lpEncodeGetType s (le_slen ent) = Inr (i, length (entry_enc ent))"
      "case i of Some b \<Rightarrow> b = entry_enc ent | None \<Rightarrow> entry_enc ent = lpEncodeString (take (le_slen ent) s)"
      using encode_get_type [of "le_slen ent" s] unfolding e by blast
    then show ?thesis using that [of i] Some ok by (auto simp: encoded_def entry_ok_def split: option.splits)
  qed
  then show ?case using r by simp
qed simp

lemma encoded_length:
  "list_all2 encoded ents r \<Longrightarrow> sum_list (map (\<lambda>(_, enclen, backlen). enclen + length backlen) r) = length (lp_body (map entry_enc ents))"
  by (induction rule: list_all2_induct) (auto simp: encoded_def lp_entry_def)

lemma batchStoreLoop_ok:
  assumes "list_all2 encoded ents r" "length mid = length (lp_body (map entry_enc ents))"
  shows "batchStoreLoop (zip ents r) (H @ mid @ rest) (int (length H)) newp =
    Inr (H @ lp_body (map entry_enc ents) @ rest,
      if ents = [] then newp else int (length H + length (lp_body (map entry_enc (butlast ents)))))"
  using assms
proof (induction ents r arbitrary: H mid newp rule: list_all2_induct)
  case (Cons ent ents x r)
  obtain i l b where x: "x = (i, l, b)" by (cases x)
  let ?e = "entry_enc ent"
  have l: "l = length ?e" "b = lpEncodeBacklen (length ?e)" using Cons.hyps(1) by (simp_all add: encoded_def x)
  have pay: "(case i of Some e \<Rightarrow> res_bind (rdn e 0 l) (\<lambda>e. wrn lp d e)
      | None \<Rightarrow> (case le_s ent of Some s \<Rightarrow> res_bind (rdn s 0 (le_slen ent)) (\<lambda>s. wrn lp d (lpEncodeString s)) | None \<Rightarrow> Inl OutOfBounds)) =
      wrn lp d ?e" for lp d
    using Cons.hyps(1) by (auto simp: encoded_def x rdn_all rdn_take split: option.splits)
  define m1 m2 where "m1 = take (length (lp_entry ?e)) mid" and "m2 = drop (length (lp_entry ?e)) mid"
  have m: "mid = m1 @ m2" "length m1 = length ?e + length b" "length m2 = length (lp_body (map entry_enc ents))"
    using Cons.prems l by (simp_all add: m1_def m2_def lp_entry_def)
  have "res_bind (wrn (H @ m1 @ m2 @ rest) (int (length H)) ?e) (\<lambda>lp. wrn lp (int (length H) + int (length ?e)) b) = Inr (H @ ?e @ b @ m2 @ rest)"
    by (rule store_entry [OF m(2) refl])
  then obtain lp where w: "wrn (H @ m1 @ m2 @ rest) (int (length H)) ?e = Inr lp" "wrn lp (int (length H) + int (length ?e)) b = Inr (H @ ?e @ b @ m2 @ rest)"
    by (auto simp: res_bind_def split: sum.splits)
  have len: "int (length H) + int l + int (length b) = int (length (H @ lp_entry ?e))" by (simp add: lp_entry_def l)
  show ?case using Cons.IH [OF m(3), of "H @ lp_entry ?e" "int (length H)"] w
    unfolding x zip_Cons_Cons batchStoreLoop.simps pay m(1) len by (auto simp: l lp_entry_def)
qed simp

lemma batch_header:
  assumes "lp_count_ok n (length es)" "length new = length es + length ents" "\<forall>e\<in>set new. lp_enc e" "lp_total new < 2 ^ 32"
    and "lp = lp_form t (int n) (lp_body new @ LP_EOF # slack)"
  shows "\<exists>lp'. lp_rep lp' new \<and> res_bind (lpGetNumElements lp) (\<lambda>n.
       res_bind
         (if n \<noteq> LP_HDR_NUMELE_UNKNOWN then
            if int (length ents) > int LP_HDR_NUMELE_UNKNOWN - int n then lpSetNumElements lp (int LP_HDR_NUMELE_UNKNOWN)
            else lpSetNumElements lp (int n + int (length ents))
          else Inr lp) (\<lambda>lp.
       res_bind (lpSetTotalBytes lp (int (lp_total new))) (\<lambda>lp. Inr (Some (lp, newp))))) = Inr (Some (lp', newp))"
proof -
  let ?n = "if n \<noteq> LP_HDR_NUMELE_UNKNOWN \<and> length ents \<le> LP_HDR_NUMELE_UNKNOWN - n then n + length ents else LP_HDR_NUMELE_UNKNOWN"
  have n: "n \<le> 65535" "lp_count_ok ?n (length new)" using assms(1,2) by (auto simp: lp_count_ok_def)
  have "lp_rep (lp_form (int (lp_total new)) (int ?n) (lp_body new @ LP_EOF # slack)) new"
    by (rule lp_repI [OF assms(3,4) _ _ refl]) (use n(2) in simp_all)
  then show ?thesis using n(1)
    by (intro exI [of _ "lp_form (int (lp_total new)) (int ?n) (lp_body new @ LP_EOF # slack)"])
      (auto simp: assms(5) get_num_form set_num_form set_total_form)
qed

lemma lpBatchInsert_before:
  assumes "alloc_ok A" "lp_rep lp es" "i \<le> length es" "ents \<noteq> []" "\<forall>ent\<in>set ents. entry_ok ent"
    and new: "new = take i es @ map entry_enc ents @ drop i es"
  shows "if lp_total new < 2 ^ 32 then
      \<exists>lp'. lpBatchInsert A lp (int (lp_pos es i)) LP_BEFORE ents = Inr (Some (lp', int (lp_pos new (i + length ents - 1)))) \<and> lp_rep lp' new
    else lpBatchInsert A lp (int (lp_pos es i)) LP_BEFORE ents = Inr None"
proof -
  obtain n slack where f: "lp_count_ok n (length es)" "lp = lp_form (int (lp_total es)) (int n) (lp_body es @ [LP_EOF] @ slack)"
    using assms(2) by (rule lp_repE)
  obtain r where r: "batchEncodeLoop ents = Inr r" "list_all2 encoded ents r" using batchEncodeLoop_ok [OF assms(5)] by blast
  let ?H = "le_bytes 4 (int (lp_total es)) @ le_bytes 2 (int n) @ lp_body (take i es)" and ?Y = "lp_body (drop i es) @ [LP_EOF]"
  let ?B = "lp_body (map entry_enc ents)" and ?p = "int (lp_pos es i)"
  have body: "lp_body es = lp_body (take i es) @ lp_body (drop i es)" by (simp flip: lp_body_simps(3))
  have lp: "lp = (?H @ ?Y) @ slack" "length (?H @ ?Y) = lp_total es" "?p = int (length ?H)" "lp_total es - nat ?p = length ?Y"
    using f(2) body by (simp_all add: lp_form_def lp_total_def lp_pos_def)
  have T: "lp_total es + length ?B = lp_total new" using body by (simp add: lp_total_def new)
  have newp: "int (lp_pos new (i + length ents - 1)) = int (length ?H + length (lp_body (map entry_enc (butlast ents))))"
  proof -
    have "take (i + length ents - 1) new = take i es @ map entry_enc (butlast ents)"
      using assms(3,4) by (cases "length ents") (simp_all add: new min_absorb2 butlast_conv_take take_map)
    then show ?thesis by (simp add: lp_pos_def)
  qed
  have enc: "\<forall>e\<in>set new. lp_enc e" "length new = length es + length ents"
    using assms(2,3,5) entry_enc_ok by (auto simp: new lp_rep_def dest: in_set_takeD in_set_dropD)
  have begin': "(ents \<noteq> []) = True" "(LP_BEFORE = LP_BEFORE \<or> LP_BEFORE = LP_AFTER) = True" "(LP_BEFORE = LP_AFTER) = False"
    using assms(4) by simp_all
  have start: "lpBatchInsert A lp ?p LP_BEFORE ents =
     (if lp_total new > 2 ^ 32 - 1 then Inr None
      else
        let lp = (if lp_total new > lp_total es \<and> lp_total new > length lp then lp_realloc A lp (lp_total new) else lp) in
        res_bind (memmove lp (?p + int (length ?B)) ?p (length ?Y)) (\<lambda>lp.
        res_bind (batchStoreLoop (zip ents r) lp ?p ?p) (\<lambda>(lp, newp).
        res_bind (lpGetNumElements lp) (\<lambda>n.
        res_bind
          (if n \<noteq> LP_HDR_NUMELE_UNKNOWN then
             if int (length ents) > int LP_HDR_NUMELE_UNKNOWN - int n then lpSetNumElements lp (int LP_HDR_NUMELE_UNKNOWN)
             else lpSetNumElements lp (int n + int (length ents))
           else Inr lp) (\<lambda>lp.
        res_bind (lpSetTotalBytes lp (int (lp_total new))) (\<lambda>lp. Inr (Some (lp, newp))))))))"
    unfolding lpBatchInsert_def begin' simp_thms res_assert_simps res_bind_simps if_False lp_rep_total [OF assms(2)] r(1) encoded_length [OF r(2)] Let_def T lp(4) ..
  show ?thesis
  proof (cases "lp_total new < 2 ^ 32")
    case False
    then show ?thesis unfolding start by simp
  next
    case True
    obtain slack1 where r1: "(if lp_total new > lp_total es \<and> lp_total new > length lp then lp_realloc A lp (lp_total new) else lp) = ?H @ [] @ ?Y @ slack1"
      "lp_total new \<le> length (?H @ [] @ ?Y @ slack1)"
      using grow_ok [OF assms(1) lp(1), of "lp_total new"] unfolding lp(2) by auto
    obtain mid slack2 where r2: "length mid = length ?B"
      "memmove (?H @ [] @ ?Y @ slack1) (?p + int (length ?B)) ?p (length ?Y) = Inr (?H @ mid @ ?Y @ slack2)"
      using memmove_shift [of ?H "length ?B" ?Y "[]" slack1, OF _ lp(3)] r1(2) T lp(2) by auto
    have st: "batchStoreLoop (zip ents r) (?H @ mid @ ?Y @ slack2) ?p ?p =
        Inr (lp_form (int (lp_total es)) (int n) (lp_body new @ LP_EOF # slack2), int (lp_pos new (i + length ents - 1)))"
      using batchStoreLoop_ok [OF r(2) r2(1), of ?H "?Y @ slack2" ?p] assms(4) unfolding lp(3) newp
      by (simp add: lp_form_def new)
    have "\<not> lp_total new > 2 ^ 32 - 1" using True by simp
    then show ?thesis using batch_header [OF f(1) enc(2,1) True refl, of "int (lp_total es)" slack2 "int (lp_pos new (i + length ents - 1))"] True
      unfolding start by (simp only: if_False if_True Let_def r1(1) r2(2) st res_bind_simps prod.case) blast
  qed
qed

lemma lpBatchInsert_after:
  assumes "lp_rep lp es" "i < length es"
  shows "lpBatchInsert A lp (int (lp_pos es i)) LP_AFTER ents = lpBatchInsert A lp (int (lp_pos es (Suc i))) LP_BEFORE ents"
  using lpSkip_entry [OF assms] assert_integrity [OF assms(1), of "Suc i"] assms(2)
  unfolding lpBatchInsert_def by simp

section \<open>Creation and copies\<close>

lemma any_form:
  assumes "6 \<le> length m"
  shows "m = lp_form (le_val (take 4 m)) (le_val (take 2 (drop 4 m))) (drop 6 m)"
proof -
  have "drop 6 m = drop 2 (drop 4 m)" by simp
  then have "m = take 4 m @ take 2 (drop 4 m) @ drop 6 m" by (metis append_take_drop_id)
  then show ?thesis using assms le_bytes_le_val [of "take 4 m"] le_bytes_le_val [of "take 2 (drop 4 m)"]
    by (simp add: lp_form_def min_absorb2)
qed

lemma lpNew_ok:
  assumes "alloc_ok A"
  shows "\<exists>lp. lpNew A capacity = Inr lp \<and> lp_rep lp [] \<and> capacity \<le> length lp"
proof -
  let ?c = "if capacity > 7 then capacity else 7"
  let ?m = "lp_malloc A ?c"
  have len: "?c \<le> length ?m" using assms by (simp add: lp_malloc_def alloc_ok_def)
  then have len7: "7 \<le> length ?m" "capacity \<le> length ?m" by (simp_all split: if_splits)
  then obtain x rest where d: "drop 6 ?m = x # rest" by (cases "drop 6 ?m") auto
  let ?lp = "lp_form 7 0 (LP_EOF # rest)"
  have w: "wr (lp_form 7 0 (x # rest)) LP_HDR_SIZE LP_EOF = Inr ?lp"
    using wr_append [of "le_bytes 4 7 @ le_bytes 2 0" x rest LP_EOF] by (simp add: lp_form_def)
  have m: "?m = lp_form (le_val (take 4 ?m)) (le_val (take 2 (drop 4 ?m))) (x # rest)"
    using any_form [of ?m] len7(1) d by simp
  have "lpNew A capacity = Inr ?lp"
    unfolding lpNew_def Let_def by (subst m, simp only: set_total_form set_num_form res_bind_simps w)
  moreover have "lp_rep ?lp []" by (rule lp_repI [of _ 0 _ rest]) (simp_all add: lp_total_def lp_count_ok_def)
  moreover have "length ?lp = length ?m" using arg_cong [OF m, of length] by (simp add: lp_form_def)
  ultimately show ?thesis using len7(2) by auto
qed

lemma lpDup_ok:
  assumes "alloc_ok A" "lp_rep lp es"
  shows "\<exists>lp'. lpDup A lp = Inr lp' \<and> lp_rep lp' es"
proof -
  obtain n slack where f: "lp_count_ok n (length es)" "lp = lp_form (int (lp_total es)) (int n) (lp_body es @ [LP_EOF] @ slack)"
    using assms(2) by (rule lp_repE)
  let ?P = "lp_form (int (lp_total es)) (int n) (lp_body es @ [LP_EOF])" and ?m = "lp_malloc A (lp_total es)"
  have lp: "lp = ?P @ slack" "length ?P = lp_total es" using f(2) by (simp_all add: lp_form_def lp_total_def)
  have "rdn lp 0 (lp_total es) = Inr ?P" using rdn_append [of "[]" ?P slack] lp by simp
  moreover have "wrn ?m 0 ?P = Inr (?P @ drop (lp_total es) ?m)"
  proof -
    have "length (take (lp_total es) ?m) = length ?P" using assms(1) lp(2) by (simp add: lp_malloc_def alloc_ok_def min_absorb2)
    from wrn_append [OF this [symmetric], of "[]" "drop (lp_total es) ?m"] show ?thesis by simp
  qed
  moreover have "lp_rep (?P @ drop (lp_total es) ?m) es" using assms(2) f(1) by (auto simp: lp_rep_def lp_form_def)
  ultimately show ?thesis using lp_rep_total [OF assms(2)] by (simp add: lpDup_def lpBytes_def)
qed

end
