(* ===== verification/Listpack_Read.thy ===== *)
theory Listpack_Read
  imports Listpack_Ops
begin

text \<open>
  Reading, comparing and searching the elements of a listpack. The text of an element is the string it
  was stored from, whichever way it is encoded.
\<close>

section \<open>Reading an element\<close>

lemma le_sval_64:
  assumes "bs \<noteq> []" "length bs \<le> 8"
  shows "- (2 ^ 63) \<le> le_sval bs \<and> le_sval bs < 2 ^ 63"
proof -
  have "(2 :: int) ^ (8 * length bs - 1) \<le> 2 ^ 63" using assms(2) by (intro power_increasing) simp_all
  then show ?thesis using le_sval_bounds [OF assms(1)] by linarith
qed

lemma val_range:
  assumes "lp_enc e" "lp_val e = LInt v"
  shows "- (2 ^ 63) \<le> v \<and> v < 2 ^ 63"
  using assms(1)
proof (cases rule: lp_enc_cases)
  case i13
  define n where "n = (unat (hd e) - 192) * 256 + unat (e ! 1)"
  have "v = signed_val 13 n" using assms(2) i13 by (simp add: lp_val_def n_def)
  moreover have "n < 8192" using i13 unat_byte_less [of "e ! 1"] by (simp add: n_def)
  ultimately show ?thesis by (simp add: signed_val_def)
next
  case i16
  then have "tl e \<noteq> []" by (cases e) auto
  then show ?thesis using assms(2) le_sval_64 [of "tl e"] i16 by (simp add: lp_val_def)
next
  case i24
  then have "tl e \<noteq> []" by (cases e) auto
  then show ?thesis using assms(2) le_sval_64 [of "tl e"] i24 by (simp add: lp_val_def)
next
  case i32
  then have "tl e \<noteq> []" by (cases e) auto
  then show ?thesis using assms(2) le_sval_64 [of "tl e"] i32 by (simp add: lp_val_def)
next
  case i64
  then have "tl e \<noteq> []" by (cases e) auto
  then show ?thesis using assms(2) le_sval_64 [of "tl e"] i64 by (simp add: lp_val_def)
next
  case u7
  then have "v = int (unat (hd e))" using assms(2) by (simp add: lp_val_def)
  then have "0 \<le> v" "v < 128" using u7(1) by linarith+
  then show ?thesis by simp
next
  case s6
  show ?thesis using assms(2) s6(1,2) by (simp add: lp_val_def)
next
  case s12
  show ?thesis using assms(2) s12(1,2) by (simp add: lp_val_def)
next
  case s32
  show ?thesis using assms(2) s32(1) by (simp add: lp_val_def)
qed

lemma lpGet_entry:
  assumes "lp_rep lp es" "i < length es"
  shows "\<exists>g. lpGet lp (int (lp_pos es i)) None = Inr (g, None) \<and> got_elem lp g (lp_val (es ! i))"
proof -
  obtain pre post where s: "lp = pre @ lp_entry (es ! i) @ post" "length pre = lp_pos es i" using lp_split [OF assms] .
  show ?thesis using get_at [OF lp_rep_enc [OF assms], of pre "lpEncodeBacklen (length (es ! i)) @ post"] s
    by (simp add: lp_entry_def lpGet_def)
qed

abbreviation entry_text :: "buffer \<Rightarrow> buffer" where
  "entry_text e \<equiv> elem_text (lp_val e)"

lemma dec_int_len: "- (2 ^ 63) \<le> v \<Longrightarrow> v < 2 ^ 63 \<Longrightarrow> length (dec_int v) < LONG_STR_SIZE \<and> dec_int v \<noteq> []"
  using dec_64 [of "nat (- v)" 18] dec_64 [of "nat v" 18] dec_nonempty
  by (cases "v < 0") (simp_all add: dec_int_def nat_less_iff)

lemma get_with_buf:
  "lpGetWithBuf lp p None = Inr (GotPtr off n, None) \<Longrightarrow> lpGetWithBuf lp p (Some buf) = Inr (GotPtr off n, Some buf)"
  "lpGetWithBuf lp p None = Inr (GotInt v, None) \<Longrightarrow>
    lpGetWithBuf lp p (Some buf) = res_bind (ll2string buf LP_INTBUF_SIZE v) (\<lambda>(buf, n). Inr (GotBuf n, Some buf))"
  by (auto simp: lpGetWithBuf_def split: if_splits)

text \<open>With a buffer for integers, \<^verbatim>\<open>lpGet\<close> gives the text of the element.\<close>

lemma lpGet_text:
  assumes "lp_rep lp es" "i < length es" "LP_INTBUF_SIZE \<le> length buf"
  shows "\<exists>g buf'. lpGet lp (int (lp_pos es i)) (Some buf) = Inr (g, Some buf') \<and>
    (case g of GotPtr off n \<Rightarrow> rdn lp off n | GotBuf n \<Rightarrow> rdn buf' 0 n | GotInt v \<Rightarrow> Inl OutOfBounds) = Inr (entry_text (es ! i))"
proof -
  obtain g where g: "lpGet lp (int (lp_pos es i)) None = Inr (g, None)" "got_elem lp g (lp_val (es ! i))"
    using lpGet_entry [OF assms(1,2)] by blast
  show ?thesis
  proof (cases g)
    case (GotInt v)
    then have v: "lp_val (es ! i) = LInt v" using g(2) by (simp add: got_elem_def)
    have "- (2 ^ 63) \<le> v" "v < 2 ^ 63" using val_range [OF lp_rep_enc [OF assms(1,2)] v] by simp_all
    then have "ll2string buf LP_INTBUF_SIZE v = Inr (dec_int v @ 0 # drop (Suc (length (dec_int v))) buf, length (dec_int v))"
      using ll2string_ok [of v LP_INTBUF_SIZE buf] dec_int_len [of v] assms(3) by simp
    then show ?thesis using g(1) GotInt v get_with_buf(2) [of lp _ v buf]
      by (simp add: lpGet_def elem_text_def rdn_take)
  next
    case (GotPtr off n)
    then show ?thesis using g get_with_buf(1) [of lp _ off n buf] by (auto simp: lpGet_def got_elem_def elem_text_def)
  qed (use g(2) in \<open>simp add: got_elem_def\<close>)
qed

section \<open>Search\<close>

lemma small_backlen: "n \<le> 127 \<Longrightarrow> lpEncodeBacklenBytes n = 1"
  by (simp add: lpEncodeBacklenBytes_def)

lemma lpGetWithSize_at:
  assumes "lp_enc e"
  shows "\<exists>g. lpGetWithSize (pre @ e @ post) (int (length pre)) n0 = Inr (g, length (lp_entry e)) \<and> got_elem (pre @ e @ post) g (lp_val e)"
proof -
  define lp p where "lp = pre @ e @ post" and "p = int (length pre)"
  have r: "rd lp p = Inr (hd e)" using rd_hd [of e] assms by (simp only: lp_enc_def simp_thms lp_def p_def)
  obtain g where g: "lpGetWithBuf lp p None = Inr (g, None)" "got_elem lp g (lp_val e)" using get_at [OF assms] unfolding lp_def p_def by blast
  have "lpGetWithSize lp p n0 = Inr (g, length (lp_entry e))"
    using assms
  proof (cases rule: lp_enc_cases)
    case u7
    then show ?thesis using g(1) r by (auto simp: lpGetWithBuf_def lpGetWithSize_def encoding_tests byte_eq length_entry small_backlen)
  next
    case s6
    then show ?thesis using g(1) r mod_block [of 64 2 "unat (hd e)"]
      by (simp add: lpGetWithBuf_def lpGetWithSize_def encoding_tests LP_ENCODING_6BIT_STR_LEN_def byte_masks length_entry)
  next
    case i13
    then show ?thesis using g(1) r by (auto simp: lpGetWithBuf_def lpGetWithSize_def encoding_tests byte_eq length_entry small_backlen)
  next
    case s12
    have "rd lp (p + 1) = Inr (e ! Suc 0)" using rd_append_nth [of "Suc 0" e pre post] s12(3) by (simp add: lp_def p_def)
    then show ?thesis using g(1) r mod_block [of 16 14 "unat (hd e)"] s12
      by (simp add: lpGetWithBuf_def lpGetWithSize_def encoding_tests byte_eq LP_ENCODING_12BIT_STR_LEN_def byte_masks len_12bit length_entry)
  next
    case s32
    have "5 \<le> length e" using s32(2) by linarith
    then have "LP_ENCODING_32BIT_STR_LEN lp p = Inr (nat (le_val (take 4 (tl e))))"
      using rdn_append_sub [of 1 4 e pre post] by (simp add: LP_ENCODING_32BIT_STR_LEN_def drop_Suc lp_def p_def)
    then obtain n where n: "LP_ENCODING_32BIT_STR_LEN lp p = Inr n" "length e = 5 + n" using s32(2) by blast
    show ?thesis using g(1) r s32(1) n by (simp add: lpGetWithBuf_def lpGetWithSize_def encoding_tests length_entry add.commute [of 5])
  next
    case i16
    then show ?thesis using g(1) r by (auto simp: lpGetWithBuf_def lpGetWithSize_def encoding_tests length_entry small_backlen)
  next
    case i24
    then show ?thesis using g(1) r by (auto simp: lpGetWithBuf_def lpGetWithSize_def encoding_tests length_entry small_backlen)
  next
    case i32
    then show ?thesis using g(1) r by (auto simp: lpGetWithBuf_def lpGetWithSize_def encoding_tests length_entry small_backlen)
  next
    case i64
    then show ?thesis using g(1) r by (auto simp: lpGetWithBuf_def lpGetWithSize_def encoding_tests length_entry small_backlen)
  qed
  then show ?thesis using g(2) unfolding lp_def p_def by blast
qed

definition find_arg :: "buffer \<Rightarrow> nat \<Rightarrow> lpFindArg \<Rightarrow> bool" where
  "find_arg s slen arg \<longleftrightarrow> fa_s arg = s \<and> fa_slen arg = slen \<and>
     (fa_vencoding arg = 0 \<or> fa_vencoding arg = 1 \<and> string2ll s slen = Inr (Some (fa_vll arg)) \<or>
      fa_vencoding arg = 255 \<and> string2ll s slen = Inr None)"

lemma string2ll_iff:
  assumes "slen \<le> length s" "- (2 ^ 63) \<le> v" "v < 2 ^ 63"
  shows "string2ll s slen = Inr (Some v) \<longleftrightarrow> dec_int v = take slen s"
  using string2ll_some [of s slen v] string2ll_dec_int [of v slen s] assms by auto

lemma lpFindCmp_ok:
  assumes "find_arg s slen arg" "slen \<le> length s" "got_elem lp g (lp_val e)" "lp_enc e"
  shows "\<exists>arg'. lpFindCmp arg lp p g = Inr (arg', entry_text e = take slen s) \<and> find_arg s slen arg'"
proof (cases g)
  case (GotPtr off n)
  then obtain t where t: "rdn lp off n = Inr t" "lp_val e = LStr t" using assms(3) by (auto simp: got_elem_def)
  then have "length t = n" by (auto simp: rdn_def split: if_splits)
  then show ?thesis using t assms(1,2) GotPtr by (auto simp: lpFindCmp_def find_arg_def elem_text_def rdn_take)
next
  case (GotInt v)
  then have v: "lp_val e = LInt v" using assms(3) by (simp add: got_elem_def)
  obtain r where r: "string2ll s slen = Inr r" using string2ll_total [OF assms(2)] by blast
  have none: "slen \<ge> 32 \<or> slen = 0 \<Longrightarrow> r = None" using r by (auto simp: string2ll_def)
  have iff: "r = Some v \<longleftrightarrow> dec_int v = take slen s"
    using string2ll_iff [OF assms(2)] val_range [OF assms(4) v] r by simp
  let ?arg = "if fa_vencoding arg = 0 then (case r of None \<Rightarrow> arg\<lparr>fa_vencoding := 255\<rparr> | Some l \<Rightarrow> arg\<lparr>fa_vencoding := 1, fa_vll := l\<rparr>) else arg"
  have "lpFindCmp arg lp p g = Inr (?arg, fa_vencoding ?arg \<noteq> 255 \<and> v = fa_vll ?arg)"
    using GotInt assms(1) r none by (auto simp: lpFindCmp_def find_arg_def lpStringToInt64_def split: option.splits)
  moreover have "find_arg s slen ?arg" using assms(1) r by (auto simp: find_arg_def split: option.splits)
  moreover have "(fa_vencoding ?arg \<noteq> 255 \<and> v = fa_vll ?arg) \<longleftrightarrow> entry_text e = take slen s"
    using assms(1) r iff v by (auto simp: find_arg_def elem_text_def split: option.splits)
  ultimately show ?thesis by auto
qed (use assms(3) in \<open>simp add: got_elem_def\<close>)

text \<open>The first element that is looked at, when \<open>c\<close> are passed first and \<open>skip\<close> after each, and satisfies \<open>P\<close>.\<close>

fun find_every :: "('a \<Rightarrow> bool) \<Rightarrow> nat \<Rightarrow> nat \<Rightarrow> 'a list \<Rightarrow> nat option" where
  "find_every P skip c [] = None"
| "find_every P skip 0 (x # xs) = (if P x then Some 0 else map_option Suc (find_every P skip skip xs))"
| "find_every P skip (Suc c) (x # xs) = map_option Suc (find_every P skip c xs)"

lemma find_advance:
  assumes "lp_rep lp es" "i < length es" "p' = int (lp_pos es (Suc i))"
  shows "res_bind (if p' + 8 \<ge> int (lp_total es) then lpAssertValidEntry lp (lp_total es) p'
        else res_assert (p' \<ge> LP_HDR_SIZE \<and> p' < int (lp_total es))) (\<lambda>_.
      res_bind (rd lp p') (\<lambda>b. if b = LP_EOF then Inr (u, None) else if p' \<le> int (lp_pos es i) then Inl Diverges else K)) =
    (if Suc i < length es then K else Inr (u, None))"
proof -
  have "lp_pos es i < lp_pos es (Suc i)" "6 \<le> lp_pos es (Suc i)"
    using lp_pos_Suc [OF assms(2)] entry_nonempty [of "es ! i"] by (simp_all add: lp_pos_def)
  moreover have "lpAssertValidEntry lp (lp_total es) p' = Inr ()" using assert_valid [OF assms(1), of "Suc i"] assms(2,3) by simp
  ultimately show ?thesis using assms(2,3) rd_entry [OF assms(1), of "Suc i"] rd_eof [OF assms(1)]
    by (cases "Suc i < length es") (auto simp: le_less_Suc_eq not_less le_Suc_eq)
qed

lemma lpFindLoop_ok:
  assumes "lp_rep lp es" "slen \<le> length s" "i < length es" "find_arg s slen arg"
  shows "\<exists>arg'. lpFindLoop lpFindCmp lp (lp_total es) skip arg (int (lp_pos es i)) c n0 =
    Inr (arg', map_option (\<lambda>j. int (lp_pos es (i + j))) (find_every (\<lambda>e. entry_text e = take slen s) skip c (drop i es)))"
  using assms(3,4)
proof (induction "length es - i" arbitrary: i arg c n0)
  case (Suc m)
  let ?P = "\<lambda>e. entry_text e = take slen s" and ?p = "int (lp_pos es i)"
  have d: "drop i es = es ! i # drop (Suc i) es" using Suc.prems by (simp add: Cons_nth_drop_Suc)
  have e: "lp_enc (es ! i)" using lp_rep_enc [OF assms(1) Suc.prems(1)] .
  obtain pre post where sp: "lp = pre @ es ! i @ (lpEncodeBacklen (length (es ! i)) @ post)" "length pre = lp_pos es i"
    using lp_split [OF assms(1) Suc.prems(1)] by (metis append.assoc lp_entry_def)
  obtain g where g: "lpGetWithSize lp ?p n0 = Inr (g, length (lp_entry (es ! i)))" "got_elem lp g (lp_val (es ! i))"
    using lpGetWithSize_at [OF e, of pre "lpEncodeBacklen (length (es ! i)) @ post"] sp by metis
  have next': "?p + int (length (lp_entry (es ! i))) = int (lp_pos es (Suc i))" "?p + int (length (lp_entry (es ! i))) < int (lp_total es)" "LP_HDR_SIZE \<le> ?p"
    using lp_pos_Suc [OF Suc.prems(1)] lp_pos_less [OF Suc.prems(1)] by (simp_all add: lp_total_def lp_pos_def)
  obtain arg' where cmp: "lpFindCmp arg lp ?p g = Inr (arg', ?P (es ! i))" "find_arg s slen arg'"
    using lpFindCmp_ok [OF Suc.prems(2) assms(2) g(2) e] by blast
  have rest: "\<exists>arg''. (if Suc i < length es then lpFindLoop lpFindCmp lp (lp_total es) skip a (int (lp_pos es (Suc i))) c' n1 else Inr (a, None)) =
      Inr (arg'', map_option (\<lambda>j. int (lp_pos es (Suc i + j))) (find_every ?P skip c' (drop (Suc i) es)))"
    if "find_arg s slen a" for a c' n1
    using Suc.hyps(1) [of "Suc i" a c' n1] Suc.hyps(2) that by (cases "Suc i < length es") auto
  show ?case
  proof (cases c)
    case 0
    have found: "(case g of GotPtr _ _ \<Rightarrow> res_assert (?p \<ge> LP_HDR_SIZE \<and> ?p + int (length (lp_entry (es ! i))) < int (lp_total es)) | _ \<Rightarrow> Inr ()) = Inr ()"
      using next'(2,3) by (cases g) simp_all
    have "lpFindLoop lpFindCmp lp (lp_total es) skip arg ?p c n0 =
      (if ?P (es ! i) then Inr (arg', Some ?p)
       else if Suc i < length es then lpFindLoop lpFindCmp lp (lp_total es) skip arg' (int (lp_pos es (Suc i))) skip (length (lp_entry (es ! i))) else Inr (arg', None))"
    proof (cases "?P (es ! i)")
      case True
      show ?thesis by (subst lpFindLoop.simps, simp only: 0 simp_thms if_True g(1) res_bind_simps prod.case found cmp(1) True option.case)
    next
      case False
      show ?thesis
        by (subst lpFindLoop.simps, simp only: 0 simp_thms if_True if_False g(1) res_bind_simps prod.case found cmp(1) False option.case
            find_advance [OF assms(1) Suc.prems(1) refl] next'(1) found [unfolded next'(1)])
    qed
    then show ?thesis using rest [OF cmp(2), of skip "length (lp_entry (es ! i))"] 0 unfolding d
      by (auto simp: option.map_comp comp_def)
  next
    case (Suc c')
    have "lpFindLoop lpFindCmp lp (lp_total es) skip arg ?p c n0 =
      (if Suc i < length es then lpFindLoop lpFindCmp lp (lp_total es) skip arg (int (lp_pos es (Suc i))) c' n0 else Inr (arg, None))"
      by (subst lpFindLoop.simps, simp only: Suc nat.distinct if_False lpSkip_entry [OF assms(1) Suc.prems(1)] res_bind_simps prod.case
          option.case find_advance [OF assms(1) Suc.prems(1) refl] diff_Suc_1)
    then show ?thesis using rest [OF \<open>find_arg s slen arg\<close>, of c' n0] Suc unfolding d
      by (simp add: option.map_comp comp_def)
  qed
qed simp

lemma lpFind_ok:
  assumes "lp_rep lp es" "slen \<le> length s" "i < length es"
  shows "lpFind lp (Some (int (lp_pos es i))) s slen skip =
    Inr (map_option (\<lambda>j. int (lp_pos es (i + j))) (find_every (\<lambda>e. entry_text e = take slen s) skip 0 (drop i es)))"
  using lpFindLoop_ok [OF assms, of "\<lparr>fa_s = s, fa_slen = slen, fa_vencoding = 0, fa_vll = 0\<rparr>" skip 0 123456789] lp_rep_total [OF assms(1)]
  by (auto simp: lpFind_def lpFindCb_def lpBytes_def find_arg_def)

lemma lpFind_first:
  assumes "lp_rep lp es" "slen \<le> length s"
  shows "lpFind lp None s slen skip =
    Inr (map_option (\<lambda>j. int (lp_pos es j)) (find_every (\<lambda>e. entry_text e = take slen s) skip 0 es))"
proof (cases es)
  case Nil
  then show ?thesis using lpFirst_rep [OF assms(1)] lp_rep_total [OF assms(1)] by (simp add: lpFind_def lpFindCb_def lpBytes_def lp_ptr_def)
next
  case (Cons e r)
  then have "lpFirst lp = Inr (Some (int (lp_pos es 0)))" using lpFirst_rep [OF assms(1)] by (simp add: lp_ptr_def)
  then have "lpFind lp None s slen skip = lpFind lp (Some (int (lp_pos es 0))) s slen skip"
    unfolding lpFind_def lpFindCb_def by simp
  then show ?thesis using lpFind_ok [OF assms, of 0 skip] Cons by simp
qed

text \<open>The elements a search looks at.\<close>

definition looked_at :: "nat \<Rightarrow> nat \<Rightarrow> nat \<Rightarrow> bool" where
  "looked_at skip c j \<longleftrightarrow> c \<le> j \<and> (j - c) mod Suc skip = 0"

lemma looked_at_simps [simp]:
  "looked_at skip 0 0" "looked_at skip 0 (Suc j) \<longleftrightarrow> looked_at skip skip j" "\<not> looked_at skip (Suc c) 0"
  "looked_at skip (Suc c) (Suc j) \<longleftrightarrow> looked_at skip c j"
proof -
  show "looked_at skip 0 (Suc j) \<longleftrightarrow> looked_at skip skip j"
  proof (cases "skip \<le> j")
    case True
    then have "Suc j mod Suc skip = (j - skip) mod Suc skip" using le_mod_geq [of "Suc skip" "Suc j"] by simp
    then show ?thesis using True by (simp add: looked_at_def)
  qed (simp add: looked_at_def)
qed (simp_all add: looked_at_def)

lemma find_every_some:
  "find_every P skip c xs = Some j \<longleftrightarrow> j < length xs \<and> looked_at skip c j \<and> P (xs ! j) \<and> (\<forall>k<j. looked_at skip c k \<longrightarrow> \<not> P (xs ! k))"
proof (induction P skip c xs arbitrary: j rule: find_every.induct)
  case (2 P skip x xs)
  show ?case using "2" by (cases j) (auto simp: less_Suc_eq_0_disj)
next
  case (3 P skip c x xs)
  show ?case using "3" by (cases j) (auto simp: less_Suc_eq_0_disj)
qed simp

lemma find_every_none:
  "find_every P skip c xs = None \<longleftrightarrow> (\<forall>j<length xs. looked_at skip c j \<longrightarrow> \<not> P (xs ! j))"
  by (induction P skip c xs rule: find_every.induct) (auto simp: less_Suc_eq_0_disj)

section \<open>Comparison\<close>

definition cache_ok :: "buffer \<Rightarrow> nat \<Rightarrow> (int \<times> int) option \<Rightarrow> bool" where
  "cache_ok s slen c \<longleftrightarrow> (case c of None \<Rightarrow> True | Some (valid, l) \<Rightarrow>
     valid = 0 \<or> valid = 1 \<and> string2ll s slen = Inr (Some l) \<or> valid = -1 \<and> string2ll s slen = Inr None)"

lemma lpCompare_ok:
  assumes "lp_rep lp es" "i < length es" "slen \<le> length s" "cache_ok s slen c"
  shows "\<exists>c'. lpCompare lp (int (lp_pos es i)) s slen c = Inr (entry_text (es ! i) = take slen s, c') \<and> cache_ok s slen c'"
proof -
  obtain g where g: "lpGet lp (int (lp_pos es i)) None = Inr (g, None)" "got_elem lp g (lp_val (es ! i))"
    using lpGet_entry [OF assms(1,2)] by blast
  have r0: "rd lp (int (lp_pos es i)) = Inr (hd (es ! i))" "hd (es ! i) \<noteq> LP_EOF" using rd_entry [OF assms(1,2)] by simp_all
  show ?thesis
  proof (cases g)
    case (GotPtr off n)
    then obtain t where t: "rdn lp off n = Inr t" "lp_val (es ! i) = LStr t" using g(2) by (auto simp: got_elem_def)
    then have "length t = n" by (auto simp: rdn_def split: if_splits)
    then show ?thesis using t assms(3,4) GotPtr g(1) r0 by (auto simp: lpCompare_def elem_text_def rdn_take)
  next
    case (GotInt v)
    then have v: "lp_val (es ! i) = LInt v" using g(2) by (simp add: got_elem_def)
    obtain r where r: "string2ll s slen = Inr r" using string2ll_total [OF assms(3)] by blast
    have iff: "r = Some v \<longleftrightarrow> dec_int v = take slen s"
      using string2ll_iff [OF assms(3)] val_range [OF lp_rep_enc [OF assms(1,2)] v] r by simp
    show ?thesis using g(1) GotInt r0 r iff v assms(4)
      by (auto simp: lpCompare_def cache_ok_def lpStringToInt64_def elem_text_def split: option.splits)
  qed (use g(2) in \<open>simp add: got_elem_def\<close>)
qed

end
