(* ===== verification/Listpack_Valid.thy ===== *)
theory Listpack_Valid
  imports Listpack_Read
begin

text \<open>
  The deep integrity check of listpacks that come from outside. It never reads outside the block, it
  accepts every well formed listpack, and in an accepted one every entry can be visited in both
  directions and read.
\<close>

section \<open>The check never reads outside the block\<close>

lemma rd_in: "0 \<le> p \<Longrightarrow> p < int (length lp) \<Longrightarrow> rd lp p = Inr (lp ! nat p)"
  by (simp add: rd_def)

lemma rdn_in: "0 \<le> p \<Longrightarrow> p + int n \<le> int (length lp) \<Longrightarrow> rdn lp p n = Inr (take n (drop (nat p) lp))"
  by (simp add: rdn_def)

lemma decode_total:
  assumes "4 \<le> p" "p < int (length lp)"
  shows "\<exists>n. lpDecodeBacklen lp p = Inr n"
  using assms by (simp add: lpDecodeBacklen_def rd_in Let_def)

lemma size_total:
  assumes "0 \<le> p" "rd lp p = Inr b" "0 < lpCurrentEncodedSizeBytes b" "p + int (lpCurrentEncodedSizeBytes b) \<le> int (length lp)"
  shows "\<exists>n. lpCurrentEncodedSizeUnsafe lp p = Inr n"
  using assms unfolding lpCurrentEncodedSizeUnsafe_def lpCurrentEncodedSizeBytes_def
  by (auto simp: LP_ENCODING_6BIT_STR_LEN_def LP_ENCODING_12BIT_STR_LEN_def LP_ENCODING_32BIT_STR_LEN_def rd_in rdn_in split: if_splits)

lemma validate_step:
  assumes "LP_HDR_SIZE \<le> p" "p \<le> int bytes - 1" "rd lp p = Inr b" "b \<noteq> LP_EOF" "0 < lpCurrentEncodedSizeBytes b"
    and "p + int (lpCurrentEncodedSizeBytes b) \<le> int bytes - 1" "lpCurrentEncodedSizeUnsafe lp p = Inr n"
    and "q = p + int (n + lpEncodeBacklenBytes n)"
  shows "lpValidateNext lp (Some p) bytes =
    (if q > int bytes - 1 then Inr (Some p, False)
     else res_bind (lpDecodeBacklen lp (q - 1)) (\<lambda>m.
       if (m + lpEncodeBacklenBytes n) mod 2 ^ 64 \<noteq> n + lpEncodeBacklenBytes n then Inr (Some p, False) else Inr (Some q, True)))"
  using assms(1-7) unfolding assms(8) lpValidateNext_def Let_def by simp

lemma validate_accept:
  assumes "lpValidateNext lp (Some p) bytes = Inr (Some q, True)"
  obtains b n m where "LP_HDR_SIZE \<le> p" "p \<le> int bytes - 1" "rd lp p = Inr b" "b \<noteq> LP_EOF" "0 < lpCurrentEncodedSizeBytes b"
    "p + int (lpCurrentEncodedSizeBytes b) \<le> int bytes - 1" "lpCurrentEncodedSizeUnsafe lp p = Inr n"
    "q = p + int (n + lpEncodeBacklenBytes n)" "q \<le> int bytes - 1" "lpDecodeBacklen lp (q - 1) = Inr m"
    "(m + lpEncodeBacklenBytes n) mod 2 ^ 64 = n + lpEncodeBacklenBytes n"
  using assms that by (auto simp: lpValidateNext_def Let_def split: if_splits)

lemma if_Inr: "\<exists>r. (if c then Inr x else Inr y) = Inr r"
  by simp

lemma validate_total: "\<exists>r. lpValidateNext lp pp (length lp) = Inr r"
proof (cases pp)
  case (Some p)
  show ?thesis
  proof (cases "p < LP_HDR_SIZE \<or> p > int (length lp) - 1")
    case False
    define b where "b = lp ! nat p"
    have b: "rd lp p = Inr b" "0 \<le> p" using False rd_in [of p lp] by (simp_all add: b_def)
    show ?thesis
    proof (cases "b = LP_EOF \<or> lpCurrentEncodedSizeBytes b = 0 \<or> p + int (lpCurrentEncodedSizeBytes b) > int (length lp) - 1")
      case True
      then show ?thesis using Some False b by (auto simp: lpValidateNext_def Let_def)
    next
      case ok: False
      then obtain n where n: "lpCurrentEncodedSizeUnsafe lp p = Inr n" using size_total [OF b(2,1)] by auto
      let ?q = "p + int (n + lpEncodeBacklenBytes n)"
      have "?q \<le> int (length lp) - 1 \<Longrightarrow> \<exists>m. lpDecodeBacklen lp (?q - 1) = Inr m"
        using False lpEncodeBacklenBytes_pos [of n] by (intro decode_total) linarith+
      moreover have "lpValidateNext lp pp (length lp) = (if ?q > int (length lp) - 1 then Inr (Some p, False)
          else res_bind (lpDecodeBacklen lp (?q - 1)) (\<lambda>m.
            if (m + lpEncodeBacklenBytes n) mod 2 ^ 64 \<noteq> n + lpEncodeBacklenBytes n then Inr (Some p, False) else Inr (Some ?q, True)))"
        using validate_step [of p "length lp" lp b n, OF _ _ b(1) _ _ _ n refl] Some False ok by simp
      ultimately show ?thesis by (cases "?q > int (length lp) - 1") (auto simp del: res_bind_eq_Inr of_nat_add intro!: if_Inr)
    qed
  qed (use Some in \<open>auto simp: lpValidateNext_def Let_def\<close>)
qed (auto simp: lpValidateNext_def)

lemma validateEntriesLoop_total:
  assumes "bytes = length lp" "LP_HDR_SIZE \<le> p" "p < int (length lp)"
  shows "\<exists>r. validateEntriesLoop lp bytes p c = Inr r"
  using assms
proof (induction lp bytes p c rule: validateEntriesLoop.induct)
  case (1 lp bytes p c)
  obtain p' ok where v: "lpValidateNext lp (Some p) bytes = Inr (p', ok)" using validate_total [of lp "Some p"] 1 by auto
  have r: "rd lp p = Inr (lp ! nat p)" using 1 by (simp add: rd_in)
  show ?case
  proof (cases "lp ! nat p \<noteq> LP_EOF \<and> ok \<and> p' \<noteq> None")
    case True
    then obtain q where q: "p' = Some q" by auto
    have "LP_HDR_SIZE \<le> q" "q < int (length lp)"
      using True v q 1(2) lpEncodeBacklenBytes_pos by (auto elim!: validate_accept)
    then have "\<exists>r. validateEntriesLoop lp bytes q ((c + 1) mod 2 ^ 32) = Inr r"
      using 1(1) [OF r _ v refl _ q] True 1(2) by simp
    then show ?thesis using r v True q by (subst validateEntriesLoop.simps) simp
  next
    case False
    then show ?thesis using r v by (subst validateEntriesLoop.simps) (auto split: option.splits)
  qed
qed

section \<open>Accepted entries\<close>

lemma or_high_mod: "7 \<le> k \<Longrightarrow> (x OR push_bit k y) mod 128 = x mod 128" for x y :: nat
proof -
  assume "7 \<le> k"
  then have "take_bit 7 (x OR push_bit k y) = take_bit 7 x" by (simp add: take_bit_push_bit)
  then show ?thesis by (simp add: take_bit_eq_mod)
qed

lemma decode_low:
  assumes "lpDecodeBacklen lp p = Inr v"
  shows "v \<le> 2 ^ 64 - 1 \<and> (v \<noteq> 2 ^ 64 - 1 \<longrightarrow> (\<exists>b. rd lp p = Inr b \<and> v mod 128 = unat b mod 128))"
proof -
  have a: "unat (b AND 127) < 128" for b :: byte using byte_masks(2) [of b] by simp
  have or7: "unat (b AND 127) OR push_bit 7 (unat (c AND 127)) < 16384" for b c :: byte
    using a [of b] a [of c] or_shift7(1) [of "unat (b AND 127)" "unat (c AND 127)"] by linarith
  have or14: "x < 16384 \<Longrightarrow> x OR push_bit 14 (unat (c AND 127)) < 2097152" for c :: byte and x
    using a [of c] or_shift7(2) [of x "unat (c AND 127)"] by linarith
  have or21: "x < 2097152 \<Longrightarrow> x OR push_bit 21 (unat (c AND 127)) < 268435456" for c :: byte and x
    using a [of c] or_shift7(3) [of x "unat (c AND 127)"] by linarith
  have or28: "x < 268435456 \<Longrightarrow> x OR push_bit 28 (unat (c AND 127)) < 34359738368" for c :: byte and x
    using a [of c] or_shift7(4) [of x "unat (c AND 127)"] by linarith
  note small = or7 or14 [OF or7] or21 [OF or14 [OF or7]] or28 [OF or21 [OF or14 [OF or7]]]
  let ?c = "\<lambda>b :: byte. unat (b AND 127)"
  obtain b where b: "rd lp p = Inr b" using assms by (auto simp: lpDecodeBacklen_def)
  consider "v = ?c b" | b1 where "v = ?c b OR push_bit 7 (?c b1)"
    | b1 b2 where "v = (?c b OR push_bit 7 (?c b1)) OR push_bit 14 (?c b2)"
    | b1 b2 b3 where "v = ((?c b OR push_bit 7 (?c b1)) OR push_bit 14 (?c b2)) OR push_bit 21 (?c b3)"
    | b1 b2 b3 b4 where "v = (((?c b OR push_bit 7 (?c b1)) OR push_bit 14 (?c b2)) OR push_bit 21 (?c b3)) OR push_bit 28 (?c b4)"
    | "v = 2 ^ 64 - 1"
    using assms b unfolding lpDecodeBacklen_def Let_def by (auto split: if_splits)
  then show ?thesis
  proof cases
    case 1
    then show ?thesis using b a [of b] by (simp add: byte_masks(2))
  next
    case (2 b1)
    then have "v \<le> 2 ^ 64 - 1" using or7 [of b b1] by simp
    then show ?thesis using b 2 by (simp add: byte_masks(2) or_high_mod)
  next
    case (3 b1 b2)
    then have "v \<le> 2 ^ 64 - 1" using small(2) [of b b1 b2] by simp
    then show ?thesis using b 3 by (simp add: byte_masks(2) or_high_mod)
  next
    case (4 b1 b2 b3)
    then have "v \<le> 2 ^ 64 - 1" using small(3) [of b b1 b2 b3] by simp
    then show ?thesis using b 4 by (simp add: byte_masks(2) or_high_mod)
  next
    case (5 b1 b2 b3 b4)
    then have "v \<le> 2 ^ 64 - 1" using small(4) [of b b1 b2 b3 b4] by simp
    then show ?thesis using b 5 by (simp add: byte_masks(2) or_high_mod)
  qed simp
qed

text \<open>
  The size of a 32 bit string wraps for lengths from \<open>2^32 - 5\<close> on. The backlen is then one of the bytes of
  the header of the entry, and none of them is right.
\<close>

lemma le_bytes_4: "le_bytes 4 x = [word_of_int x, word_of_int (x div 256), word_of_int (x div 256 div 256), word_of_int (x div 256 div 256 div 256)]"
  by (simp add: numeral_eq_Suc)

lemma wrapped_size:
  assumes "4294967291 \<le> len" "len < 2 ^ 32" "bs = le_bytes 4 (int len)" "n = (5 + len) mod 2 ^ 32"
  shows "n < 5 \<and> unat ((0xF0 # bs) ! n) mod 128 \<noteq> n"
proof -
  have "len \<in> {4294967291, 4294967292, 4294967293, 4294967294, 4294967295}" using assms(1,2) by auto
  then show ?thesis unfolding assms(3,4) le_bytes_4 by (elim insertE emptyE) simp_all
qed

lemma size_cases:
  assumes "lpCurrentEncodedSizeUnsafe lp p = Inr n" "rd lp p = Inr b" "0 < lpCurrentEncodedSizeBytes b" "b \<noteq> LP_EOF"
  obtains (u7) "unat b < 128" "n = 1"
  | (s6) "128 \<le> unat b" "unat b < 192" "n = 1 + (unat b - 128)"
  | (i13) "192 \<le> unat b" "unat b < 224" "n = 2"
  | (s12) c where "224 \<le> unat b" "unat b < 240" "rd lp (p + 1) = Inr c" "n = 2 + ((unat b - 224) * 256 + unat c)"
  | (s32) bs where "b = 0xF0" "rdn lp (p + 1) 4 = Inr bs" "n = (5 + nat (le_val bs)) mod 2 ^ 32"
  | (i16) "b = 0xF1" "n = 3"
  | (i24) "b = 0xF2" "n = 4"
  | (i32) "b = 0xF3" "n = 5"
  | (i64) "b = 0xF4" "n = 9"
proof -
  note size = assms(1) [unfolded lpCurrentEncodedSizeUnsafe_def assms(2) res_bind_simps]
  have "n < 128 \<or> 128 \<le> n \<and> n < 192 \<or> 192 \<le> n \<and> n < 224 \<or> 224 \<le> n \<and> n < 240 \<or> n = 240 \<or> n = 241 \<or> n = 242 \<or> n = 243 \<or> n = 244 \<or> 245 \<le> n"
    for n :: nat by arith
  from this [of "unat b"] consider "unat b < 128" | "128 \<le> unat b" "unat b < 192" | "192 \<le> unat b" "unat b < 224" | "224 \<le> unat b" "unat b < 240"
    | "b = 0xF0" | "b = 0xF1" | "b = 0xF2" | "b = 0xF3" | "b = 0xF4" | "245 \<le> unat b"
    unfolding byte_eq by fastforce
  then show thesis
  proof cases
    case 1
    then show ?thesis using size by (auto simp: encoding_tests intro: u7)
  next
    case 2
    then show ?thesis using size assms(2) mod_block [of 64 2 "unat b"]
      by (auto simp: encoding_tests LP_ENCODING_6BIT_STR_LEN_def byte_masks intro: s6)
  next
    case 3
    then show ?thesis using size by (auto simp: encoding_tests intro: i13)
  next
    case 4
    then show ?thesis using size assms(2) mod_block [of 16 14 "unat b"]
      by (auto simp: encoding_tests byte_eq LP_ENCODING_12BIT_STR_LEN_def byte_masks len_12bit intro: s12)
  next
    case 5
    then show ?thesis using size by (auto simp: encoding_tests LP_ENCODING_32BIT_STR_LEN_def intro: s32)
  next
    case 10
    then show ?thesis using assms(3,4) by (auto simp: lpCurrentEncodedSizeBytes_def encoding_tests byte_eq split: if_splits)
  qed (use size in \<open>auto simp: encoding_tests intro: i16 i24 i32 i64\<close>)
qed

lemma accepted_entry:
  assumes "lpValidateNext lp (Some p) (length lp) = Inr (Some q, True)"
  obtains e where "lp_enc e" "lp = take (nat p) lp @ e @ drop (nat p + length e) lp" "LP_HDR_SIZE \<le> p" "q < int (length lp)"
    "q = p + int (length e + lpEncodeBacklenBytes (length e))" "lpDecodeBacklen lp (q - 1) = Inr (length e)"
proof -
  obtain b n m where v: "LP_HDR_SIZE \<le> p" "rd lp p = Inr b" "b \<noteq> LP_EOF" "0 < lpCurrentEncodedSizeBytes b"
    "p + int (lpCurrentEncodedSizeBytes b) \<le> int (length lp) - 1" "lpCurrentEncodedSizeUnsafe lp p = Inr n"
    "q = p + int (n + lpEncodeBacklenBytes n)" "q \<le> int (length lp) - 1" "lpDecodeBacklen lp (q - 1) = Inr m"
    "(m + lpEncodeBacklenBytes n) mod 2 ^ 64 = n + lpEncodeBacklenBytes n"
    using assms by (rule validate_accept)
  have m: "m = n"
  proof (cases "m + lpEncodeBacklenBytes n < 2 ^ 64")
    case False
    have "m \<le> 2 ^ 64 - 1" "lpEncodeBacklenBytes n \<le> 5" using decode_low [OF v(9)] backlen_bound by auto
    then show ?thesis using v(10) False le_mod_geq [of "2 ^ 64" "m + lpEncodeBacklenBytes n"] by simp
  qed (use v(10) in simp)
  define P e where "P = nat p" and "e = take n (drop P lp)"
  have P: "p = int P" "rd lp (int P) = Inr b" using v(1,2) by (simp_all add: P_def)
  have inside: "P + n < length lp" using v(7,8) P(1) by linarith
  then have len: "length e = n" "P < length lp" by (simp_all add: e_def)
  have split: "lp = take P lp @ e @ drop (P + length e) lp"
    unfolding len(1) by (metis append_take_drop_id drop_drop add.commute e_def)
  have hd: "hd e = b" if "0 < n" using P(2) len that by (simp add: e_def hd_drop_conv_nth rd_nat)
  have "lp_size e = n \<and> 0 < n \<and> n < 2 ^ 32"
    using v(6) [unfolded P(1)] P(2) v(4,3)
  proof (cases rule: size_cases)
    case (s12 c)
    have "c = lp ! Suc P" using s12(3) rd_range [OF s12(3)] by (simp add: rd_def nat_add_distrib split: if_splits)
    then have "e ! Suc 0 = c" using s12(4) len by (simp add: e_def)
    then show ?thesis using s12 hd unat_byte_less [of c] by (simp add: lp_size_def)
  next
    case (s32 bs)
    have bs: "bs = take 4 (drop (Suc P) lp)" "length bs = 4"
      using s32(2) by (auto simp: rdn_def nat_add_distrib split: if_splits)
    have le: "le_val bs < 2 ^ 32" "0 \<le> le_val bs" using le_val_bounds [of bs] bs(2) by simp_all
    show ?thesis
    proof (cases "5 + nat (le_val bs) < 2 ^ 32")
      case True
      then have n: "n = 5 + nat (le_val bs)" using s32(3) by simp
      then have "take 4 (tl e) = bs" by (simp add: e_def bs(1) tl_take tl_drop drop_Suc take_take)
      then show ?thesis using n True hd s32(1) by (simp add: lp_size_def)
    next
      case False
      have "bs = le_bytes 4 (int (nat (le_val bs)))" using le_bytes_le_val [of bs] bs(2) le(2) by simp
      then have w: "n < 5" "unat ((0xF0 # bs) ! n) mod 128 \<noteq> n"
        using wrapped_size [of "nat (le_val bs)" bs n] False le s32(3) by auto
      have "lpEncodeBacklenBytes n = 1" using w(1) by (simp add: lpEncodeBacklenBytes_def)
      then have q: "q - 1 = int (P + n)" using v(7) P(1) by simp
      then obtain b' where b': "rd lp (int (P + n)) = Inr b'" "n mod 128 = unat b' mod 128"
        using decode_low [OF v(9)] m w(1) by auto
      moreover have "lp ! (P + n) = (0xF0 # bs) ! n"
        using w(1) bs P(2) s32(1) by (cases n) (auto simp: rd_def split: if_splits)
      moreover have "b' = lp ! (P + n)" using b'(1) unfolding rd_nat [OF inside] by simp
      ultimately show ?thesis using w by simp
    qed
  qed (use hd in \<open>auto simp: lp_size_def Let_def\<close>)
  then have "lp_enc e" using len(1) by (auto simp: lp_enc_def)
  then show ?thesis using that [of e] split v(1,7,8,9) m len(1) by (simp add: P_def)
qed

section \<open>Walking an accepted listpack\<close>

fun lp_walk :: "buffer \<Rightarrow> int \<Rightarrow> int list \<Rightarrow> bool" where
  "lp_walk lp p [] \<longleftrightarrow> rd lp p = Inr LP_EOF"
| "lp_walk lp p (q # qs) \<longleftrightarrow> lpValidateNext lp (Some p) (length lp) = Inr (Some q, True) \<and> lp_walk lp q qs"

lemma loop_walk:
  assumes "validateEntriesLoop lp bytes p c = Inr (Some (p', c'))" "bytes = length lp" "c < 2 ^ 32"
  shows "\<exists>qs. lp_walk lp p qs \<and> p' = last (p # qs) \<and> c' = (c + length qs) mod 2 ^ 32"
  using assms
proof (induction lp bytes p c arbitrary: p' c' rule: validateEntriesLoop.induct)
  case (1 lp bytes p c)
  obtain b where b: "rd lp p = Inr b" using 1(2) by (subst (asm) validateEntriesLoop.simps) auto
  show ?case
  proof (cases "b = LP_EOF")
    case True
    then show ?thesis using 1(2,4) b by (intro exI [of _ "[]"]) (subst (asm) validateEntriesLoop.simps, simp)
  next
    case False
    then obtain q where v: "lpValidateNext lp (Some p) bytes = Inr (Some q, True)"
      "validateEntriesLoop lp bytes q ((c + 1) mod 2 ^ 32) = Inr (Some (p', c'))"
      using 1(2) b by (subst (asm) validateEntriesLoop.simps) (auto split: if_splits option.splits)
    obtain qs where "lp_walk lp q qs" "p' = last (q # qs)" "c' = ((c + 1) mod 2 ^ 32 + length qs) mod 2 ^ 32"
      using 1(1) [OF b False v(1) refl _ refl v(2) 1(3)] by auto
    then show ?thesis using v(1) 1(3) by (intro exI [of _ "q # qs"]) (simp add: mod_simps)
  qed
qed

lemma walk_valid: "lp_walk lp p qs \<Longrightarrow> LP_HDR_SIZE \<le> p \<Longrightarrow> p < int (length lp) \<Longrightarrow> lpAssertValidEntry lp (length lp) p = Inr ()"
  by (cases qs) (simp add: lpAssertValidEntry_def lpValidateNext_def, simp add: lpAssertValidEntry_def)

lemma walk_next:
  assumes "lp_walk lp p (q # qs)" "lpGetTotalBytes lp = Inr (length lp)"
  shows "lpNext lp p = Inr (if qs = [] then None else Some q)"
    "lpPrev lp q = (if q = LP_HDR_SIZE then Inr None else Inr (Some p))"
    "\<exists>g. lpGet lp p None = Inr (g, None) \<and> (case g of GotPtr off n \<Rightarrow> \<exists>s. rdn lp off n = Inr s | GotBuf _ \<Rightarrow> False | GotInt _ \<Rightarrow> True)"
    "LP_HDR_SIZE \<le> p \<and> p < q \<and> q < int (length lp)"
proof -
  have v: "lpValidateNext lp (Some p) (length lp) = Inr (Some q, True)" "lp_walk lp q qs" using assms(1) by simp_all
  obtain e where e: "lp_enc e" "lp = take (nat p) lp @ e @ drop (nat p + length e) lp" "LP_HDR_SIZE \<le> p" "q < int (length lp)"
    "q = p + int (length e + lpEncodeBacklenBytes (length e))" "lpDecodeBacklen lp (q - 1) = Inr (length e)"
    using v(1) by (rule accepted_entry)
  let ?n = "length e + lpEncodeBacklenBytes (length e)"
  have n: "?n mod 2 ^ 64 = ?n" "?n < 2 ^ 33" "0 < ?n"
    using e(1) lpEncodeBacklenBytes_pos by (simp_all add: lp_enc_def lpEncodeBacklenBytes_def)
  show pq: "LP_HDR_SIZE \<le> p \<and> p < q \<and> q < int (length lp)" using e(3,4,5) n(3) by linarith
  have "nat p \<le> length lp" "0 \<le> p" using pq by linarith+
  then have at: "int (length (take (nat p) lp)) = p" by (simp add: min_absorb2)
  have "lpCurrentEncodedSizeUnsafe lp p = Inr (length e)"
    using encoded_size_at [OF e(1), of "take (nat p) lp" "drop (nat p + length e) lp"] unfolding at e(2) [symmetric] .
  then have skip: "lpSkip lp p = Inr q" using e(5) by (simp add: lpSkip_def)
  obtain g where g: "lpGetWithBuf lp p None = Inr (g, None)" "got_elem lp g (lp_val e)"
    using get_at [OF e(1), of "take (nat p) lp" "drop (nat p + length e) lp"] unfolding at e(2) [symmetric] by blast
  then show "\<exists>g. lpGet lp p None = Inr (g, None) \<and> (case g of GotPtr off n \<Rightarrow> \<exists>s. rdn lp off n = Inr s | GotBuf _ \<Rightarrow> False | GotInt _ \<Rightarrow> True)"
    by (cases g) (auto simp: lpGet_def got_elem_def)
  have rdq: "\<exists>b. rd lp q = Inr b \<and> (b = LP_EOF \<longleftrightarrow> qs = [])"
    using v(2) by (cases qs) (auto elim!: validate_accept)
  have valid: "lpAssertValidEntry lp (length lp) p = Inr ()" "lpAssertValidEntry lp (length lp) q = Inr ()"
    using walk_valid [OF assms(1)] walk_valid [OF v(2)] pq by auto
  show "lpNext lp p = Inr (if qs = [] then None else Some q)"
    using rdq skip valid(2) assms(2) by (auto simp: lpNext_def lpBytes_def)
  have "q - 1 - to_ll (nat ((int ?n - 1) mod 2 ^ 64)) = p" using to_ll_pred [OF n(3,2)] e(5) by simp
  then show "lpPrev lp q = (if q = LP_HDR_SIZE then Inr None else Inr (Some p))"
    using e(6) n(1) valid(1) assms(2) by (simp add: lpPrev_def lpBytes_def Let_def)
qed

lemma walk_drop: "lp_walk lp p qs \<Longrightarrow> i \<le> length qs \<Longrightarrow> lp_walk lp ((p # qs) ! i) (drop i qs)"
proof (induction i arbitrary: p qs)
  case (Suc i)
  then show ?case by (cases qs) auto
qed simp

lemma walk_length:
  assumes "lp_walk lp p qs" "lpGetTotalBytes lp = Inr (length lp)"
  shows "p + int (length qs) \<le> last (p # qs)"
  using assms(1)
proof (induction qs arbitrary: p)
  case (Cons q qs)
  have "q + int (length qs) \<le> last (q # qs)" "p < q" using Cons.IH [of q] Cons.prems walk_next(4) [OF Cons.prems assms(2)] by simp_all
  moreover have "last (p # q # qs) = last (q # qs)" by simp
  ultimately show ?case unfolding length_Cons of_nat_Suc by linarith
qed simp

lemma walk_at:
  assumes "lp_walk lp p qs" "lpGetTotalBytes lp = Inr (length lp)" "i < length qs"
  shows "lp_walk lp ((p # qs) ! i) (qs ! i # drop (Suc i) qs)"
  using walk_drop [OF assms(1), of i] assms(3) by (simp add: Cons_nth_drop_Suc)

lemma walk_count:
  assumes "lp_walk lp p qs" "lpGetTotalBytes lp = Inr (length lp)" "qs \<noteq> []" "c + length qs < 2 ^ 32"
  shows "lpLengthLoop lp (Some p) c = Inr (c + length qs)"
  using assms(1,3,4)
proof (induction qs arbitrary: p c)
  case (Cons q qs)
  note step = walk_next(1) [OF Cons.prems(1) assms(2)]
  show ?case
  proof (cases "qs = []")
    case True
    then show ?thesis using step Cons.prems(3) by simp
  next
    case False
    then have "lpLengthLoop lp (Some q) (Suc c) = Inr (Suc c + length qs)" using Cons.IH [of q "Suc c"] Cons.prems by simp
    then show ?thesis using step False Cons.prems(3) by (subst lpLengthLoop.simps) (simp del: lpLengthLoop.simps)
  qed
qed simp

text \<open>The entries at \<open>ps\<close> are exactly those visited in either direction, and each of them can be read.\<close>

definition lp_visits :: "buffer \<Rightarrow> int list \<Rightarrow> bool" where
  "lp_visits lp ps \<longleftrightarrow>
     lpFirst lp = Inr (if ps = [] then None else Some (hd ps)) \<and>
     lpLast lp = Inr (if ps = [] then None else Some (last ps)) \<and>
     (\<forall>i<length ps.
        lpNext lp (ps ! i) = Inr (if Suc i < length ps then Some (ps ! Suc i) else None) \<and>
        lpPrev lp (ps ! i) = Inr (if i = 0 then None else Some (ps ! (i - 1))) \<and>
        (\<exists>g. lpGet lp (ps ! i) None = Inr (g, None) \<and>
           (case g of GotPtr off n \<Rightarrow> \<exists>s. rdn lp off n = Inr s | GotBuf _ \<Rightarrow> False | GotInt _ \<Rightarrow> True))) \<and>
     (\<exists>lp'. lpLength lp = Inr (lp', length ps))"

lemma walk_visits:
  assumes "lp_walk lp LP_HDR_SIZE qs" "lpGetTotalBytes lp = Inr (length lp)" "last (LP_HDR_SIZE # qs) = int (length lp) - 1"
    and "lpGetNumElements lp = Inr n" "n = LP_HDR_NUMELE_UNKNOWN \<or> n = length qs" "7 \<le> length lp" "length lp < 2 ^ 32"
  shows "lp_visits lp (butlast (LP_HDR_SIZE # qs))"
proof -
  let ?qs = "LP_HDR_SIZE # qs"
  define ps where "ps = butlast ?qs"
  have len: "length ps = length qs" unfolding ps_def length_butlast by simp
  have nth: "ps ! i = ?qs ! i" if "i < length qs" for i unfolding ps_def using that by (intro nth_butlast) auto
  have null: "ps = [] \<longleftrightarrow> qs = []" using len by auto
  have ends: "ps = [] \<longleftrightarrow> qs = []" "qs \<noteq> [] \<Longrightarrow> hd ps = LP_HDR_SIZE" "qs \<noteq> [] \<Longrightarrow> last ps = ?qs ! (length qs - 1)"
    using null len nth [of 0] nth [of "length qs - 1"] hd_conv_nth [of ps] last_conv_nth [of ps] by simp_all
  note at = walk_next [OF walk_at [OF assms(1,2)] assms(2)]
  have first: "lpFirst lp = Inr (if ps = [] then None else Some (hd ps))"
    using assms(1,2,6) walk_valid [OF assms(1)]
    by (cases qs) (auto simp: lpFirst_def lpBytes_def ends elim!: validate_accept)
  have last: "lpLast lp = Inr (if ps = [] then None else Some (last ps))"
  proof (cases qs rule: rev_cases)
    case Nil
    then show ?thesis using assms(2,3) by (simp add: lpLast_def lpPrev_def ends)
  next
    case (snoc rs q)
    have "lpLast lp = lpPrev lp q" using assms(2,3) snoc by (simp add: lpLast_def)
    then show ?thesis using at(2) [of "length rs"] at(4) [of "length rs"] snoc ends by (auto simp: nth_append)
  qed
  have next': "lpNext lp (ps ! i) = Inr (if Suc i < length ps then Some (ps ! Suc i) else None)" if "i < length ps" for i
    using that at(1) [of i] nth [of i] nth [of "Suc i"] len by simp
  have prev: "lpPrev lp (ps ! i) = Inr (if i = 0 then None else Some (ps ! (i - 1)))" if "i < length ps" for i
  proof (cases i)
    case 0
    then show ?thesis using that nth [of 0] len by (simp add: lpPrev_def)
  next
    case (Suc j)
    then show ?thesis using that at(2) [of j] at(4) [of j] nth [of i] nth [of j] len by auto
  qed
  have "length qs < 2 ^ 32" using walk_length [OF assms(1,2)] assms(3,7) by simp
  then have count: "lpLengthLoop lp (if qs = [] then None else Some LP_HDR_SIZE) 0 = Inr (length qs)"
    using walk_count [OF assms(1,2), of 0] by simp
  obtain lp' where set: "lpSetNumElements lp (int (length qs)) = Inr lp'" using assms(6) by (auto simp: lpSetNumElements_def wrn_def)
  have "lpFirst lp = Inr (if qs = [] then None else Some LP_HDR_SIZE)" using first ends by simp
  then have "lpLength lp = (if n \<noteq> LP_HDR_NUMELE_UNKNOWN then Inr (lp, n)
      else if length qs < LP_HDR_NUMELE_UNKNOWN then Inr (lp', length qs) else Inr (lp, length qs))"
    by (simp only: lpLength_def assms(4) res_bind_simps count set)
  then have "\<exists>lp'. lpLength lp = Inr (lp', length ps)" using assms(5) len by auto
  then have "lp_visits lp ps" unfolding lp_visits_def using first last next' prev at(3) nth len by simp
  then show ?thesis by (simp only: ps_def)
qed

section \<open>The deep check\<close>

lemma validateEntriesLoop_rep:
  assumes "lp_rep lp es" "i \<le> length es" "c + (length es - i) < 2 ^ 32"
  shows "validateEntriesLoop lp (lp_total es) (int (lp_pos es i)) c = Inr (Some (int (lp_pos es (length es)), c + (length es - i)))"
  using assms(2,3)
proof (induction "length es - i" arbitrary: i c)
  case 0
  then show ?case using rd_eof [OF assms(1)] by (subst validateEntriesLoop.simps) simp
next
  case (Suc m)
  then have i: "i < length es" by simp
  have "validateEntriesLoop lp (lp_total es) (int (lp_pos es (Suc i))) (c + 1) = Inr (Some (int (lp_pos es (length es)), c + (length es - i)))"
    using Suc.hyps(1) [of "Suc i" "c + 1"] Suc.hyps(2) Suc.prems by simp
  moreover have "(c + 1) mod 2 ^ 32 = c + 1" using Suc.prems(2) i by simp
  ultimately show ?case using rd_entry [OF assms(1) i] validate_entry [OF assms(1) i] by (subst validateEntriesLoop.simps) simp
qed

lemma validate_complete:
  assumes "lp_rep lp es" "lp_total es = length lp"
  shows "lpValidateIntegrity lp (length lp) True = Inr True"
proof -
  obtain n slack where f: "lp_count_ok n (length es)" "lpGetNumElements lp = Inr n" using assms(1) by (rule lp_repE)
  have "length es < 2 ^ 32" using length_less_total [of es] assms(1) by (simp add: lp_rep_def)
  then have "validateEntriesLoop lp (length lp) LP_HDR_SIZE 0 = Inr (Some (int (length lp) - 1, length es))"
    using validateEntriesLoop_rep [OF assms(1), of 0 0] lp_pos_last [of es] assms(2) by (simp add: lp_total_def)
  moreover have len: "7 \<le> length lp" using assms(2) by (simp add: lp_total_def)
  moreover have "int (lp_pos es (length es)) = int (length lp) - 1" using lp_pos_last [of es] assms(2) len by simp
  then have "rd lp (int (length lp) - 1) = Inr LP_EOF" using rd_eof [OF assms(1)] by simp
  ultimately show ?thesis using lp_rep_total [OF assms(1)] assms(2) f by (auto simp: lpValidateIntegrity_def lp_count_ok_def)
qed

lemma validate_deep_ok:
  "\<exists>b. lpValidateIntegrity lp (length lp) True = Inr b \<and> (b \<longrightarrow> (\<exists>ps. lp_visits lp ps))"
proof (cases "7 \<le> length lp")
  case len: True
  obtain t where t: "lpGetTotalBytes lp = Inr t" "t < 2 ^ 32"
    using rdn_in [of 0 4 lp] le_val_bounds [of "take 4 lp"] len by (auto simp: lpGetTotalBytes_def nat_less_iff)
  obtain n where n: "lpGetNumElements lp = Inr n" using rdn_in [of 4 2 lp] len by (auto simp: lpGetNumElements_def)
  have eof: "rd lp (int (length lp) - 1) = Inr (lp ! nat (int (length lp) - 1))" using len by (intro rd_in) auto
  show ?thesis
  proof (cases "t = length lp \<and> lp ! nat (int (length lp) - 1) = LP_EOF")
    case True
    obtain r where r: "validateEntriesLoop lp (length lp) LP_HDR_SIZE 0 = Inr r" using validateEntriesLoop_total [of "length lp" lp LP_HDR_SIZE 0] len by auto
    let ?b = "case r of None \<Rightarrow> False | Some (p, count) \<Rightarrow> p = int (length lp) - 1 \<and> \<not> (n \<noteq> LP_HDR_NUMELE_UNKNOWN \<and> n \<noteq> count)"
    have run: "lpValidateIntegrity lp (length lp) True = Inr ?b"
      using len t(1) n eof r True by (simp add: lpValidateIntegrity_def)
    have "\<exists>ps. lp_visits lp ps" if acc: ?b
    proof -
      obtain qs where w: "lp_walk lp LP_HDR_SIZE qs" "last (LP_HDR_SIZE # qs) = int (length lp) - 1"
        "n = LP_HDR_NUMELE_UNKNOWN \<or> n = length qs mod 2 ^ 32"
        using acc loop_walk [of lp "length lp" LP_HDR_SIZE 0] r by (auto split: option.splits)
      have "length qs < 2 ^ 32" using walk_length [OF w(1)] t True w(2) by simp
      then show ?thesis using walk_visits [OF w(1) _ w(2) n] w(3) t True len by auto
    qed
    then show ?thesis using run by blast
  qed (use len t(1) eof in \<open>auto simp: lpValidateIntegrity_def\<close>)
qed (auto simp: lpValidateIntegrity_def)

section \<open>A listpack with a long backlen\<close>

text \<open>One entry, the empty string, whose backlen byte says that the backlen goes on.\<close>

abbreviation lax_lp :: "byte \<Rightarrow> byte \<Rightarrow> buffer" where
  "lax_lp b1 b2 \<equiv> [9, 0, 0, 0, b1, b2, 0x80, 0x81, LP_EOF]"

lemmas lp_eval = rd_def rdn_def lpGetTotalBytes_def lpGetNumElements_def lpCurrentEncodedSizeBytes_def
  lpCurrentEncodedSizeUnsafe_def lpEncodeBacklenBytes_def lpDecodeBacklen_def LP_ENCODING_IS_7BIT_UINT_def
  LP_ENCODING_IS_6BIT_STR_def LP_ENCODING_6BIT_STR_LEN_def

lemma lax_sizes:
  "lpCurrentEncodedSizeUnsafe (lax_lp b1 b2) 6 = Inr 1" "lpCurrentEncodedSizeBytes 0x80 = 1"
  "lpGetTotalBytes (lax_lp b1 b2) = Inr 9" "lpGetNumElements (lax_lp 1 0) = Inr 1"
  "lpDecodeBacklen (lax_lp 1 0) 7 = Inr 1" "lpDecodeBacklen (lax_lp 0 1) 7 = Inr 16385"
  by (simp_all add: lp_eval)

lemma lax_next:
  "lpValidateNext (lax_lp 1 0) (Some 6) 9 = Inr (Some 8, True)"
  "lpValidateNext (lax_lp 0 1) (Some 6) 9 = Inr (Some 6, False)"
  unfolding lpValidateNext_def by (simp_all add: lax_sizes lpEncodeBacklenBytes_def rd_def)

lemma lax_walk: "validateEntriesLoop (lax_lp 1 0) 9 6 0 = Inr (Some (8, 1))"
  by (subst validateEntriesLoop.simps, simp add: rd_def lax_next, subst validateEntriesLoop.simps, simp add: rd_def)

lemma lax_accepted: "lpValidateIntegrity (lax_lp 1 0) 9 True = Inr True"
  unfolding lpValidateIntegrity_def by (simp add: lax_sizes(3,4) lax_walk rd_def)

lemma lax_first: "lpFirst (lax_lp 0 1) = Inl AssertFailed"
  unfolding lpFirst_def lpAssertValidEntry_def lpBytes_def by (simp add: lax_sizes(3) lax_next(2) rd_def)

section \<open>Properties\<close>

text \<open>
  CN: The deep integrity check of any block of bytes reads only inside the block. It accepts every well
  formed listpack. In every listpack that it accepts the entries can be visited forwards and backwards
  without an error, each of them can be read inside the block, and \<^verbatim>\<open>lpLength\<close> is their number.
\<close>

theorem listpack_validate_deep:
  "\<exists>b. lpValidateIntegrity lp (length lp) True = Inr b \<and>
     ((\<exists>es. lp_rep lp es \<and> lp_total es = length lp) \<longrightarrow> b) \<and> (b \<longrightarrow> (\<exists>ps. lp_visits lp ps))"
proof -
  obtain b where b: "lpValidateIntegrity lp (length lp) True = Inr b" "b \<longrightarrow> (\<exists>ps. lp_visits lp ps)"
    using validate_deep_ok by blast
  have b if "lp_rep lp es" "lp_total es = length lp" for es
    using validate_complete [OF that] b(1) by simp
  then show ?thesis using b by blast
qed

theorem listpack_validate_deep_witness:
  "lpValidateIntegrity [9, 0, 0, 0, 1, 0, 0x80, 0x81, LP_EOF] 9 True = Inr True \<and>
   (\<exists>ps. lp_visits [9, 0, 0, 0, 1, 0, 0x80, 0x81, LP_EOF] ps)"
proof -
  have n: "length (lax_lp 1 0) = 9" by simp
  obtain b where "lpValidateIntegrity (lax_lp 1 0) 9 True = Inr b" "b \<longrightarrow> (\<exists>ps. lp_visits (lax_lp 1 0) ps)"
    using listpack_validate_deep [of "lax_lp 1 0", unfolded n] by blast
  then show ?thesis unfolding lax_accepted by simp
qed


end
