(* ===== verification/Listpack_Spec.thy ===== *)
theory Listpack_Spec
  imports Listpack_Bulk Listpack_Read
begin

text \<open>
  What a listpack promises to its clients: it is a list of strings. The interface of an indexed list is a
  locale, which the listpack implements with the calls that its clients compose.
\<close>

section \<open>The interface of an indexed list\<close>

text \<open>
  Commands on a list of elements, and the replies of a mathematical list. An index counts from the end if it
  is negative. \<open>LTidy\<close> reorganises the concrete list only.
\<close>

datatype 'e list_op = LPush 'e | LUnshift 'e | LInsert int 'e | LReplace int 'e | LDelete int
  | LDeleteRange int nat | LGet int | LHas 'e | LLen | LTidy

datatype 'e list_reply = RUnit | RDid bool | RElem "'e option" | RLen nat

fun spec_list_op :: "'e list \<Rightarrow> 'e list_op \<Rightarrow> 'e list \<times> 'e list_reply" where
  "spec_list_op xs (LPush e) = (xs @ [e], RUnit)"
| "spec_list_op xs (LUnshift e) = (e # xs, RUnit)"
| "spec_list_op xs (LInsert idx e) =
     (case index_of (length xs) idx of None \<Rightarrow> (xs, RDid False) | Some j \<Rightarrow> (take j xs @ e # drop j xs, RDid True))"
| "spec_list_op xs (LReplace idx e) =
     (case index_of (length xs) idx of None \<Rightarrow> (xs, RDid False) | Some j \<Rightarrow> (xs[j := e], RDid True))"
| "spec_list_op xs (LDelete idx) =
     (case index_of (length xs) idx of None \<Rightarrow> (xs, RDid False) | Some j \<Rightarrow> (take j xs @ drop (Suc j) xs, RDid True))"
| "spec_list_op xs (LDeleteRange idx c) = (range_removed xs idx c, RUnit)"
| "spec_list_op xs (LGet idx) = (xs, RElem (map_option ((!) xs) (index_of (length xs) idx)))"
| "spec_list_op xs (LHas e) = (xs, RDid (e \<in> set xs))"
| "spec_list_op xs LLen = (xs, RLen (length xs))"
| "spec_list_op xs LTidy = (xs, RUnit)"

fun spec_list_ops :: "'e list \<Rightarrow> 'e list_op list \<Rightarrow> 'e list \<times> 'e list_reply list" where
  "spec_list_ops xs [] = (xs, [])"
| "spec_list_ops xs (op # ops) =
     (let (xs, r) = spec_list_op xs op; (xs, rs) = spec_list_ops xs ops in (xs, r # rs))"

fun run_list_ops :: "('s \<Rightarrow> 'e list_op \<Rightarrow> ('s \<times> 'r) result) \<Rightarrow> 's \<Rightarrow> 'e list_op list \<Rightarrow> ('s \<times> 'r list) result" where
  "run_list_ops step s [] = Inr (s, [])"
| "run_list_ops step s (op # ops) =
     res_bind (step s op) (\<lambda>(s, r). res_bind (run_list_ops step s ops) (\<lambda>(s, rs). Inr (s, r # rs)))"

text \<open>The room that the elements of a command need.\<close>

fun op_weight :: "('e \<Rightarrow> nat) \<Rightarrow> 'e list_op \<Rightarrow> nat" where
  "op_weight w (LPush e) = w e"
| "op_weight w (LUnshift e) = w e"
| "op_weight w (LInsert idx e) = w e"
| "op_weight w (LReplace idx e) = w e"
| "op_weight w _ = 0"

lemma weight_split: "sum_list (map w (take j xs)) + sum_list (map w (drop j xs)) = sum_list (map w xs)" for w :: "'e \<Rightarrow> nat"
  by (metis append_take_drop_id map_append sum_list_append)

lemma weight_drop: "i \<le> j \<Longrightarrow> sum_list (map w (drop j xs)) \<le> sum_list (map w (drop i xs))" for w :: "'e \<Rightarrow> nat"
  using weight_split [of w "j - i" "drop i xs"] by simp

lemma weight_update: "sum_list (map w (xs[j := e])) \<le> sum_list (map w xs) + w e" for w :: "'e \<Rightarrow> nat"
proof (cases "j < length xs")
  case True
  then show ?thesis using weight_split [of w j xs] weight_drop [of j "Suc j" w xs] by (simp add: upd_conv_take_nth_drop)
qed (simp add: not_less list_update_beyond)

lemma weight_cut: "i \<le> j \<Longrightarrow> sum_list (map w (take i xs)) + sum_list (map w (drop j xs)) \<le> sum_list (map w xs)" for w :: "'e \<Rightarrow> nat"
  using weight_split [of w i xs] weight_drop [of i j w xs] by linarith

lemma weight_spec: "sum_list (map w (fst (spec_list_op xs op))) \<le> sum_list (map w xs) + op_weight w op" for w :: "'e \<Rightarrow> nat"
proof (cases op)
  case (LInsert idx e)
  then show ?thesis using weight_split [of w _ xs] by (cases "index_of (length xs) idx") (auto simp: ac_simps)
next
  case (LReplace idx e)
  then show ?thesis using weight_update [of w xs _ e] by (cases "index_of (length xs) idx") auto
next
  case (LDelete idx)
  then show ?thesis by (cases "index_of (length xs) idx") (simp_all add: weight_cut)
next
  case (LDeleteRange idx c)
  then show ?thesis by (cases "index_of (length xs) idx") (simp_all add: range_removed_def weight_cut)
qed simp_all

locale indexed_list =
  fixes rep :: "'s \<Rightarrow> 'e list \<Rightarrow> bool" and step :: "'s \<Rightarrow> 'e list_op \<Rightarrow> ('s \<times> 'e list_reply) result"
    and w :: "'e \<Rightarrow> nat" and cap :: nat
  assumes step_rep: "rep s xs \<Longrightarrow> sum_list (map w xs) + op_weight w op \<le> cap \<Longrightarrow>
    \<exists>s'. step s op = Inr (s', snd (spec_list_op xs op)) \<and> rep s' (fst (spec_list_op xs op))"
begin

lemma run_list_ops_spec:
  "rep s xs \<Longrightarrow> sum_list (map w xs) + sum_list (map (op_weight w) ops) \<le> cap \<Longrightarrow>
   \<exists>s'. run_list_ops step s ops = Inr (s', snd (spec_list_ops xs ops)) \<and> rep s' (fst (spec_list_ops xs ops))"
proof (induction ops arbitrary: s xs)
  case (Cons op ops)
  let ?xs = "fst (spec_list_op xs op)"
  obtain s1 where s1: "step s op = Inr (s1, snd (spec_list_op xs op))" "rep s1 ?xs"
    using step_rep [of s xs op] Cons.prems by auto
  have "sum_list (map w ?xs) + sum_list (map (op_weight w) ops) \<le> cap"
    using weight_spec [of w xs op] Cons.prems(2) by simp
  then show ?case using Cons.IH [OF s1(2)] s1(1) by (auto simp: case_prod_beta Let_def)
qed simp

end

section \<open>The listpack as an indexed list\<close>

definition lp_list :: "buffer \<Rightarrow> buffer list \<Rightarrow> bool" where
  "lp_list lp xs \<longleftrightarrow> (\<exists>es. lp_rep lp es \<and> map (\<lambda>e. entry_text e) es = xs)"

text \<open>The commands as clients compose them; a NULL for the new listpack would be used as a listpack.\<close>

definition lp_edited :: "(buffer \<times> int option) option result \<Rightarrow> buffer list_reply \<Rightarrow> (buffer \<times> buffer list_reply) result" where
  "lp_edited r reply = res_bind r (\<lambda>r. case r of None \<Rightarrow> Inl OutOfBounds | Some (lp, _) \<Rightarrow> Inr (lp, reply))"

definition lp_at :: "buffer \<Rightarrow> int \<Rightarrow> (int \<Rightarrow> (buffer \<times> buffer list_reply) result) \<Rightarrow> (buffer \<times> buffer list_reply) result" where
  "lp_at lp idx f = res_bind (lpSeek lp idx) (\<lambda>p. case p of None \<Rightarrow> Inr (lp, RDid False) | Some p \<Rightarrow> f p)"

text \<open>The bytes that a result of \<^verbatim>\<open>lpGet\<close> with a buffer for integers stands for.\<close>

definition lp_got_text :: "buffer \<Rightarrow> lp_got \<times> buffer option \<Rightarrow> buffer result" where
  "lp_got_text lp r =
     (case r of (GotPtr off n, _) \<Rightarrow> rdn lp off n | (GotBuf n, Some buf) \<Rightarrow> rdn buf 0 n | _ \<Rightarrow> Inl OutOfBounds)"

fun lp_step :: "allocator \<Rightarrow> buffer \<Rightarrow> buffer list_op \<Rightarrow> (buffer \<times> buffer list_reply) result" where
  "lp_step A lp (LPush e) = lp_edited (lpAppend A lp e (length e)) RUnit"
| "lp_step A lp (LUnshift e) = lp_edited (lpPrepend A lp e (length e)) RUnit"
| "lp_step A lp (LInsert idx e) =
     lp_at lp idx (\<lambda>p. lp_edited (lpInsertString A lp e (length e) p LP_BEFORE) (RDid True))"
| "lp_step A lp (LReplace idx e) = lp_at lp idx (\<lambda>p. lp_edited (lpReplace A lp p e (length e)) (RDid True))"
| "lp_step A lp (LDelete idx) = lp_at lp idx (\<lambda>p. lp_edited (lpDelete A lp p) (RDid True))"
| "lp_step A lp (LDeleteRange idx c) = res_bind (lpDeleteRange A lp idx c) (\<lambda>lp. Inr (lp, RUnit))"
| "lp_step A lp (LGet idx) =
     res_bind (lpSeek lp idx) (\<lambda>p.
     case p of
       None \<Rightarrow> Inr (lp, RElem None)
     | Some p \<Rightarrow>
         res_bind (lpGet lp p (Some (replicate LP_INTBUF_SIZE 0))) (\<lambda>r.
         res_bind (lp_got_text lp r) (\<lambda>s. Inr (lp, RElem (Some s)))))"
| "lp_step A lp (LHas e) = res_bind (lpFind lp None e (length e) 0) (\<lambda>p. Inr (lp, RDid (p \<noteq> None)))"
| "lp_step A lp LLen = res_bind (lpLength lp) (\<lambda>(lp, n). Inr (lp, RLen n))"
| "lp_step A lp LTidy = res_bind (lpShrinkToFit A lp) (\<lambda>lp. Inr (lp, RUnit))"

text \<open>An entry takes at most ten bytes more than its text.\<close>

abbreviation lp_room :: "buffer \<Rightarrow> nat" where
  "lp_room s \<equiv> length s + 10"

lemma entry_room:
  assumes "lp_enc e"
  shows "length (lp_entry e) \<le> lp_room (entry_text e)"
proof -
  have long: ?thesis if "lp_val e = LStr (drop k e)" "k \<le> 5" for k
    using that backlen_bound [of "length e"] unfolding length_entry by (simp add: elem_text_def)
  have short: ?thesis if "length e \<le> 9"
    using that unfolding length_entry by (simp add: lpEncodeBacklenBytes_def)
  show ?thesis using assms
  proof (cases rule: lp_enc_cases)
    case s6
    show ?thesis using s6(1,2) by (intro long [of 1]) (simp_all add: lp_val_def drop_Suc)
  next
    case s12
    show ?thesis using s12(1,2) by (intro long [of 2]) (simp_all add: lp_val_def)
  next
    case s32
    show ?thesis using s32(1) by (intro long [of 5]) (simp_all add: lp_val_def)
  qed (intro short; simp)+
qed

lemma total_room: "\<forall>e\<in>set es. lp_enc e \<Longrightarrow> lp_total es \<le> 7 + sum_list (map lp_room (map (\<lambda>e. entry_text e) es))"
proof (induction es)
  case (Cons e es)
  then have "lp_total es \<le> 7 + sum_list (map lp_room (map (\<lambda>e. entry_text e) es))" "length (lp_entry e) \<le> lp_room (entry_text e)"
    using entry_room by simp_all
  then show ?case unfolding lp_total_def by simp
qed (simp add: lp_total_def)

lemma encode_text:
  assumes "length s + 5 < 2 ^ 32"
  shows "lp_enc (encode_elem s)" "entry_text (encode_elem s) = s"
  using encode_get_type [of "length s" s] assms elem_text_of_string [of s] by auto

lemma index_of_less: "index_of n idx = Some j \<Longrightarrow> j < n"
  by (auto simp: index_of_def Let_def split: if_splits)

lemma lp_listI: "lp_rep lp es \<Longrightarrow> map (\<lambda>e. entry_text e) es = xs \<Longrightarrow> lp_list lp xs"
  by (auto simp: lp_list_def)

lemma lp_at_ok:
  assumes "lp_rep lp es"
  shows "lp_at lp idx f = (case index_of (length es) idx of None \<Rightarrow> Inr (lp, RDid False) | Some j \<Rightarrow> f (int (lp_pos es j)))"
  using index_of_less [of "length es" idx] by (auto simp: lp_at_def lpSeek_ok [OF assms] lp_ptr_def split: option.splits)

lemma lp_edited_ok:
  assumes "lp_done r es i" "\<forall>e\<in>set es. lp_enc e" "map (\<lambda>e. entry_text e) es = xs" "sum_list (map lp_room xs) \<le> 2 ^ 32 - 8"
  shows "\<exists>lp'. lp_edited r reply = Inr (lp', reply) \<and> lp_list lp' xs"
proof -
  have "lp_total es < 2 ^ 32" using total_room [OF assms(2)] assms(3,4) by simp
  then show ?thesis using assms(1,3) by (auto simp: lp_done_def lp_edited_def intro: lp_listI)
qed

lemma lp_get_ok:
  assumes "lp_rep lp es" "i < length es" "LP_INTBUF_SIZE \<le> length buf"
  shows "\<exists>r. lpGet lp (int (lp_pos es i)) (Some buf) = Inr r \<and> lp_got_text lp r = Inr (entry_text (es ! i))"
proof -
  obtain g buf' where "lpGet lp (int (lp_pos es i)) (Some buf) = Inr (g, Some buf')"
    "(case g of GotPtr off n \<Rightarrow> rdn lp off n | GotBuf n \<Rightarrow> rdn buf' 0 n | GotInt v \<Rightarrow> Inl OutOfBounds) = Inr (entry_text (es ! i))"
    using lpGet_text [OF assms] by blast
  then show ?thesis by (cases g) (simp_all add: lp_got_text_def)
qed

lemma find_every_any: "find_every P 0 0 xs \<noteq> None \<longleftrightarrow> (\<exists>x\<in>set xs. P x)"
  unfolding find_every_none by (simp add: looked_at_def) (metis in_set_conv_nth)

lemma map_cut: "map f (range_removed xs idx c) = range_removed (map f xs) idx c"
  by (auto simp: range_removed_def take_map drop_map split: option.splits)

text \<open>The commands that store an element or remove one.\<close>

lemma lp_step_edit:
  assumes A: "alloc_ok A" and rep: "lp_rep lp es" and xs: "xs = map (\<lambda>e. entry_text e) es"
    and op: "op = LPush e \<or> op = LUnshift e \<or> op = LInsert idx e \<or> op = LReplace idx e \<or> op = LDelete idx"
    and room: "sum_list (map lp_room xs) + op_weight lp_room op \<le> 2 ^ 32 - 8"
  shows "\<exists>lp'. lp_step A lp op = Inr (lp', snd (spec_list_op xs op)) \<and> lp_list lp' (fst (spec_list_op xs op))"
proof -
  let ?e = "encode_elem e"
  have enc: "\<forall>e\<in>set es. lp_enc e" using rep by (simp add: lp_rep_def)
  have room': "sum_list (map lp_room (fst (spec_list_op xs op))) \<le> 2 ^ 32 - 8"
    using weight_spec [of lp_room xs op] room by simp
  have new: "lp_enc ?e \<and> entry_text ?e = e \<and> lp_arg (Some e) None (length e) ?e \<and> length e + 5 < 2 ^ 32" if "lp_room e \<le> 2 ^ 32 - 8"
    using that encode_text [of e] arg_string [of "length e" e] by simp
  have parts: "\<forall>e\<in>set (take j es). lp_enc e" "\<forall>e\<in>set (drop j es). lp_enc e" for j
    using enc by (auto dest: in_set_takeD in_set_dropD)
  have miss: ?thesis if "index_of (length es) idx = None" "op = LInsert idx e \<or> op = LReplace idx e \<or> op = LDelete idx"
    using that rep xs by (auto simp: lp_at_ok [OF rep] intro: lp_listI)
  consider "op = LPush e" | "op = LUnshift e" | (none) "index_of (length es) idx = None" "op = LInsert idx e \<or> op = LReplace idx e \<or> op = LDelete idx"
    | (insert) j where "op = LInsert idx e" "index_of (length es) idx = Some j"
    | (replace) j where "op = LReplace idx e" "index_of (length es) idx = Some j"
    | (delete) j where "op = LDelete idx" "index_of (length es) idx = Some j"
    using op by (cases "index_of (length es) idx") auto
  then show ?thesis
  proof cases
    case 1
    then have n: "lp_room e \<le> 2 ^ 32 - 8" using room by simp
    show ?thesis using lp_edited_ok [OF lpAppend_ok [OF A rep order_refl]] new [OF n] 1 room' enc xs by simp
  next
    case 2
    then have n: "lp_room e \<le> 2 ^ 32 - 8" using room by simp
    show ?thesis using lp_edited_ok [OF lpPrepend_ok [OF A rep order_refl]] new [OF n] 2 room' enc xs by simp
  next
    case none
    then show ?thesis by (rule miss)
  next
    case insert
    then have n: "lp_room e \<le> 2 ^ 32 - 8" using room by simp
    have j: "j \<le> length es" using index_of_less [OF insert(2)] by simp
    have "lp_arg (Some e) None (length e) ?e" using new [OF n] by simp
    note ok = lp_edited_ok [OF lpInsert_before [OF A rep j this] _ refl, of "RDid True"]
    show ?thesis using ok new [OF n] insert room' parts [of j] xs
      by (simp add: lp_at_ok [OF rep] lpInsertString_def take_map drop_map ball_Un)
  next
    case replace
    then have n: "lp_room e \<le> 2 ^ 32 - 8" using room by simp
    have "\<forall>x\<in>set (es[j := ?e]). lp_enc x" using new [OF n] enc set_update_subset_insert [of es j ?e] by auto
    moreover have "lp_arg (Some e) None (length e) ?e" using new [OF n] by simp
    note ok = lp_edited_ok [OF lpInsert_replace [OF A rep index_of_less [OF replace(2)] this] _ refl, of "RDid True"]
    ultimately show ?thesis using ok new [OF n] replace room' xs
      by (simp add: lp_at_ok [OF rep] lpReplace_def map_update)
  next
    case delete
    note ok = lp_edited_ok [OF lpDelete_ok [OF A rep index_of_less [OF delete(2)]] _ refl, of "RDid True"]
    show ?thesis using ok delete room' parts [of j] parts [of "Suc j"] xs
      by (simp add: lp_at_ok [OF rep] take_map drop_map ball_Un)
  qed
qed

lemma lp_step_get:
  assumes "lp_rep lp es"
  shows "lp_step A lp (LGet idx) = Inr (lp, RElem (map_option (\<lambda>j. entry_text (es ! j)) (index_of (length es) idx)))"
proof (cases "index_of (length es) idx")
  case (Some j)
  note j = index_of_less [OF Some]
  obtain r where "lpGet lp (int (lp_pos es j)) (Some (replicate LP_INTBUF_SIZE 0)) = Inr r" "lp_got_text lp r = Inr (entry_text (es ! j))"
    using lp_get_ok [OF assms j, of "replicate LP_INTBUF_SIZE 0"] by auto
  then show ?thesis using Some j by (simp add: lpSeek_ok [OF assms] lp_ptr_def)
qed (simp add: lpSeek_ok [OF assms])

lemma lp_step_has:
  assumes "lp_rep lp es"
  shows "lp_step A lp (LHas e) = Inr (lp, RDid (e \<in> set (map (\<lambda>e. entry_text e) es)))"
  using find_every_any [of "\<lambda>x. entry_text x = e" es] by (auto simp: lpFind_first [OF assms])

lemma lp_step_ok:
  assumes A: "alloc_ok A" and lp: "lp_list lp xs" and room: "sum_list (map lp_room xs) + op_weight lp_room op \<le> 2 ^ 32 - 8"
  shows "\<exists>lp'. lp_step A lp op = Inr (lp', snd (spec_list_op xs op)) \<and> lp_list lp' (fst (spec_list_op xs op))"
proof -
  obtain es where es: "lp_rep lp es" "xs = map (\<lambda>e. entry_text e) es" using lp by (auto simp: lp_list_def)
  note edit = lp_step_edit [OF A es _ room]
  show ?thesis
  proof (cases op)
    case (LDeleteRange idx c)
    then show ?thesis using lpDeleteRange_ok [OF A es(1), of idx c] es(2) by (auto intro: lp_listI [OF _ map_cut])
  next
    case (LGet idx)
    then show ?thesis using lp_step_get [OF es(1)] lp es(2) index_of_less [of "length es" idx]
      by (cases "index_of (length es) idx") (simp_all del: lp_step.simps)
  next
    case (LHas e)
    then show ?thesis using lp_step_has [OF es(1)] lp es(2) by (simp del: lp_step.simps)
  next
    case LLen
    then show ?thesis using lpLength_ok [OF es(1)] es(2) by (auto intro: lp_listI)
  next
    case LTidy
    then show ?thesis using shrinkToFit_ok [OF A es(1)] es(2) by (auto intro: lp_listI)
  qed (use edit in blast)+
qed

definition lp_list_rep :: "allocator \<Rightarrow> buffer \<Rightarrow> buffer list \<Rightarrow> bool" where
  "lp_list_rep A lp xs \<longleftrightarrow> alloc_ok A \<and> lp_list lp xs"

interpretation lpl: indexed_list "lp_list_rep A" "lp_step A" lp_room "2 ^ 32 - 8"
proof (unfold_locales, goal_cases)
  case (1 lp xs op)
  then show ?case using lp_step_ok [of A lp xs op] by (auto simp: lp_list_rep_def)
qed

section \<open>Single edits\<close>

text \<open>The list after an insertion at an entry, and the index of the new element.\<close>

definition edited_list :: "'a list \<Rightarrow> nat \<Rightarrow> lp_where \<Rightarrow> 'a \<Rightarrow> 'a list \<times> nat" where
  "edited_list es i whr e =
     (case whr of
        LP_BEFORE \<Rightarrow> (take i es @ e # drop i es, i)
      | LP_AFTER \<Rightarrow> (take (Suc i) es @ e # drop (Suc i) es, Suc i)
      | LP_REPLACE \<Rightarrow> (es[i := e], i))"

lemma edited_list_nth: "i < length es \<Longrightarrow> edited_list es i whr e = (new, j) \<Longrightarrow> j < length new \<and> new ! j = e"
  by (cases whr) (auto simp: edited_list_def nth_append)

lemma lpInsert_edited:
  assumes "alloc_ok A" "lp_rep lp es" "i < length es" "lp_arg elestr eleint sz e" "edited_list es i whr e = (new, j)"
  shows "lp_done (lpInsert A lp elestr eleint sz (int (lp_pos es i)) whr) new j"
proof -
  have some: "\<not> (elestr = None \<and> eleint = None)" using assms(4) by (auto simp: lp_arg_def)
  show ?thesis
  proof (cases whr)
    case LP_BEFORE
    then show ?thesis using assms lpInsert_before [OF assms(1,2) _ assms(4), of i] by (auto simp: edited_list_def)
  next
    case LP_AFTER
    then show ?thesis using assms lpInsert_before [OF assms(1,2) _ assms(4), of "Suc i"] lpInsert_after [OF assms(2,3) some]
      by (auto simp: edited_list_def)
  next
    case LP_REPLACE
    then show ?thesis using assms lpInsert_replace [OF assms(1-4)] by (auto simp: edited_list_def)
  qed
qed

text \<open>The type of element pointers, and of what an edit returns: NULL, or a listpack with NULL or an element of it.\<close>

definition lp_elem_ptr :: "buffer \<Rightarrow> int \<Rightarrow> bool" where
  "lp_elem_ptr lp p \<longleftrightarrow> (\<exists>es i. lp_rep lp es \<and> i < length es \<and> p = int (lp_pos es i))"

definition lp_typed :: "(buffer \<times> int option) option result \<Rightarrow> bool" where
  "lp_typed r \<longleftrightarrow>
     r = Inr None \<or>
     (\<exists>lp p. r = Inr (Some (lp, p)) \<and> (\<exists>es. lp_rep lp es) \<and> (case p of None \<Rightarrow> True | Some p \<Rightarrow> lp_elem_ptr lp p))"

lemma elem_ptrI: "lp_rep lp es \<Longrightarrow> i < length es \<Longrightarrow> lp_elem_ptr lp (int (lp_pos es i))"
  by (auto simp only: lp_elem_ptr_def)

lemma done_typed: "lp_done r es i \<Longrightarrow> lp_typed r"
  by (auto simp: lp_done_def lp_typed_def lp_ptr_def intro: elem_ptrI split: if_splits)

lemma insert_typed:
  assumes "alloc_ok A" "lp_elem_ptr lp p" "lp_arg elestr eleint sz e"
  shows "lp_typed (lpInsert A lp elestr eleint sz p whr)"
proof -
  obtain es i where es: "lp_rep lp es" "i < length es" "p = int (lp_pos es i)" using assms(2) by (auto simp: lp_elem_ptr_def)
  obtain new j where "edited_list es i whr e = (new, j)" by force
  then show ?thesis using done_typed [OF lpInsert_edited [OF assms(1) es(1,2) assms(3)]] es(3) by simp
qed

section \<open>Properties\<close>

text \<open>An allocator that gives what is asked for, zeroed.\<close>

abbreviation exact_alloc :: allocator where
  "exact_alloc \<equiv> \<lparr>usable_size = (\<lambda>n. n), fresh_byte = (\<lambda>_. 0)\<rparr>"

lemma exact_alloc_ok: "alloc_ok exact_alloc"
  by (simp add: alloc_ok_def)

text \<open>
  C2: A listpack is a list of strings. Any sequence of appends, prepends, insertions, replacements and deletions
  at an index, deletions of ranges, reads, searches, length queries and trimming, on a new listpack, gives
  the replies of a mathematical list, stays inside the block and meets no failed assertion, as long as the
  strings with ten bytes each fit the 32 bit size of the header.
\<close>

theorem listpack_implements_list:
  assumes "alloc_ok A" "sum_list (map (op_weight (\<lambda>s. length s + 10)) ops) \<le> 2 ^ 32 - 8"
  shows "\<exists>lp lp'. lpNew A capacity = Inr lp \<and> run_list_ops (lp_step A) lp ops = Inr (lp', snd (spec_list_ops [] ops)) \<and>
    lp_list lp' (fst (spec_list_ops [] ops))"
proof -
  obtain lp where lp: "lpNew A capacity = Inr lp" "lp_rep lp []" using lpNew_ok [OF assms(1)] by blast
  then have "lp_list_rep A lp []" using assms(1) by (simp add: lp_list_rep_def lp_list_def)
  then show ?thesis using lpl.run_list_ops_spec [of A lp "[]" ops] assms(2) lp(1) by (auto simp: lp_list_rep_def)
qed

theorem listpack_implements_list_witness:
  "\<exists>lp lp'. lpNew exact_alloc 0 = Inr lp \<and>
     run_list_ops (lp_step exact_alloc) lp [LPush [49, 48], LUnshift [97], LInsert (-1) [98], LGet 2, LDelete 0, LHas [97], LLen] =
       Inr (lp', [RUnit, RUnit, RDid True, RElem (Some [49, 48]), RDid True, RDid False, RLen 2]) \<and>
     lp_list lp' [[98], [49, 48]]"
proof -
  let ?ops = "[LPush [49, 48], LUnshift [97], LInsert (-1) [98], LGet 2, LDelete 0, LHas [97], LLen] :: buffer list_op list"
  have "spec_list_ops [] ?ops =
    ([[98], [49, 48]], [RUnit, RUnit, RDid True, RElem (Some [49, 48]), RDid True, RDid False, RLen 2])"
    by (simp add: index_of_def)
  moreover have "sum_list (map (op_weight (\<lambda>s. length s + 10)) ?ops) \<le> 2 ^ 32 - 8" by simp
  ultimately show ?thesis using listpack_implements_list [OF exact_alloc_ok, of ?ops 0] by (simp only: fst_conv snd_conv simp_thms)
qed

text \<open>
  C30: Whatever an edit at an element of a listpack returns can be used by the next one: it is NULL, or a well
  formed listpack together with NULL or a pointer to one of its elements. No edit fails.
\<close>

theorem listpack_edits_typed:
  assumes "alloc_ok A" "lp_elem_ptr lp p" "- (2 ^ 63) \<le> v" "v < 2 ^ 63" "slen \<le> length s" "slen + 5 < 2 ^ 32"
  shows "lp_typed (lpInsertString A lp s slen p whr) \<and> lp_typed (lpInsertInteger A lp v p whr) \<and>
    lp_typed (lpReplace A lp p s slen) \<and> lp_typed (lpReplaceInteger A lp p v) \<and> lp_typed (lpDelete A lp p) \<and>
    lp_typed (lpAppend A lp s slen) \<and> lp_typed (lpAppendInteger A lp v) \<and>
    lp_typed (lpPrepend A lp s slen) \<and> lp_typed (lpPrependInteger A lp v)"
proof -
  obtain es i where es: "lp_rep lp es" "i < length es" "p = int (lp_pos es i)" using assms(2) by (auto simp: lp_elem_ptr_def)
  note at = insert_typed [OF assms(1,2) arg_string [OF assms(5,6)]] insert_typed [OF assms(1,2) arg_integer [OF assms(3,4)]]
  note ends = lpAppend_ok [OF assms(1) es(1) assms(5,6)] lpAppendInteger_ok [OF assms(1) es(1) assms(3,4)]
    lpPrepend_ok [OF assms(1) es(1) assms(5,6)] lpPrependInteger_ok [OF assms(1) es(1) assms(3,4)]
  show ?thesis
    using at ends [THEN done_typed] done_typed [OF lpDelete_ok [OF assms(1) es(1,2)]] es(3)
    by (simp add: lpInsertString_def lpInsertInteger_def lpReplace_def lpReplaceInteger_def Let_def)
qed

lemma one_entry_rep: "lp_rep [9, 0, 0, 0, 1, 0, 5, 1, LP_EOF] [[5]]"
proof -
  have "lp_body [[5]] = [5, 1]" by (simp add: lp_entry_def lpEncodeBacklen_def)
  moreover have "lp_enc [5]" by (simp add: lp_enc_def lp_size_def)
  moreover have "[9, 0, 0, 0, 1, 0, 5, 1, LP_EOF] = lp_form 9 1 ([5, 1] @ [LP_EOF] @ [])" unfolding lp_form_def by code_simp
  ultimately show ?thesis unfolding lp_rep_def lp_total_def by (auto simp: lp_count_ok_def intro!: exI [of _ 1] exI [of _ "[]"])
qed

lemma one_entry_ptr: "lp_elem_ptr [9, 0, 0, 0, 1, 0, 5, 1, LP_EOF] 6"
  using one_entry_rep by (auto simp: lp_elem_ptr_def intro!: exI [of _ "[[5]]"] exI [of _ 0])

lemma small_totals: "lp_total [encode_elem [97], [5]] < 2 ^ 32" "lp_total [[7], encode_elem [97], [5]] < 2 ^ 32"
proof -
  have "length (lp_entry (encode_elem [97])) \<le> 11" using entry_room [of "encode_elem [97]"] encode_text [of "[97]"] by simp
  moreover have "length (lp_entry [5]) = 2" "length (lp_entry [7]) = 2" by (simp_all add: lp_entry_def lpEncodeBacklen_def)
  ultimately show "lp_total [encode_elem [97], [5]] < 2 ^ 32" "lp_total [[7], encode_elem [97], [5]] < 2 ^ 32"
    by (simp_all add: lp_total_def)
qed

theorem listpack_edits_typed_witness:
  "lp_typed (lpInsertString exact_alloc [9, 0, 0, 0, 1, 0, 5, 1, LP_EOF] [97] 1 6 LP_AFTER) \<and>
   lp_typed (lpDelete exact_alloc [9, 0, 0, 0, 1, 0, 5, 1, LP_EOF] 6)"
  using listpack_edits_typed [OF exact_alloc_ok one_entry_ptr, of 0 1 "[97]" LP_AFTER] by simp

text \<open>
  C12: A string stored before, after or in place of an entry is read back unchanged through the returned
  position, whether it was stored as an integer or as bytes, and all other entries stay as they are. The
  call returns NULL exactly when the new listpack would not fit 32 bits.
\<close>

theorem listpack_insert_get:
  assumes "alloc_ok A" "lp_rep lp es" "i < length es" "slen \<le> length s" "slen + 5 < 2 ^ 32"
    and "edited_list es i whr (encode_elem (take slen s)) = (new, j)" "LP_INTBUF_SIZE \<le> length buf"
  shows "if lp_total new < 2 ^ 32
    then \<exists>lp' p r. lpInsert A lp (Some s) None slen (int (lp_pos es i)) whr = Inr (Some (lp', Some p)) \<and> lp_rep lp' new \<and>
      lpGet lp' p (Some buf) = Inr r \<and> lp_got_text lp' r = Inr (take slen s)
    else lpInsert A lp (Some s) None slen (int (lp_pos es i)) whr = Inr None"
proof -
  have j: "j < length new" "new ! j = encode_elem (take slen s)" using edited_list_nth [OF assms(3,6)] by simp_all
  have stored: "entry_text (new ! j) = take slen s" using encode_text [of "take slen s"] assms(4,5) j(2) by simp
  have "lp_done (lpInsert A lp (Some s) None slen (int (lp_pos es i)) whr) new j"
    using lpInsert_edited [OF assms(1-3) arg_string [OF assms(4,5)] assms(6)] .
  then show ?thesis using lp_get_ok [OF _ j(1) assms(7)] stored j(1) by (auto simp: lp_done_def lp_ptr_def)
qed

theorem listpack_insert_get_witness:
  "\<exists>lp' p r. lpInsert exact_alloc [9, 0, 0, 0, 1, 0, 5, 1, LP_EOF] (Some [97]) None 1 6 LP_BEFORE = Inr (Some (lp', Some p)) \<and>
     lpGet lp' p (Some (replicate 21 0)) = Inr r \<and> lp_got_text lp' r = Inr [97]"
  using small_totals listpack_insert_get [OF exact_alloc_ok one_entry_rep, of 0 1 "[97]" LP_BEFORE "[encode_elem [97], [5]]" 0 "replicate 21 0"]
  by (auto simp: edited_list_def)

text \<open>
  CN: Every entry of a listpack can be reached from both ends: \<^verbatim>\<open>lpSeek\<close> takes an index that counts from the
  end if it is negative and gives NULL outside the list, also when the header does not know the number of
  elements, and \<^verbatim>\<open>lpNext\<close> and \<^verbatim>\<open>lpPrev\<close> step between neighbours and give NULL at the ends.
\<close>

theorem listpack_navigation:
  assumes "lp_rep lp es"
  shows "lpSeek lp idx =
      Inr (let j = (if idx < 0 then int (length es) + idx else idx)
           in if 0 \<le> j \<and> j < int (length es) then Some (int (lp_pos es (nat j))) else None) \<and>
    lpFirst lp = lpSeek lp 0 \<and> lpLast lp = lpSeek lp (-1) \<and>
    (\<forall>i<length es. lpNext lp (int (lp_pos es i)) = Inr (if Suc i < length es then Some (int (lp_pos es (Suc i))) else None) \<and>
       lpPrev lp (int (lp_pos es i)) = Inr (if i = 0 then None else Some (int (lp_pos es (i - 1)))))"
proof -
  let ?at = "\<lambda>k. if 0 \<le> k \<and> k < int (length es) then Some (int (lp_pos es (nat k))) else None"
  have seek: "lpSeek lp k = Inr (let j = (if k < 0 then int (length es) + k else k) in ?at j)" for k
    by (auto simp: lpSeek_ok [OF assms] index_of_def lp_ptr_def Let_def nat_less_iff)
  have first: "lpFirst lp = lpSeek lp 0" "lpLast lp = lpSeek lp (-1)"
    using nat_diff_distrib [of 1 "int (length es)"]
    by (auto simp: lpFirst_rep [OF assms] lpLast_rep [OF assms] lp_ptr_def seek Let_def Suc_le_eq)
  have "lpPrev lp (int (lp_pos es i)) = Inr (if i = 0 then None else Some (int (lp_pos es (i - 1))))" if "i < length es" for i
    using lpPrev_entry [OF assms, of i] that by (auto simp: lp_ptr_def)
  then show ?thesis using seek [of idx] first lpNext_entry [OF assms] by (simp add: lp_ptr_def)
qed

theorem listpack_navigation_witness:
  "lpSeek [9, 0, 0, 0, 1, 0, 5, 1, LP_EOF] (-1) = Inr (Some 6) \<and> lpSeek [9, 0, 0, 0, 1, 0, 5, 1, LP_EOF] 1 = Inr None"
  using listpack_navigation [OF one_entry_rep, of "-1"] listpack_navigation [OF one_entry_rep, of 1] by simp

text \<open>
  CN: \<^verbatim>\<open>lpFind\<close> from an entry looks at that entry and then at every one after skipping \<open>skip\<close> entries. It returns the
  first of them whose text is the string, however it is encoded, and NULL if there is none.
\<close>

theorem listpack_find_first:
  assumes "lp_rep lp es" "slen \<le> length s" "i < length es"
  shows "\<exists>r. lpFind lp (Some (int (lp_pos es i))) s slen skip = Inr r \<and>
    (case r of
       None \<Rightarrow> \<forall>j. i + j < length es \<longrightarrow> j mod Suc skip = 0 \<longrightarrow> entry_text (es ! (i + j)) \<noteq> take slen s
     | Some p \<Rightarrow> \<exists>j. i + j < length es \<and> p = int (lp_pos es (i + j)) \<and> j mod Suc skip = 0 \<and>
         entry_text (es ! (i + j)) = take slen s \<and>
         (\<forall>k<j. k mod Suc skip = 0 \<longrightarrow> entry_text (es ! (i + k)) \<noteq> take slen s))"
proof (cases "find_every (\<lambda>e. entry_text e = take slen s) skip 0 (drop i es)")
  case None
  then have "\<forall>j. i + j < length es \<longrightarrow> j mod Suc skip = 0 \<longrightarrow> entry_text (es ! (i + j)) \<noteq> take slen s"
    unfolding find_every_none by (simp add: looked_at_def less_diff_conv add.commute)
  then show ?thesis using None by (simp add: lpFind_ok [OF assms])
next
  case (Some j)
  then have "i + j < length es \<and> j mod Suc skip = 0 \<and> entry_text (es ! (i + j)) = take slen s \<and>
    (\<forall>k<j. k mod Suc skip = 0 \<longrightarrow> entry_text (es ! (i + k)) \<noteq> take slen s)"
    using assms(3) unfolding find_every_some by (simp add: looked_at_def less_diff_conv add.commute)
  then show ?thesis using Some by (auto simp: lpFind_ok [OF assms])
qed

theorem listpack_find_first_witness:
  "lpFind [9, 0, 0, 0, 1, 0, 5, 1, LP_EOF] (Some 6) [53] 1 0 = Inr (Some 6)"
proof -
  have "entry_text [5] = [53]" by code_simp
  then show ?thesis using listpack_find_first [OF one_entry_rep, of 1 "[53]" 0 0] by (auto split: option.splits)
qed

text \<open>
  CN: \<^verbatim>\<open>lpMerge\<close> gives the listpack with the entries of the first listpack followed by those of the second,
  whichever block it reuses, and fails its assertion exactly when the result would not stay below the
  largest 32 bit size.
\<close>

theorem listpack_merge_appends:
  assumes "alloc_ok A" "lp_rep lp1 es" "lp_rep lp2 es'"
  shows "if lp_total (es @ es') < 2 ^ 32 - 1 then \<exists>lp'. lpMerge A lp1 lp2 = Inr lp' \<and> lp_rep lp' (es @ es')
    else lpMerge A lp1 lp2 = Inl AssertFailed"
  by (rule lpMerge_ok [OF assms])

theorem listpack_merge_appends_witness:
  "\<exists>lp'. lpMerge exact_alloc [9, 0, 0, 0, 1, 0, 5, 1, LP_EOF] [9, 0, 0, 0, 1, 0, 5, 1, LP_EOF] = Inr lp' \<and> lp_rep lp' [[5], [5]]"
proof -
  have "lp_total [[5], [5]] = 11" by (simp add: lp_total_def lp_entry_def lpEncodeBacklen_def)
  then show ?thesis using listpack_merge_appends [OF exact_alloc_ok one_entry_rep one_entry_rep] by simp
qed

text \<open>
  CN: \<^verbatim>\<open>lpBatchDelete\<close> of entries given in increasing order removes exactly these entries and keeps the others in
  order; \<^verbatim>\<open>lpDeleteRange\<close> removes the entries from an index on, and nothing if the index is outside the list.
\<close>

theorem listpack_bulk_delete:
  assumes "alloc_ok A" "lp_rep lp es" "sorted_wrt (<) js" "\<forall>j\<in>set js. j < length es"
  shows "(\<exists>lp'. lpBatchDelete A lp (map (\<lambda>j. int (lp_pos es j)) js) = Inr lp' \<and> lp_rep lp' (nths es (- set js))) \<and>
    (\<exists>lp'. lpDeleteRange A lp idx c = Inr lp' \<and> lp_rep lp' (range_removed es idx c))"
  using lpBatchDelete_ok [OF assms] lpDeleteRange_ok [OF assms(1,2)] by blast

theorem listpack_bulk_delete_witness:
  "\<exists>lp'. lpBatchDelete exact_alloc [9, 0, 0, 0, 1, 0, 5, 1, LP_EOF] [6] = Inr lp' \<and> lp_rep lp' []"
  using listpack_bulk_delete [OF exact_alloc_ok one_entry_rep, of "[0]" 0 0] by simp

text \<open>
  CN: \<^verbatim>\<open>lpBatchInsert\<close> puts all its entries, in their order, before the given position, or refuses with NULL, exactly
  if the result would not fit 32 bits. It returns the position of the last new entry.
\<close>

theorem listpack_batch_insert:
  assumes "alloc_ok A" "lp_rep lp es" "i \<le> length es" "ents \<noteq> []" "\<forall>ent\<in>set ents. entry_ok ent"
    and new: "new = take i es @ map entry_enc ents @ drop i es"
  shows "if lp_total new < 2 ^ 32 then
      \<exists>lp'. lpBatchInsert A lp (int (lp_pos es i)) LP_BEFORE ents = Inr (Some (lp', int (lp_pos new (i + length ents - 1)))) \<and> lp_rep lp' new
    else lpBatchInsert A lp (int (lp_pos es i)) LP_BEFORE ents = Inr None"
  by (rule lpBatchInsert_before [OF assms])

theorem listpack_batch_insert_witness:
  "\<exists>lp' p. lpBatchInsert exact_alloc [9, 0, 0, 0, 1, 0, 5, 1, LP_EOF] 6 LP_BEFORE
     [\<lparr>le_s = None, le_slen = 0, le_l = 7\<rparr>, \<lparr>le_s = Some [97], le_slen = 1, le_l = 0\<rparr>] = Inr (Some (lp', p)) \<and>
     lp_rep lp' [[7], encode_elem [97], [5]]"
proof -
  let ?ents = "[\<lparr>le_s = None, le_slen = 0, le_l = 7\<rparr>, \<lparr>le_s = Some [97], le_slen = 1, le_l = 0\<rparr>]"
  have enc: "map entry_enc ?ents = [[7], encode_elem [97]]" by (simp add: entry_enc_def lpEncodeIntegerGetType_def)
  show ?thesis
    using small_totals listpack_batch_insert [OF exact_alloc_ok one_entry_rep, of 0 ?ents "[[7], encode_elem [97], [5]]"] enc
    by (auto simp: entry_ok_def)
qed

end
