(* ===== verification/Spec2Isabelle.thy ===== *)
theory Spec2Isabelle
  imports Prelude Fwtree Intset Dict Dict_Rehash Dict_Map Dict_Scan Numerals Glob Listpack Listpack_Codec Listpack_Ops
    Listpack_Edit Listpack_Bulk Listpack_Read Listpack_Valid Listpack_Spec
begin

text \<open>
  The repository is a restaurant ordering system in TypeScript that ships its data store, Redis, as C
  sources under \<^verbatim>\<open>src/redis-stable/\<close>. This development models the data structures of that store, the
  code that every command runs on: the hash table that holds the keys, the Fenwick tree that counts them
  over the slots, the compact encodings of small sets, lists, hashes and sorted sets, and the
  conversions and matchers of the command layer. File names below are those of
  \<^verbatim>\<open>src/redis-stable/src/\<close>.

  \<^bold>\<open>How C is modelled.\<close> A function that can stop returns a value of type \<^typ>\<open>'a result\<close>: a failed assertion,
  an access outside a block and a loop that does not end are the three values of \<^typ>\<open>c_error\<close>. Blocks of
  memory are lists of bytes that are read and written through checked accessors (\<^const>\<open>rd\<close>, \<^const>\<open>wr\<close>,
  \<^const>\<open>rdn\<close>, \<^const>\<open>wrn\<close>), so that a theorem that says what an operation returns also says that it stays
  inside its blocks. A pointer into a block is an offset, NULL is \<^const>\<open>None\<close>. Fixed width integers are words,
  or numbers with the wrap around written out where the code computes with them across widths. What code
  outside the modelled files does, the allocator and the callbacks of a \<^verbatim>\<open>dictType\<close>, is a parameter.
  Allocation succeeds.

  \<^bold>\<open>Parts and theories.\<close>

  \<^item> Theory \<open>Prelude\<close> holds the result type, the checked accessors, little endian codecs and two
    interfaces: \<open>element_set\<close> and \<open>keyed_map\<close> say what a store of elements and a store of keyed values
    promise for each operation, and prove once that any sequence of operations then gives the replies of a
    mathematical set or map. Intsets and dicts are instances.

  \<^item> Theory \<open>Fwtree\<close> is \<^verbatim>\<open>fwtree.c\<close>, the Fenwick tree with which a key space counts its keys per slot. The
    tree is shown to represent the counts; prefix sums, the search for the slot of the n-th key and the
    walk over non empty slots follow.

  \<^item> Theory \<open>Intset\<close> is \<^verbatim>\<open>intset.c\<close> on raw bytes: sorted integers of the smallest width that holds them,
    widened on insertion. It implements a set, and the integrity check accepts exactly the valid images.

  \<^item> Theory \<open>Dict\<close> is \<^verbatim>\<open>dict.c\<close> with the macros of \<^verbatim>\<open>dict.h\<close>: two tables of chains, incremental rehashing, the
    resize policy, lookup, insertion and deletion. Theory \<open>Dict_Rehash\<close> has the invariant of the tables and
    that rehashing and resizing keep it, theory \<open>Dict_Map\<close> that the dict implements a map and a set, theory
    \<open>Dict_Scan\<close> the cursor of SCAN with its guarantee, and the iterators.

  \<^item> Theory \<open>Numerals\<close> has the integer conversions of \<^verbatim>\<open>util.c\<close> and that they are inverse to each other, theory
    \<open>Glob\<close> its pattern matcher and the equivalence with a declarative meaning of patterns.

  \<^item> Theory \<open>Listpack\<close> is \<^verbatim>\<open>listpack.c\<close> on raw bytes. Theory \<open>Listpack_Codec\<close> has the encodings of elements and
    lengths, theory \<open>Listpack_Ops\<close> the representation of a list of elements and the navigation, the theories
    \<open>Listpack_Edit\<close> and \<open>Listpack_Bulk\<close> the operations that change a listpack, theory \<open>Listpack_Read\<close> reading
    and searching, and theory \<open>Listpack_Valid\<close> the integrity check of data from outside. Theory \<open>Listpack_Spec\<close>
    has the interface \<open>indexed_list\<close>, that listpacks implement it, and the properties of the single calls.

  \<^bold>\<open>Bounds and loops.\<close> A loop is a function with a termination proof, by a measure on the unread part of a
  block, the remaining entries of a chain or the bits of an index. Where a loop ends only in states that
  the invariant allows, the model returns the error \<^const>\<open>Diverges\<close> outside them, and the theorems about the
  operation show that it is not returned: the walks of the Fenwick tree, the binary search of an intset
  with its 32 bit positions, the search of a listpack. Fuel is used for \<^const>\<open>rehashMicrosecondsLoop\<close> and
  \<^const>\<open>forceRehashLoop\<close>: each round moves the rehash index, so one more round than there are buckets is
  enough, which the theorem on completing a rehash shows. The pattern matcher has the nesting limit of
  the source. Sizes of a listpack are below \<open>2^32\<close> as its header demands; operations that would exceed it
  return NULL.

  \<^bold>\<open>Not modelled.\<close> The TypeScript applications and packages are not C. Of the store, the event loop,
  networking, persistence, replication, cluster, scripting, modules and the command layer are effects on
  sockets, files and process wide state around the structures modelled here. The random sampling
  functions of dict and listpack depend on a random source and promise only a distribution. The
  floating point parts of \<^verbatim>\<open>util.c\<close> need a model of binary floating point. Defragmentation callbacks move
  allocations, which have no addresses in this model. The vendored libraries under \<^verbatim>\<open>deps\<close> are not part of
  the program.
\<close>

end
